(* ===== verification/Prelude.thy ===== *)
theory Prelude
  imports Main "HOL-Library.Word"
begin

text \<open>
  Shared vocabulary of the development.

  \<^item> Machine integers. \<open>u8\<close>, \<open>u32\<close>, \<open>u64\<close> and \<open>u128\<close> are words of their width.
    \<open>usize\<close> is a natural number below \<open>usize_limit\<close> = 2^32 (the supported targets are
    32-bit Cortex-M): the operators below check that bound, as the overflow checks of a debug
    build do, and \<open>uwrapping_add\<close> writes the wrap-around out.
  \<^item> Faults. An operation that would panic (arithmetic overflow, remainder by zero) or have
    undefined behaviour (a raw-pointer access outside its allocation) returns \<open>Inl\<close> of a
    \<open>fault\<close>; \<open>res_bind\<close> sequences fallible steps. That a component never faults is
    then a theorem about it and not an assumption of its model.
  \<^item> The raw-memory primitives of \<open>core\<close> that the code uses (\<open>ptr::copy_nonoverlapping\<close>,
    \<open>slice::from_raw_parts\<close>) on byte lists, with their bounds obligations checked.
\<close>

subsection \<open>Machine integers\<close>

type_synonym u8 = "8 word"
type_synonym u32 = "32 word"
type_synonym u64 = "64 word"
type_synonym u128 = "128 word"
type_synonym usize = nat

definition usize_limit :: nat where
  "usize_limit = 2 ^ 32"

definition usize_max :: usize where
  "usize_max = usize_limit - 1"

subsection \<open>Faults and their propagation\<close>

datatype fault =
    Overflow      \<comment> \<open>panic: arithmetic overflow\<close>
  | RemByZero     \<comment> \<open>panic: remainder with a divisor of zero\<close>
  | OutOfBounds   \<comment> \<open>undefined behaviour: access outside the allocation\<close>
  | Uninit        \<comment> \<open>undefined behaviour: use of memory never written\<close>
  | Unwrap        \<comment> \<open>panic: \<open>unwrap\<close> or \<open>expect\<close> of a missing value\<close>

type_synonym 'a res = "fault + 'a"

fun res_bind :: "'a res \<Rightarrow> ('a \<Rightarrow> 'b res) \<Rightarrow> 'b res" where
  "res_bind (Inl e) f = Inl e"
| "res_bind (Inr x) f = f x"

named_theorems checked "conditions under which the checked primitives do not fault"

lemma res_bind_eq_Inr:
  "res_bind m f = Inr y \<longleftrightarrow> (\<exists>x. m = Inr x \<and> f x = Inr y)"
  by (cases m) auto

text \<open>A computation that may fault and may also not return (\<open>None\<close>).\<close>

fun run_bind :: "'a res option \<Rightarrow> ('a \<Rightarrow> 'b res option) \<Rightarrow> 'b res option" where
  "run_bind None f = None"
| "run_bind (Some (Inl e)) f = Some (Inl e)"
| "run_bind (Some (Inr x)) f = f x"

lemma run_bind_assoc: "run_bind (run_bind m f) g = run_bind m (\<lambda>x. run_bind (f x) g)"
proof (cases m)
  case (Some r)
  then show ?thesis by (cases r) simp_all
qed simp

lemma run_bind_right: "run_bind m (\<lambda>x. Some (Inr x)) = m"
proof (cases m)
  case (Some r)
  then show ?thesis by (cases r) simp_all
qed simp

lemma res_bind_assoc: "res_bind (res_bind m f) g = res_bind m (\<lambda>x. res_bind (f x) g)"
  by (cases m) auto

subsection \<open>Checked arithmetic on usize\<close>

definition uadd :: "usize \<Rightarrow> usize \<Rightarrow> usize res" where
  "uadd a b = (if a + b < usize_limit then Inr (a + b) else Inl Overflow)"

definition usub :: "usize \<Rightarrow> usize \<Rightarrow> usize res" where
  "usub a b = (if b \<le> a then Inr (a - b) else Inl Overflow)"

definition urem :: "usize \<Rightarrow> usize \<Rightarrow> usize res" where
  "urem a b = (if b = 0 then Inl RemByZero else Inr (a mod b))"

definition uwrapping_sub :: "usize \<Rightarrow> usize \<Rightarrow> usize" where
  "uwrapping_sub a b = (a + usize_limit - b) mod usize_limit"

definition uwrapping_add :: "usize \<Rightarrow> usize \<Rightarrow> usize" where
  "uwrapping_add a b = (a + b) mod usize_limit"

lemma uadd_ok [checked]: "a + b < usize_limit \<Longrightarrow> uadd a b = Inr (a + b)"
  by (simp add: uadd_def)

lemma usub_ok [checked]: "b \<le> a \<Longrightarrow> usub a b = Inr (a - b)"
  by (simp add: usub_def)

lemma urem_ok [checked]: "0 < b \<Longrightarrow> urem a b = Inr (a mod b)"
  by (simp add: urem_def)

lemma uwrapping_add_ok [checked]: "a + b < usize_limit \<Longrightarrow> uwrapping_add a b = a + b"
  by (simp add: uwrapping_add_def)

text \<open>The casts between \<open>usize\<close> and the 32-bit index fields.\<close>

definition as_usize :: "u32 \<Rightarrow> usize" where
  "as_usize x = unat x"

definition as_u32 :: "usize \<Rightarrow> u32" where
  "as_u32 n = of_nat n"

lemma as_usize_as_u32 [simp]: "n < usize_limit \<Longrightarrow> as_usize (as_u32 n) = n"
  by (simp add: as_usize_def as_u32_def usize_limit_def unat_of_nat)

lemma as_u32_as_usize [simp]: "as_u32 (as_usize x) = x"
  by (simp add: as_usize_def as_u32_def)

lemma as_usize_less [simp]: "as_usize x < usize_limit"
  using unsigned_less [of x] by (simp add: as_usize_def usize_limit_def)

lemma as_usize_0 [simp]: "as_usize 0 = 0"
  by (simp add: as_usize_def)

lemma as_usize_numeral [simp]: "as_usize (numeral k) = numeral k mod 2 ^ 32"
  by (simp add: as_usize_def take_bit_eq_mod)

lemma as_usize_1 [simp]: "as_usize 1 = 1"
  by (simp add: as_usize_def)

lemma as_u32_0 [simp]: "as_u32 0 = 0"
  by (simp add: as_u32_def)

lemma as_usize_inject [simp]: "as_usize x = as_usize y \<longleftrightarrow> x = y"
  by (metis as_u32_as_usize)

subsection \<open>Raw memory on byte lists\<close>

text \<open>
  \<open>copy_nonoverlapping src soff dst doff n\<close> copies \<open>n\<close> elements from \<open>src\<close> at offset
  \<open>soff\<close> to \<open>dst\<close> at offset \<open>doff\<close>; either range leaving its list is the fault.
  The two lists are distinct objects, so the ranges do not overlap.
\<close>

definition copy_nonoverlapping ::
    "'a list \<Rightarrow> usize \<Rightarrow> 'a list \<Rightarrow> usize \<Rightarrow> usize \<Rightarrow> 'a list res" where
  "copy_nonoverlapping src soff dst doff n =
     (if soff + n \<le> length src \<and> doff + n \<le> length dst
      then Inr (take doff dst @ take n (drop soff src) @ drop (doff + n) dst)
      else Inl OutOfBounds)"

definition slice_from_raw_parts :: "'a list \<Rightarrow> usize \<Rightarrow> usize \<Rightarrow> 'a list res" where
  "slice_from_raw_parts buf off n =
     (if off + n \<le> length buf then Inr (take n (drop off buf)) else Inl OutOfBounds)"

lemma copy_nonoverlapping_ok [checked]:
  "soff + n \<le> length src \<Longrightarrow> doff + n \<le> length dst \<Longrightarrow>
   copy_nonoverlapping src soff dst doff n =
     Inr (take doff dst @ take n (drop soff src) @ drop (doff + n) dst)"
  by (simp add: copy_nonoverlapping_def)

lemma slice_from_raw_parts_ok [checked]:
  "off + n \<le> length buf \<Longrightarrow> slice_from_raw_parts buf off n = Inr (take n (drop off buf))"
  by (simp add: slice_from_raw_parts_def)

end
