(* ===== verification/Circular.thy ===== *)
theory Circular
  imports Prelude
begin

text \<open>
  The algebra of a circular byte buffer, independent of any program: a list \<open>buf\<close> of
  length \<open>n\<close>, a read position \<open>r\<close> and a write position \<open>w\<close>, both below \<open>n\<close>; the bytes
  from \<open>r\<close> up to (and not including) \<open>w\<close>, going round the end, are the content, and one
  byte is always left free so that \<open>r = w\<close> means empty. Both rings of the program (the
  persistent ring of \<open>ring_buffer.rs\<close> and the RTT channel of \<open>logger/rtt.rs\<close>) use this
  arithmetic, so the lemmas about putting bytes at \<open>w\<close> and taking bytes at \<open>r\<close> are
  proved once here.
\<close>

subsection \<open>Content, space and ownership\<close>

definition circ_ok :: "'a list \<Rightarrow> nat \<Rightarrow> nat \<Rightarrow> bool" where
  "circ_ok buf r w \<longleftrightarrow> r < length buf \<and> w < length buf"

definition circ_len :: "nat \<Rightarrow> nat \<Rightarrow> nat \<Rightarrow> nat" where
  "circ_len n r w = (if w < r then n - r + w else w - r)"

definition circ_free :: "nat \<Rightarrow> nat \<Rightarrow> nat \<Rightarrow> nat" where
  "circ_free n r w = n - 1 - circ_len n r w"

definition circ_content :: "'a list \<Rightarrow> nat \<Rightarrow> nat \<Rightarrow> 'a list" where
  "circ_content buf r w =
     (if w < r then drop r buf @ take w buf else take (w - r) (drop r buf))"

text \<open>The positions that hold content; the others belong to the writer.\<close>

definition circ_owned :: "nat \<Rightarrow> nat \<Rightarrow> nat \<Rightarrow> bool" where
  "circ_owned r w i \<longleftrightarrow> (if w < r then r \<le> i \<or> i < w else r \<le> i \<and> i < w)"

text \<open>The buffer with the bytes \<open>d\<close> put at \<open>w\<close>, continuing at 0 past the end.\<close>

definition circ_put :: "'a list \<Rightarrow> nat \<Rightarrow> 'a list \<Rightarrow> 'a list" where
  "circ_put buf w d =
     (let p = length buf - w in
      if w + length d \<le> length buf then take w buf @ d @ drop (w + length d) buf
      else drop p d @ drop (length d - p) (take w buf @ take p d))"

lemma length_circ_content [simp]:
  "circ_ok buf r w \<Longrightarrow> length (circ_content buf r w) = circ_len (length buf) r w"
  by (auto simp: circ_ok_def circ_content_def circ_len_def)

lemma circ_len_less [simp]: "circ_ok buf r w \<Longrightarrow> circ_len (length buf) r w < length buf"
  by (auto simp: circ_ok_def circ_len_def)

lemma circ_len_free:
  "circ_ok buf r w \<Longrightarrow> circ_len (length buf) r w + circ_free (length buf) r w = length buf - 1"
  by (auto simp: circ_ok_def circ_len_def circ_free_def)

lemma circ_content_empty_iff:
  "circ_ok buf r w \<Longrightarrow> circ_content buf r w = [] \<longleftrightarrow> w = r"
  by (auto simp: circ_ok_def circ_content_def)

lemma circ_content_same [simp]: "circ_content buf r r = []"
  by (simp add: circ_content_def)

lemma length_circ_put [simp]:
  "w < length buf \<Longrightarrow> length d \<le> length buf \<Longrightarrow> length (circ_put buf w d) = length buf"
  by (auto simp: circ_put_def Let_def)

text \<open>A step of less than one turn around the ring.\<close>

lemma mod_less_some: "r < n \<Longrightarrow> a mod n < n" for a n r :: nat
  by (rule mod_less_divisor) simp

lemma mod_one_turn: "a < 2 * n \<Longrightarrow> a mod n = (if a < n then a else a - n)" for a n :: nat
  by (simp add: mod_if)

lemma nth_circ_content:
  "circ_ok buf r w \<Longrightarrow> i < circ_len (length buf) r w \<Longrightarrow>
   circ_content buf r w ! i = buf ! (if r + i < length buf then r + i else r + i - length buf)"
  by (auto simp: circ_ok_def circ_content_def circ_len_def nth_append add.commute split: if_splits)

lemma nth_circ_put:
  assumes "w < length buf" "length d \<le> length buf" "i < length buf"
  shows "circ_put buf w d ! i =
     (if w \<le> i \<and> i < w + length d then d ! (i - w)
      else if i + length buf < w + length d then d ! (i + length buf - w)
      else buf ! i)"
proof (cases "w + length d \<le> length buf")
  case True
  then show ?thesis using assms by (auto simp: circ_put_def nth_append)
next
  case False
  then show ?thesis using assms
    by (auto simp: circ_put_def Let_def nth_append min_def intro!: arg_cong [where f = "nth d"])
qed

lemma nth_circ_put_other:
  "w < length buf \<Longrightarrow> length d \<le> length buf \<Longrightarrow> i < length buf \<Longrightarrow>
   \<not> (w \<le> i \<and> i < w + length d) \<Longrightarrow> \<not> i + length buf < w + length d \<Longrightarrow>
   circ_put buf w d ! i = buf ! i"
  by (subst nth_circ_put) (simp_all only: if_False)

subsection \<open>Putting and taking\<close>

lemma circ_ok_put:
  "circ_ok buf r w \<Longrightarrow> length d \<le> circ_free (length buf) r w \<Longrightarrow>
   circ_ok (circ_put buf w d) r ((w + length d) mod length buf)"
  by (auto simp: circ_ok_def circ_free_def intro: mod_less_some)

lemma circ_len_put:
  assumes "circ_ok buf r w" "k \<le> circ_free (length buf) r w"
  shows "circ_len (length buf) r ((w + k) mod length buf) = circ_len (length buf) r w + k"
proof -
  have "w + k < 2 * length buf" using assms by (auto simp: circ_ok_def circ_free_def)
  then show ?thesis using assms
    by (auto simp: mod_one_turn circ_ok_def circ_free_def circ_len_def split: if_splits)
qed

lemma circ_content_put:
  assumes ok: "circ_ok buf r w" and fits: "length d \<le> circ_free (length buf) r w"
  shows "circ_content (circ_put buf w d) r ((w + length d) mod length buf)
       = circ_content buf r w @ d" (is "?l = ?r")
proof (rule nth_equalityI)
  have d: "length d \<le> length buf" using fits by (simp add: circ_free_def)
  have w: "w < length buf" using ok by (simp add: circ_ok_def)
  note ok' = circ_ok_put [OF ok fits]
  show len: "length ?l = length ?r"
    using ok ok' fits w d by (simp add: circ_len_put)
  fix i assume "i < length ?l"
  then have i: "i < circ_len (length buf) r w + length d" using len ok by simp
  then have i': "i < circ_len (length (circ_put buf w d)) r ((w + length d) mod length buf)"
    using ok fits w d by (simp add: circ_len_put)
  let ?j = "if r + i < length buf then r + i else r + i - length buf"
  have "r + i < 2 * length buf"
    using i ok fits circ_len_less [OF ok] unfolding circ_ok_def circ_free_def by linarith
  then have j: "?j < length buf" by auto
  have "?l ! i = circ_put buf w d ! ?j"
    using nth_circ_content [OF ok' i'] w d by simp
  also have "\<dots> = ?r ! i"
  proof (cases "i < circ_len (length buf) r w")
    case True
    then have "\<not> (w \<le> ?j \<and> ?j < w + length d)" "\<not> ?j + length buf < w + length d"
      using ok fits unfolding circ_ok_def circ_free_def circ_len_def by (auto split: if_splits)
    then have "circ_put buf w d ! ?j = buf ! ?j" by (rule nth_circ_put_other [OF w d j])
    with True ok show ?thesis by (simp add: nth_append nth_circ_content)
  next
    case False
    then obtain m where m: "i = circ_len (length buf) r w + m" "m < length d"
      using i by (metis add_less_cancel_left le_add_diff_inverse not_less)
    have jm: "?j = (if w + m < length buf then w + m else w + m - length buf)"
      using m ok fits unfolding circ_ok_def circ_free_def circ_len_def by (auto split: if_splits)
    have "circ_put buf w d ! ?j = d ! m"
      using m(2) w d unfolding jm by (auto simp: nth_circ_put)
    with m ok show ?thesis by (simp add: nth_append)
  qed
  finally show "?l ! i = ?r ! i" .
qed

lemma circ_content_take:
  assumes "circ_ok buf r w" "k \<le> circ_len (length buf) r w"
  shows "circ_content buf ((r + k) mod length buf) w = drop k (circ_content buf r w)"
proof -
  have "r + k < 2 * length buf" using assms by (auto simp: circ_ok_def circ_len_def split: if_splits)
  then show ?thesis using assms
    by (auto simp: mod_one_turn circ_ok_def circ_content_def circ_len_def drop_take add.commute
        split: if_splits)
qed

lemma circ_ok_take:
  "circ_ok buf r w \<Longrightarrow> circ_ok buf ((r + k) mod length buf) w"
  by (auto simp: circ_ok_def intro: mod_less_some)

text \<open>Content depends on the owned positions only.\<close>

lemma circ_content_cong:
  assumes "circ_ok buf r w" "length buf' = length buf"
    and "\<And>i. i < length buf \<Longrightarrow> circ_owned r w i \<Longrightarrow> buf' ! i = buf ! i"
  shows "circ_content buf' r w = circ_content buf r w"
proof (rule nth_equalityI)
  have ok': "circ_ok buf' r w" using assms(1,2) by (simp add: circ_ok_def)
  show "length (circ_content buf' r w) = length (circ_content buf r w)"
    using assms(1,2) ok' by simp
  fix i assume "i < length (circ_content buf' r w)"
  then have "i < circ_len (length buf) r w" using assms(2) ok' by simp
  then show "circ_content buf' r w ! i = circ_content buf r w ! i"
    using assms(1,2) ok'
    by (auto simp: nth_circ_content circ_owned_def circ_len_def circ_ok_def split: if_splits
        intro!: assms(3))
qed

text \<open>Putting bytes leaves the owned positions alone.\<close>

lemma circ_put_owned:
  assumes "circ_ok buf r w" "length d \<le> circ_free (length buf) r w" "i < length buf"
    and "circ_owned r w i"
  shows "circ_put buf w d ! i = buf ! i"
proof (rule nth_circ_put_other)
  show "\<not> (w \<le> i \<and> i < w + length d)" "\<not> i + length buf < w + length d"
    using assms by (auto simp: circ_ok_def circ_free_def circ_len_def circ_owned_def split: if_splits)
qed (use assms in \<open>auto simp: circ_ok_def circ_free_def\<close>)

text \<open>Taking bytes gives positions up and claims none.\<close>

lemma circ_owned_take:
  assumes "circ_ok buf r w" "k \<le> circ_len (length buf) r w" "i < length buf"
    and "circ_owned ((r + k) mod length buf) w i"
  shows "circ_owned r w i"
proof -
  have "r + k < 2 * length buf" using assms(1,2) by (auto simp: circ_ok_def circ_len_def split: if_splits)
  then show ?thesis using assms
    by (auto simp: mod_one_turn circ_ok_def circ_len_def circ_owned_def split: if_splits)
qed

text \<open>Writing one byte at a time: the positions that a put touches are not owned.\<close>

definition circ_pos :: "nat \<Rightarrow> nat \<Rightarrow> nat \<Rightarrow> nat" where
  "circ_pos n w j = (w + j) mod n"

lemma circ_pos_free:
  assumes "circ_ok buf r w" "j < circ_free (length buf) r w"
  shows "\<not> circ_owned r w (circ_pos (length buf) w j)"
proof -
  have "w + j < 2 * length buf" using assms by (auto simp: circ_ok_def circ_free_def)
  then show ?thesis using assms
    by (auto simp: circ_pos_def mod_one_turn circ_ok_def circ_free_def circ_len_def circ_owned_def
        split: if_splits)
qed

text \<open>
  A reader that knows an older write index sees a prefix; a buffer whose owned positions are
  unchanged and that holds \<open>d\<close> from the write position on has \<open>d\<close> appended once the index moves.
\<close>

lemma circ_content_prefix:
  assumes "circ_ok buf r w" "v < length buf" "circ_len (length buf) r v \<le> circ_len (length buf) r w"
  shows "circ_content buf r v = take (circ_len (length buf) r v) (circ_content buf r w)"
proof (rule nth_equalityI)
  have ok: "circ_ok buf r v" using assms(1,2) by (simp add: circ_ok_def)
  then show "length (circ_content buf r v) = length (take (circ_len (length buf) r v) (circ_content buf r w))"
    using assms by simp
  fix i assume "i < length (circ_content buf r v)"
  then show "circ_content buf r v ! i = take (circ_len (length buf) r v) (circ_content buf r w) ! i"
    using assms ok nth_circ_content [OF ok, of i] nth_circ_content [OF assms(1), of i] by simp
qed

lemma circ_content_extend:
  assumes ok: "circ_ok buf r w" and len: "length buf' = length buf"
    and fits: "length d \<le> circ_free (length buf) r w"
    and same: "\<And>i. i < length buf \<Longrightarrow> circ_owned r w i \<Longrightarrow> buf' ! i = buf ! i"
    and new: "\<And>j. j < length d \<Longrightarrow> buf' ! circ_pos (length buf) w j = d ! j"
  shows "circ_content buf' r ((w + length d) mod length buf) = circ_content buf r w @ d" (is "?l = ?r")
proof -
  let ?n = "length buf"
  have ok': "circ_ok buf' r w" using ok len by (simp add: circ_ok_def)
  have ok2: "circ_ok buf' r ((w + length d) mod ?n)"
    using ok len by (auto simp: circ_ok_def intro: mod_less_some)
  have l2: "circ_len ?n r ((w + length d) mod ?n) = circ_len ?n r w + length d"
    by (rule circ_len_put [OF ok fits])
  have pos: "(if r + i < ?n then r + i else r + i - ?n) = circ_pos ?n w (i - circ_len ?n r w)"
    if "circ_len ?n r w \<le> i" "i < circ_len ?n r w + length d" for i
  proof -
    have "w + (i - circ_len ?n r w) < 2 * ?n" using that ok fits by (auto simp: circ_ok_def circ_free_def)
    then show ?thesis using that ok fits
      by (auto simp: circ_pos_def mod_one_turn circ_ok_def circ_len_def circ_free_def split: if_splits)
  qed
  have eq: "circ_content buf' r w = circ_content buf r w"
    using circ_content_cong [OF ok len] same by simp
  show ?thesis
  proof (rule nth_equalityI)
    show "length ?l = length ?r" using ok ok2 l2 len by simp
    fix i assume "i < length ?l"
    then have i: "i < circ_len ?n r w + length d" using ok2 l2 len by simp
    have l: "?l ! i = buf' ! (if r + i < ?n then r + i else r + i - ?n)"
      using nth_circ_content [OF ok2, of i] i l2 len by simp
    show "?l ! i = ?r ! i"
    proof (cases "i < circ_len ?n r w")
      case True
      then show ?thesis
        using l nth_circ_content [OF ok', of i] ok len by (simp add: nth_append eq)
    next
      case False
      then have "buf' ! circ_pos ?n w (i - circ_len ?n r w) = d ! (i - circ_len ?n r w)"
        using i new by simp
      then show ?thesis using l pos [of i] i False ok by (simp add: nth_append)
    qed
  qed
qed

end
