(* ===== verification/QueueSpec.thy ===== *)
theory QueueSpec
  imports Prelude
begin

text \<open>
  The interfaces of the development. \<open>byte_sink\<close> is what the logger relies on: something
  that bytes are pushed into, that keeps a prefix of what it is given when it is full and
  never faults. \<open>byte_queue\<close> adds the consumer's side: the queued bytes can be taken from the
  front. The clients' lemmas (a frame pushed in chunks is the frame pushed at once; a drain
  loop empties the queue) are proved here from these laws alone; the components interpret
  the locales on their own operations.
\<close>

locale byte_sink =
  fixes content :: "'s \<Rightarrow> u8 list"
    and room :: "'s \<Rightarrow> nat"
    and valid :: "'s \<Rightarrow> bool"
    and push :: "u8 list \<Rightarrow> 's \<Rightarrow> 's res"
  assumes push_total: "valid s \<Longrightarrow> \<exists>t. push d s = Inr t"
    and push_valid: "valid s \<Longrightarrow> push d s = Inr t \<Longrightarrow> valid t"
    and push_content: "valid s \<Longrightarrow> push d s = Inr t \<Longrightarrow> content t = content s @ take (room s) d"
    and push_room: "valid s \<Longrightarrow> push d s = Inr t \<Longrightarrow> room t = room s - length d"

fun push_all :: "(u8 list \<Rightarrow> 's \<Rightarrow> 's res) \<Rightarrow> u8 list list \<Rightarrow> 's \<Rightarrow> 's res" where
  "push_all push [] s = Inr s"
| "push_all push (d # ds) s = res_bind (push d s) (push_all push ds)"

lemma push_all_append [simp]:
  "push_all push (cs @ ds) s = res_bind (push_all push cs s) (push_all push ds)"
proof (induction cs arbitrary: s)
  case (Cons c cs)
  then show ?case by (cases "push c s") simp_all
qed simp

context byte_sink
begin

lemma push_all_total: "valid s \<Longrightarrow> \<exists>t. push_all push ds s = Inr t \<and> valid t"
proof (induction ds arbitrary: s)
  case (Cons d ds)
  obtain u where u: "push d s = Inr u" using push_total [OF Cons.prems] by blast
  then show ?case using Cons.IH [OF push_valid [OF Cons.prems u]] by simp
qed simp

text \<open>Chunking is invisible: the sink ends up as if the whole frame had been pushed at once.\<close>

lemma push_all_room: "valid s \<Longrightarrow> push_all push ds s = Inr t \<Longrightarrow> room t = room s - length (concat ds)"
proof (induction ds arbitrary: s)
  case (Cons d ds)
  then obtain u where u: "push d s = Inr u" "push_all push ds u = Inr t" by (auto simp: res_bind_eq_Inr)
  then show ?case
    using Cons.IH [OF push_valid [OF Cons.prems(1) u(1)] u(2)] push_room [OF Cons.prems(1) u(1)]
    by simp
qed simp

lemma push_all_content:
  "valid s \<Longrightarrow> push_all push ds s = Inr t \<Longrightarrow> content t = content s @ take (room s) (concat ds)"
proof (induction ds arbitrary: s)
  case (Cons d ds)
  then obtain u where u: "push d s = Inr u" "push_all push ds u = Inr t" by (auto simp: res_bind_eq_Inr)
  then show ?case
    using Cons.IH [OF push_valid [OF Cons.prems(1) u(1)] u(2)] push_room [OF Cons.prems(1) u(1)]
      push_content [OF Cons.prems(1) u(1)]
    by simp
qed simp

lemma push_all_lossless:
  "valid s \<Longrightarrow> length (concat ds) \<le> room s \<Longrightarrow> push_all push ds s = Inr t \<Longrightarrow>
   content t = content s @ concat ds"
  by (simp add: push_all_content)

end

locale byte_queue = byte_sink +
  fixes pop :: "nat \<Rightarrow> 's \<Rightarrow> 's res"
    and peek :: "'s \<Rightarrow> (u8 list \<times> u8 list) res"
    and no_data :: "'s \<Rightarrow> bool"
  assumes pop_total: "valid s \<Longrightarrow> \<exists>t. pop k s = Inr t"
    and pop_valid: "valid s \<Longrightarrow> pop k s = Inr t \<Longrightarrow> valid t"
    and pop_content: "valid s \<Longrightarrow> pop k s = Inr t \<Longrightarrow> content t = drop k (content s)"
    and pop_room: "valid s \<Longrightarrow> pop k s = Inr t \<Longrightarrow> room t = room s + min k (length (content s))"
    and peek_content: "valid s \<Longrightarrow> \<exists>a b. peek s = Inr (a, b) \<and> a @ b = content s"
    and no_data_iff: "valid s \<Longrightarrow> no_data s \<longleftrightarrow> content s = []"

text \<open>One queue operation of a client, and the bytes it hands out (taken) or puts in.\<close>

datatype queue_op = Push "u8 list" | Pop nat

fun queue_step :: "(u8 list \<Rightarrow> 's \<Rightarrow> 's res) \<Rightarrow> (nat \<Rightarrow> 's \<Rightarrow> 's res) \<Rightarrow> queue_op \<Rightarrow> 's \<Rightarrow> 's res" where
  "queue_step push pop (Push d) s = push d s"
| "queue_step push pop (Pop k) s = pop k s"

fun queue_run :: "(u8 list \<Rightarrow> 's \<Rightarrow> 's res) \<Rightarrow> (nat \<Rightarrow> 's \<Rightarrow> 's res) \<Rightarrow> queue_op list \<Rightarrow> 's \<Rightarrow> 's res" where
  "queue_run push pop [] s = Inr s"
| "queue_run push pop (x # xs) s = res_bind (queue_step push pop x s) (queue_run push pop xs)"

text \<open>
  The specification the operations implement: a bounded list of capacity \<open>cap\<close>, that a push
  appends the fitting prefix to and a pop drops the front of. \<open>spec_run\<close> returns the final
  list and everything that was accepted and taken on the way.
\<close>

fun spec_run :: "nat \<Rightarrow> queue_op list \<Rightarrow> u8 list \<Rightarrow> u8 list \<times> u8 list \<times> u8 list" where
  "spec_run cap [] q = (q, [], [])"
| "spec_run cap (Push d # xs) q =
     (let a = take (cap - length q) d; (q', acc, tak) = spec_run cap xs (q @ a) in (q', a @ acc, tak))"
| "spec_run cap (Pop k # xs) q =
     (let (q', acc, tak) = spec_run cap xs (drop k q) in (q', acc, take k q @ tak))"

lemma spec_run_fifo: "spec_run cap xs q = (q', acc, tak) \<Longrightarrow> tak @ q' = q @ acc"
proof (induction cap xs q arbitrary: q' acc tak rule: spec_run.induct)
  case (2 cap d xs q)
  then show ?case by (auto simp: Let_def split: prod.splits)
next
  case (3 cap k xs q)
  from "3.prems" obtain tk where r: "spec_run cap xs (drop k q) = (q', acc, tk)"
    and tk: "tak = take k q @ tk" by (auto split: prod.splits)
  have "tk @ q' = drop k q @ acc" using "3.IH" r by simp
  then have "take k q @ tk @ q' = (take k q @ drop k q) @ acc" by simp
  then show ?case using tk by simp
qed simp

lemma spec_run_bounded: "length q \<le> cap \<Longrightarrow> length (fst (spec_run cap xs q)) \<le> cap"
  by (induction cap xs q rule: spec_run.induct) (auto simp: Let_def split: prod.splits)

context byte_queue
begin

lemma pop_room_content:
  "valid s \<Longrightarrow> pop k s = Inr t \<Longrightarrow> room t + length (content t) = room s + length (content s)"
  using pop_room [of s k t] pop_content [of s k t] by simp

lemma push_room_content:
  "valid s \<Longrightarrow> push d s = Inr t \<Longrightarrow> room t + length (content t) = room s + length (content s)"
  using push_room [of s d t] push_content [of s d t] by simp

text \<open>Simulation: a run of the implementation is a run of the bounded list.\<close>

lemma queue_run_refines:
  "valid s \<Longrightarrow> cap = room s + length (content s) \<Longrightarrow>
   \<exists>t. queue_run push pop xs s = Inr t \<and> valid t \<and> room t + length (content t) = cap \<and>
       content t = fst (spec_run cap xs (content s))"
proof (induction xs arbitrary: s)
  case (Cons x xs)
  show ?case
  proof (cases x)
    case (Push d)
    obtain u where u: "push d s = Inr u" using push_total Cons.prems(1) by blast
    have "room s = cap - length (content s)" using Cons.prems(2) by simp
    with Push u show ?thesis
      using Cons.IH [of u] push_valid [OF Cons.prems(1) u] push_room_content [OF Cons.prems(1) u]
        push_content [OF Cons.prems(1) u] Cons.prems(2)
      by (auto simp: Let_def split: prod.splits)
  next
    case (Pop k)
    obtain u where u: "pop k s = Inr u" using pop_total Cons.prems(1) by blast
    with Pop show ?thesis
      using Cons.IH [of u] pop_valid [OF Cons.prems(1) u] pop_room_content [OF Cons.prems(1) u]
        pop_content [OF Cons.prems(1) u] Cons.prems(2)
      by (auto split: prod.splits)
  qed
qed simp

lemma pop_all_empties:
  "valid s \<Longrightarrow> length (content s) \<le> k \<Longrightarrow> pop k s = Inr t \<Longrightarrow> no_data t"
  using pop_content [of s k t] pop_valid [of s k t] no_data_iff [of t] by simp

end

end
