(* ===== verification/RingBuffer.thy ===== *)
theory RingBuffer
  imports Circular QueueSpec
begin

text \<open>
  The persistent ring of \<open>src/ring_buffer.rs\<close>: its header struct, the operations of
  \<open>RingBuffer\<close>, \<open>Producer\<close>, \<open>Consumer\<close> and \<open>GrantR\<close>, their behaviour on every branch, and
  the interpretation of \<open>byte_queue\<close> on them.

  \<open>Producer\<close> and \<open>Consumer\<close> are two handles to the same header and buffer (\<open>split\<close>
  gives both the same references). The shared memory they alias is the record \<open>ring\<close>, which
  every operation takes and returns; a handle has no state of its own. Operations run here
  without interference; \<open>Crash\<close> and \<open>Spsc\<close> take them apart into single stores.
\<close>

subsection \<open>Cargo features, constants and the header struct\<close>

record features =
  feat_rtt :: bool
  feat_async_await :: bool
  feat_ecc :: bool
  feat_qemu_test :: bool

definition default_features :: features where
  "default_features =
     \<lparr>feat_rtt = True, feat_async_await = True, feat_ecc = True, feat_qemu_test = False\<rparr>"

definition MAGIC :: "features \<Rightarrow> u128" where
  "MAGIC ft = (if feat_ecc ft then 0x1dff206027b9f2b4a194101369cd3c6c
                              else 0xb528c25f90c616afcbc1502c09c1fd6e)"

record RingBuffer =
  rb_header :: u128
  rb_read :: u32
  rb_write :: u32
  rb_ecc_flush :: u64     \<comment> \<open>present with the \<open>ecc\<close> feature only\<close>

text \<open>The memory shared by the two handles: the header struct and the bytes behind it.\<close>

record ring = RingBuffer +
  buf :: "u8 list"

record GrantR =
  slice1 :: "u8 list"
  slice2 :: "u8 list"
  original_read :: usize

subsection \<open>Operations\<close>

definition RingBuffer_new :: "features \<Rightarrow> u32 \<Rightarrow> u32 \<Rightarrow> u8 list \<Rightarrow> ring" where
  "RingBuffer_new ft read write bytes =
     \<lparr>rb_header = MAGIC ft, rb_read = read, rb_write = write, rb_ecc_flush = 0, buf = bytes\<rparr>"

text \<open>The volatile write of one zero byte to the first byte of the flush field.\<close>

definition flush_ecc :: "features \<Rightarrow> 'a RingBuffer_scheme \<Rightarrow> 'a RingBuffer_scheme" where
  "flush_ecc ft v =
     (if feat_ecc ft then v\<lparr>rb_ecc_flush := push_bit 8 (drop_bit 8 (rb_ecc_flush v))\<rparr> else v)"

text \<open>
  The decision part of \<open>recover_or_reinitialize\<close>, on the region viewed as a ring; the
  surrounding address arithmetic is in theory \<open>Region\<close>.
\<close>

definition recover :: "features \<Rightarrow> ring \<Rightarrow> ring" where
  "recover ft v =
     (if rb_header v \<noteq> MAGIC ft then
        let v1 = v\<lparr>rb_read := 0\<rparr>;
            v2 = v1\<lparr>rb_write := 0\<rparr>;
            v3 = flush_ecc ft v2
        in v3\<lparr>rb_header := MAGIC ft\<rparr>
      else
        let buf_len = length (buf v);
            write = as_usize (rb_write v);
            read = as_usize (rb_read v);
            read_ok = read < buf_len;
            write_ok = write < buf_len;
            v1 = (case (read_ok, write_ok) of
                    (True, True) \<Rightarrow> v
                  | (True, False) \<Rightarrow> v\<lparr>rb_write := as_u32 read\<rparr>
                  | (False, True) \<Rightarrow> v\<lparr>rb_read := as_u32 write\<rparr>
                  | (False, False) \<Rightarrow> v\<lparr>rb_read := 0\<rparr>\<lparr>rb_write := 0\<rparr>)
        in flush_ecc ft v1)"

definition Producer_available :: "usize \<Rightarrow> usize \<Rightarrow> usize \<Rightarrow> usize res" where
  "Producer_available buf_len read write =
     (if read > write then
        res_bind (usub read write) (\<lambda>a. usub a 1)
      else
        res_bind (usub buf_len write) (\<lambda>a. res_bind (usub a 1) (\<lambda>b. uadd b read)))"

text \<open>
  The copying part of \<open>Producer::write\<close>: the first \<open>len\<close> bytes of \<open>data\<close> go to \<open>b\<close> at
  \<open>write\<close>, in two copies when they cross the end.
\<close>

definition Producer_copy :: "u8 list \<Rightarrow> u8 list \<Rightarrow> usize \<Rightarrow> usize \<Rightarrow> u8 list res" where
  "Producer_copy data b write len =
     res_bind (uadd write len) (\<lambda>end.
       if end > length b then
         res_bind (usub (length b) write) (\<lambda>pivot.
         res_bind (copy_nonoverlapping data 0 b write pivot) (\<lambda>b1.
         res_bind (usub len pivot) (\<lambda>rest.
           copy_nonoverlapping data pivot b1 0 rest)))
       else copy_nonoverlapping data 0 b write len)"

definition Producer_write :: "features \<Rightarrow> u8 list \<Rightarrow> ring \<Rightarrow> ring res" where
  "Producer_write ft data v =
     (let read = as_usize (rb_read v);
          write = as_usize (rb_write v);
          buf_len = length (buf v)
      in res_bind (Producer_available buf_len read write) (\<lambda>av.
         let len = min (length data) av in
         if len = 0 then Inr v
         else
           res_bind (Producer_copy data (buf v) write len) (\<lambda>b.
           let v1 = flush_ecc ft (v\<lparr>buf := b\<rparr>) in
           res_bind (urem (uwrapping_add write len) buf_len) (\<lambda>w.
             Inr (flush_ecc ft (v1\<lparr>rb_write := as_u32 w\<rparr>))))))"

definition Consumer_is_empty :: "ring \<Rightarrow> bool" where
  "Consumer_is_empty v = (as_usize (rb_write v) = as_usize (rb_read v))"

definition Consumer_read :: "ring \<Rightarrow> GrantR res" where
  "Consumer_read v =
     (let write = as_usize (rb_write v);
          read = as_usize (rb_read v);
          buf_len = length (buf v)
      in res_bind
           (if write < read then res_bind (usub buf_len read) (\<lambda>l. Inr (l, write))
            else res_bind (usub write read) (\<lambda>l. Inr (l, 0))) (\<lambda>(len1, len2).
         res_bind (slice_from_raw_parts (buf v) read len1) (\<lambda>s1.
         res_bind (slice_from_raw_parts (buf v) 0 len2) (\<lambda>s2.
           Inr \<lparr>slice1 = s1, slice2 = s2, original_read = read\<rparr>))))"

definition GrantR_release :: "features \<Rightarrow> GrantR \<Rightarrow> usize \<Rightarrow> ring \<Rightarrow> ring res" where
  "GrantR_release ft g used_arg v =
     res_bind (uadd (length (slice1 g)) (length (slice2 g))) (\<lambda>total.
     let used = min used_arg total;
         read = original_read g
     in res_bind (uadd read used) (\<lambda>s.
        res_bind (if s < length (buf v) then uadd read used
                  else usub used (length (slice1 g))) (\<lambda>new_read.
          Inr (flush_ecc ft (v\<lparr>rb_read := as_u32 new_read\<rparr>)))))"

definition GrantR_release_all :: "features \<Rightarrow> GrantR \<Rightarrow> ring \<Rightarrow> ring res" where
  "GrantR_release_all ft g v = GrantR_release ft g usize_max v"

definition GrantR_bufs :: "GrantR \<Rightarrow> u8 list \<times> u8 list" where
  "GrantR_bufs g = (slice1 g, slice2 g)"

subsection \<open>The invariant and the abstraction to a list of bytes\<close>

text \<open>\<open>i32::MAX / 4\<close>, the bound on the buffer size that \<open>init\<close> enforces.\<close>

definition max_buf_len :: nat where
  "max_buf_len = 2147483647 div 4"

definition ring_ok :: "ring \<Rightarrow> bool" where
  "ring_ok v \<longleftrightarrow> as_usize (rb_read v) < length (buf v) \<and> as_usize (rb_write v) < length (buf v)
     \<and> length (buf v) < max_buf_len"

definition content :: "ring \<Rightarrow> u8 list" where
  "content v = circ_content (buf v) (as_usize (rb_read v)) (as_usize (rb_write v))"

definition space :: "ring \<Rightarrow> nat" where
  "space v = length (buf v) - 1 - length (content v)"

lemma ring_ok_circ: "ring_ok v \<Longrightarrow> circ_ok (buf v) (as_usize (rb_read v)) (as_usize (rb_write v))"
  by (simp add: ring_ok_def circ_ok_def)

lemma max_buf_len_limit: "max_buf_len < usize_limit"
  by (simp add: max_buf_len_def usize_limit_def)

lemma ring_ok_limit: "ring_ok v \<Longrightarrow> 4 * length (buf v) < usize_limit"
  by (simp add: ring_ok_def max_buf_len_def usize_limit_def)

lemma length_content_less: "ring_ok v \<Longrightarrow> length (content v) < length (buf v)"
  using circ_len_less [OF ring_ok_circ] length_circ_content [OF ring_ok_circ]
  by (simp add: content_def)

lemma space_eq:
  "ring_ok v \<Longrightarrow> space v = circ_free (length (buf v)) (as_usize (rb_read v)) (as_usize (rb_write v))"
  by (simp add: space_def circ_free_def content_def length_circ_content ring_ok_circ)

lemma space_content: "ring_ok v \<Longrightarrow> space v + length (content v) = length (buf v) - 1"
  using length_content_less [of v] by (simp add: space_def)

lemma space_less: "ring_ok v \<Longrightarrow> space v < length (buf v)"
  using space_content [of v] length_content_less [of v] by linarith

text \<open>The flush touches nothing but its own field.\<close>

lemma flush_ecc_fields [simp]:
  "rb_header (flush_ecc ft v) = rb_header v"
  "rb_read (flush_ecc ft v) = rb_read v"
  "rb_write (flush_ecc ft v) = rb_write v"
  by (simp_all add: flush_ecc_def)

lemma buf_flush_ecc [simp]: "buf (flush_ecc ft v) = buf v"
  by (simp add: flush_ecc_def)

lemma content_flush_ecc [simp]: "content (flush_ecc ft v) = content v"
  by (simp add: content_def)

lemma ring_ok_flush_ecc [simp]: "ring_ok (flush_ecc ft v) = ring_ok v"
  by (simp add: ring_ok_def)

lemma space_flush_ecc [simp]: "space (flush_ecc ft v) = space v"
  by (simp add: space_def)

subsection \<open>Closed forms of the operations\<close>

lemma Producer_available_eq:
  "r < n \<Longrightarrow> w < n \<Longrightarrow> n < usize_limit \<Longrightarrow> Producer_available n r w = Inr (circ_free n r w)"
  by (auto simp: Producer_available_def circ_free_def circ_len_def checked)

text \<open>What a write leaves behind, with the bytes \<open>d\<close> that fit.\<close>

definition written :: "features \<Rightarrow> u8 list \<Rightarrow> ring \<Rightarrow> ring" where
  "written ft d v =
     (let w = as_usize (rb_write v) in
      flush_ecc ft (flush_ecc ft (v\<lparr>buf := circ_put (buf v) w d\<rparr>)
        \<lparr>rb_write := as_u32 ((w + length d) mod length (buf v))\<rparr>))"

text \<open>The copies of the code, taken together, put the fitting prefix circularly.\<close>

lemma Producer_copy_eq:
  assumes "w < length b" "k < length b" "k \<le> length data" "w + k < usize_limit"
  shows "Producer_copy data b w k = Inr (circ_put b w (take k data))"
proof (cases "w + k > length b")
  case True
  then have "take (length b - w) (drop 0 data) = take (length b - w) (take k data)"
    by (auto simp: min_def)
  then show ?thesis using True assms
    by (simp add: Producer_copy_def checked circ_put_def Let_def take_drop min_def)
next
  case False
  then show ?thesis using assms
    by (simp add: Producer_copy_def checked circ_put_def Let_def min_def)
qed

lemma Producer_write_eq:
  assumes ok: "ring_ok v"
  shows "Producer_write ft data v =
           Inr (if take (space v) data = [] then v else written ft (take (space v) data) v)"
proof -
  let ?n = "length (buf v)" and ?w = "as_usize (rb_write v)" and ?r = "as_usize (rb_read v)"
  define k where "k = min (length data) (space v)"
  have n: "?r < ?n" "?w < ?n" "?n < usize_limit" "?w + k < usize_limit"
    using ok ring_ok_limit [OF ok] space_less [OF ok] by (auto simp: ring_ok_def k_def)
  have k: "k < ?n" "k \<le> length data" using space_less [OF ok] by (auto simp: k_def)
  have av: "Producer_available ?n ?r ?w = Inr (space v)"
    using Producer_available_eq n space_eq [OF ok] by simp
  have d: "take k data = take (space v) data" "length (take (space v) data) = k"
    by (simp_all add: min_def k_def)
  show ?thesis
  proof (cases "k = 0")
    case True
    then have "take (space v) data = []" using d(2) by (metis length_0_conv)
    with True show ?thesis by (simp add: Producer_write_def av flip: k_def)
  next
    case False
    then have "take (space v) data \<noteq> []" using d(2) by auto
    moreover have "0 < ?n" using n(1) by linarith
    ultimately show ?thesis
      using False Producer_copy_eq [OF n(2) k n(4)] n(4) d
      by (simp add: Producer_write_def av written_def Let_def checked flip: k_def)
  qed
qed

lemma Consumer_read_eq:
  assumes ok: "ring_ok v"
  shows "Consumer_read v =
     (let r = as_usize (rb_read v); w = as_usize (rb_write v) in
      Inr \<lparr>slice1 = (if w < r then drop r (buf v) else take (w - r) (drop r (buf v))),
           slice2 = (if w < r then take w (buf v) else []), original_read = r\<rparr>)"
  using ok by (auto simp: Consumer_read_def ring_ok_def Let_def checked)

text \<open>What a release leaves behind, with \<open>k\<close> the number of bytes really consumed.\<close>

definition released :: "features \<Rightarrow> nat \<Rightarrow> ring \<Rightarrow> ring" where
  "released ft k v =
     flush_ecc ft (v\<lparr>rb_read := as_u32 ((as_usize (rb_read v) + k) mod length (buf v))\<rparr>)"

text \<open>
  A release uses the read position and the slice lengths that were captured by \<open>read\<close>. It is
  stated for the ring at release time: \<open>v\<close> may have been written to since the grant \<open>g\<close> was
  made, as long as the grant is for a prefix of the content.
\<close>

definition grant_for :: "GrantR \<Rightarrow> ring \<Rightarrow> bool" where
  "grant_for g v \<longleftrightarrow>
     original_read g = as_usize (rb_read v) \<and>
     slice1 g @ slice2 g = take (length (slice1 g) + length (slice2 g)) (content v) \<and>
     original_read g + length (slice1 g) \<le> length (buf v) \<and>
     (slice2 g = [] \<or> original_read g + length (slice1 g) = length (buf v))"

lemma grant_for_lengths:
  assumes "grant_for g v"
  shows "length (slice1 g) + length (slice2 g) \<le> length (content v)"
proof -
  have "length (slice1 g @ slice2 g) \<le> length (content v)"
    using assms unfolding grant_for_def by (metis length_take min.cobounded1)
  then show ?thesis by simp
qed

lemma GrantR_release_eq:
  assumes ok: "ring_ok v" and g: "grant_for g v"
  shows "GrantR_release ft g used v =
           Inr (released ft (min used (length (slice1 g) + length (slice2 g))) v)"
proof -
  let ?n = "length (buf v)" and ?r = "as_usize (rb_read v)"
  let ?t = "length (slice1 g) + length (slice2 g)"
  let ?u = "min used ?t"
  have t: "?t < ?n" using grant_for_lengths [OF g] length_content_less [OF ok] by linarith
  have r: "?r < ?n" "original_read g = ?r" using ok g by (auto simp: ring_ok_def grant_for_def)
  have lim: "?t < usize_limit" "?r + ?u < usize_limit"
    using ring_ok_limit [OF ok] t r by auto
  have u: "?u \<le> ?t" by simp
  show ?thesis
  proof (cases "?r + ?u < ?n")
    case True
    then show ?thesis using r lim
      by (simp add: GrantR_release_def released_def Let_def checked mod_less)
  next
    case False
    have split: "?r + length (slice1 g) = ?n \<or> (slice2 g = [] \<and> ?r + length (slice1 g) < ?n)"
      using g r unfolding grant_for_def by auto
    then have s1: "length (slice1 g) \<le> ?u" "(?r + ?u) mod ?n = ?u - length (slice1 g)"
      using False u t r by (auto simp: mod_one_turn)
    then show ?thesis using False r lim
      by (simp add: GrantR_release_def released_def Let_def checked)
  qed
qed

subsection \<open>The operations on the content\<close>

lemma written_fields [simp]:
  "rb_header (written ft d v) = rb_header v"
  "rb_read (written ft d v) = rb_read v"
  by (simp_all add: written_def Let_def)

lemma released_fields [simp]:
  "rb_header (released ft k v) = rb_header v"
  "rb_write (released ft k v) = rb_write v"
  "buf (released ft k v) = buf v"
  by (simp_all add: released_def)

lemma as_usize_mod:
  "ring_ok v \<Longrightarrow> as_usize (as_u32 (a mod length (buf v))) = a mod length (buf v)"
proof -
  assume ok: "ring_ok v"
  then have "0 < length (buf v)" by (auto simp: ring_ok_def)
  then have "a mod length (buf v) < length (buf v)" by (rule mod_less_divisor)
  then have "a mod length (buf v) < usize_limit" using ring_ok_limit [OF ok] by linarith
  then show ?thesis by simp
qed

lemma written_props:
  assumes ok: "ring_ok v" and d: "length d \<le> space v"
  shows "content (written ft d v) = content v @ d" "ring_ok (written ft d v)"
    "length (buf (written ft d v)) = length (buf v)"
proof -
  have len: "as_usize (rb_write v) < length (buf v)" "length d \<le> length (buf v)"
    using ok d space_less [OF ok] by (auto simp: ring_ok_def)
  have fits: "length d \<le> circ_free (length (buf v)) (as_usize (rb_read v)) (as_usize (rb_write v))"
    using d space_eq [OF ok] by simp
  show buf: "length (buf (written ft d v)) = length (buf v)"
    using len by (simp add: written_def Let_def)
  show "content (written ft d v) = content v @ d"
    using circ_content_put [OF ring_ok_circ [OF ok] fits]
    by (simp add: content_def written_def Let_def as_usize_mod [OF ok])
  show "ring_ok (written ft d v)"
    using circ_ok_put [OF ring_ok_circ [OF ok] fits] ok len
    by (simp add: ring_ok_def circ_ok_def written_def Let_def as_usize_mod)
qed

lemma released_props:
  assumes ok: "ring_ok v" and k: "k \<le> length (content v)"
  shows "content (released ft k v) = drop k (content v)" "ring_ok (released ft k v)"
proof -
  have k': "k \<le> circ_len (length (buf v)) (as_usize (rb_read v)) (as_usize (rb_write v))"
    using k ring_ok_circ [OF ok] by (simp add: content_def)
  show "content (released ft k v) = drop k (content v)"
    using circ_content_take [OF ring_ok_circ [OF ok] k']
    by (simp add: content_def released_def as_usize_mod [OF ok])
  show "ring_ok (released ft k v)"
    using circ_ok_take [OF ring_ok_circ [OF ok]] ok
    by (simp add: ring_ok_def circ_ok_def released_def as_usize_mod)
qed

lemma Consumer_is_empty_iff: "ring_ok v \<Longrightarrow> Consumer_is_empty v \<longleftrightarrow> content v = []"
  using circ_content_empty_iff [OF ring_ok_circ, of v]
  by (simp add: Consumer_is_empty_def content_def)

lemma Consumer_read_grant:
  assumes ok: "ring_ok v"
  obtains g where "Consumer_read v = Inr g" "grant_for g v" "slice1 g @ slice2 g = content v"
proof -
  let ?r = "as_usize (rb_read v)" and ?w = "as_usize (rb_write v)"
  let ?g = "\<lparr>slice1 = (if ?w < ?r then drop ?r (buf v) else take (?w - ?r) (drop ?r (buf v))),
           slice2 = (if ?w < ?r then take ?w (buf v) else []), original_read = ?r\<rparr>"
  have g: "Consumer_read v = Inr ?g" using Consumer_read_eq [OF ok] by (simp add: Let_def)
  have c: "slice1 ?g @ slice2 ?g = content v" by (simp add: content_def circ_content_def)
  have "length (slice1 ?g) + length (slice2 ?g) = length (content v)"
    using arg_cong [OF c, of length] by simp
  then have "grant_for ?g v" using c ok by (auto simp: grant_for_def ring_ok_def)
  then show thesis using that g c by blast
qed

text \<open>The consumer's loop body: take a grant, hand it on, release \<open>k\<close> bytes of it.\<close>

definition peek :: "ring \<Rightarrow> (u8 list \<times> u8 list) res" where
  "peek v = res_bind (Consumer_read v) (\<lambda>g. Inr (GrantR_bufs g))"

definition consume :: "features \<Rightarrow> usize \<Rightarrow> ring \<Rightarrow> ring res" where
  "consume ft k v = res_bind (Consumer_read v) (\<lambda>g. GrantR_release ft g k v)"

lemma consume_eq:
  assumes ok: "ring_ok v"
  shows "consume ft k v = Inr (released ft (min k (length (content v))) v)"
proof -
  obtain g where g: "Consumer_read v = Inr g" "grant_for g v" "slice1 g @ slice2 g = content v"
    by (rule Consumer_read_grant [OF ok])
  have "length (slice1 g) + length (slice2 g) = length (content v)"
    using arg_cong [OF g(3), of length] by simp
  then show ?thesis using g GrantR_release_eq [OF ok g(2)] by (simp add: consume_def)
qed

lemma Producer_write_cases:
  assumes ok: "ring_ok v" and w: "Producer_write ft data v = Inr t"
  shows "content t = content v @ take (space v) data" "ring_ok t" "length (buf t) = length (buf v)"
    "rb_header t = rb_header v" "rb_read t = rb_read v"
proof -
  have t: "t = (if take (space v) data = [] then v else written ft (take (space v) data) v)"
    using w Producer_write_eq [OF ok] by simp
  have d: "length (take (space v) data) \<le> space v" by simp
  show "content t = content v @ take (space v) data" "ring_ok t" "length (buf t) = length (buf v)"
    "rb_header t = rb_header v" "rb_read t = rb_read v"
    unfolding t using written_props [OF ok d, of ft] ok by auto
qed

text \<open>The ring is a byte queue: the laws of the interface, discharged by the code's model.\<close>

interpretation ring_queue: byte_queue content space ring_ok "Producer_write ft" "consume ft" peek Consumer_is_empty
  for ft :: features
proof unfold_locales
  fix s t :: ring and d :: "u8 list" and k :: nat
  assume ok: "ring_ok s"
  show "\<exists>t. Producer_write ft d s = Inr t" using Producer_write_eq [OF ok] by blast
  show "\<exists>t. consume ft k s = Inr t" using consume_eq [OF ok] by blast
  show "\<exists>a b. peek s = Inr (a, b) \<and> a @ b = content s"
    by (rule Consumer_read_grant [OF ok]) (simp add: peek_def GrantR_bufs_def)
  show "Consumer_is_empty s = (content s = [])" by (rule Consumer_is_empty_iff [OF ok])
  show "ring_ok t" if "Producer_write ft d s = Inr t" by (rule Producer_write_cases [OF ok that])
  show "content t = content s @ take (space s) d" if "Producer_write ft d s = Inr t"
    by (rule Producer_write_cases [OF ok that])
  show "space t = space s - length d" if "Producer_write ft d s = Inr t"
    using Producer_write_cases [OF ok that] by (simp add: space_def)
  assume c: "consume ft k s = Inr t"
  then have t: "t = released ft (min k (length (content s))) s" using consume_eq [OF ok] by simp
  note rel = released_props [OF ok min.cobounded2 [of k]]
  show "ring_ok t" unfolding t by (rule rel)
  show "content t = drop k (content s)"
    unfolding t by (simp add: rel) (simp add: min_def)
  show "space t = space s + min k (length (content s))"
    unfolding t using space_content [OF ok] by (simp add: space_def rel)
qed

subsection \<open>Recovery\<close>

lemma RingBuffer_record_eqI:
  "v = v\<lparr>rb_read := rb_read v\<rparr>" "v = v\<lparr>rb_write := rb_write v\<rparr>" for v :: ring
  by simp_all

definition indices_ok :: "ring \<Rightarrow> bool" where
  "indices_ok v \<longleftrightarrow> as_usize (rb_read v) < length (buf v) \<and> as_usize (rb_write v) < length (buf v)"

lemma recover_content:
  "0 < length (buf v) \<Longrightarrow>
   content (recover ft v) = (if rb_header v = MAGIC ft \<and> indices_ok v then content v else [])"
  by (auto simp: recover_def Let_def indices_ok_def content_def split: bool.splits)

lemma recover_fields [simp]:
  "rb_header (recover ft v) = MAGIC ft" "buf (recover ft v) = buf v"
  by (auto simp: recover_def Let_def split: bool.splits)

lemma recover_ok:
  "0 < length (buf v) \<Longrightarrow> length (buf v) < max_buf_len \<Longrightarrow> ring_ok (recover ft v)"
  by (auto simp: recover_def Let_def ring_ok_def split: bool.splits)

lemma flush_ecc_idem [simp]: "flush_ecc ft (flush_ecc ft v) = flush_ecc ft v"
proof -
  have "push_bit 8 (drop_bit 8 (push_bit 8 (drop_bit 8 x))) = push_bit 8 (drop_bit 8 x)"
    for x :: u64
    by (rule bit_eqI) (auto simp: bit_push_bit_iff bit_drop_bit_eq)
  then show ?thesis by (simp add: flush_ecc_def)
qed

lemma recover_valid: "rb_header v = MAGIC ft \<Longrightarrow> indices_ok v \<Longrightarrow> recover ft v = flush_ecc ft v"
  by (simp add: recover_def indices_ok_def Let_def)

lemma recover_idem: "recover ft (recover ft v) = recover ft v" if "0 < length (buf v)"
proof -
  have "flush_ecc ft (v\<lparr>rb_header := h\<rparr>) = (flush_ecc ft v)\<lparr>rb_header := h\<rparr>" for h and v :: ring
    by (simp add: flush_ecc_def)
  moreover have "recover ft (recover ft v) = flush_ecc ft (recover ft v)"
    using that by (intro recover_valid) (auto simp: recover_def indices_ok_def Let_def split: bool.splits)
  ultimately show ?thesis by (auto simp: recover_def Let_def)
qed

subsection \<open>A grant outlives later writes\<close>

lemma grant_for_write:
  assumes "ring_ok v" "grant_for g v" "Producer_write ft data v = Inr t"
  shows "grant_for g t"
  using assms(2) Producer_write_cases [OF assms(1,3)] grant_for_lengths [OF assms(2)]
  by (auto simp: grant_for_def)

lemma grant_for_push_all:
  "ring_ok v \<Longrightarrow> grant_for g v \<Longrightarrow> push_all (Producer_write ft) ds v = Inr t \<Longrightarrow> grant_for g t \<and> ring_ok t"
proof (induction ds arbitrary: v)
  case (Cons d ds)
  then obtain u where u: "Producer_write ft d v = Inr u" "push_all (Producer_write ft) ds u = Inr t"
    by (auto simp: res_bind_eq_Inr)
  show ?case
    using Cons.IH [of u] u(2) grant_for_write [OF Cons.prems(1,2) u(1)]
      Producer_write_cases [OF Cons.prems(1) u(1)] by simp
qed simp

text \<open>The bytes a grant shows are owned positions, which a write does not touch.\<close>

lemma written_owned:
  assumes ok: "ring_ok v" and w: "Producer_write ft data v = Inr t" and i: "i < length (buf v)"
    and own: "circ_owned (as_usize (rb_read v)) (as_usize (rb_write v)) i"
  shows "buf t ! i = buf v ! i"
proof -
  have "length (take (space v) data) \<le> circ_free (length (buf v)) (as_usize (rb_read v)) (as_usize (rb_write v))"
    by (simp add: space_eq [OF ok])
  then show ?thesis
    using w Producer_write_eq [OF ok, of ft data] circ_put_owned [OF ring_ok_circ [OF ok] _ i own]
    by (auto simp: written_def Let_def)
qed

subsection \<open>Properties\<close>

text \<open>The evaluation of a concrete ring, for the witnesses.\<close>

lemma RingBuffer_new_fields [simp]:
  "rb_read (RingBuffer_new ft r w b) = r" "rb_write (RingBuffer_new ft r w b) = w"
  "buf (RingBuffer_new ft r w b) = b" "rb_header (RingBuffer_new ft r w b) = MAGIC ft"
  by (simp_all add: RingBuffer_new_def)

lemma content_new: "content (RingBuffer_new ft r w b) = circ_content b (as_usize r) (as_usize w)"
  by (simp add: content_def)

lemma ring_ok_new:
  "ring_ok (RingBuffer_new ft r w b) \<longleftrightarrow>
     as_usize r < length b \<and> as_usize w < length b \<and> length b < max_buf_len"
  by (simp add: ring_ok_def)

lemmas ring_eval = content_new ring_ok_new circ_content_def max_buf_len_def space_def

text \<open>
  C3: any sequence of producer writes and consumer read-and-release steps on a valid ring runs
  without a panic or an out-of-bounds access, keeps the ring valid, and does exactly what a
  bounded FIFO of capacity \<open>buf.len() - 1\<close> does: a write appends the prefix that fits, a
  release of \<open>k\<close> drops the first \<open>k\<close> bytes.
\<close>

theorem ring_implements_bounded_fifo:
  assumes "ring_ok v"
  shows "\<exists>t. queue_run (Producer_write ft) (consume ft) ops v = Inr t \<and> ring_ok t \<and>
     content t = fst (spec_run (length (buf v) - 1) ops (content v))"
  using ring_queue.queue_run_refines [OF assms, of "length (buf v) - 1" ft ops] space_content [OF assms]
  by auto

theorem ring_implements_bounded_fifo_witness:
  "\<exists>t. queue_run (Producer_write default_features) (consume default_features)
       [Push [1, 2, 3], Pop 2, Push [4, 5, 6]] (RingBuffer_new default_features 2 2 [0, 0, 0, 0]) = Inr t \<and>
     content t = [3, 4, 5]"
proof -
  let ?v = "RingBuffer_new default_features 2 2 [0, 0, 0, 0]"
  have ok: "ring_ok ?v" and c: "content ?v = []" by (simp_all add: ring_eval)
  have "fst (spec_run (length (buf ?v) - 1) [Push [1, 2, 3], Pop 2, Push [4, 5, 6]] (content ?v)) = [3, 4, 5]"
    unfolding c by (simp add: Let_def)
  then show ?thesis
    using ring_implements_bounded_fifo [OF ok, of default_features "[Push [1, 2, 3], Pop 2, Push [4, 5, 6]]"]
    by metis
qed

text \<open>
  C18: \<open>Producer::write\<close> on a valid ring never faults, appends exactly the prefix of \<open>data\<close>
  that fits in the free space, keeps the ring valid, and leaves the read index, the header
  and every byte that the consumer owns untouched.
\<close>

theorem Producer_write_appends:
  assumes "ring_ok v"
  shows "\<exists>t. Producer_write ft data v = Inr t \<and> ring_ok t \<and>
     content t = content v @ take (length (buf v) - 1 - length (content v)) data \<and>
     rb_read t = rb_read v \<and> rb_header t = rb_header v \<and> length (buf t) = length (buf v) \<and>
     (\<forall>i<length (buf v). circ_owned (as_usize (rb_read v)) (as_usize (rb_write v)) i \<longrightarrow>
        buf t ! i = buf v ! i)"
proof -
  obtain t where t: "Producer_write ft data v = Inr t" using ring_queue.push_total [OF assms] by blast
  have "content t = content v @ take (length (buf v) - 1 - length (content v)) data"
    using Producer_write_cases(1) [OF assms t] by (simp only: space_def)
  then show ?thesis
    using t Producer_write_cases(2-5) [OF assms t] written_owned [OF assms t] by blast
qed

theorem Producer_write_appends_witness:
  "\<exists>t. Producer_write default_features [7, 8, 9] (RingBuffer_new default_features 1 3 [0, 5, 6, 0, 0]) = Inr t \<and>
     content t = [5, 6, 7, 8]"
proof -
  let ?v = "RingBuffer_new default_features 1 3 [0, 5, 6, 0, 0]"
  have ok: "ring_ok ?v" and c: "content ?v = [5, 6]" by (simp_all add: ring_eval)
  have "content ?v @ take (length (buf ?v) - 1 - length (content ?v)) [7, 8, 9] = [5, 6, 7, 8]"
    unfolding c by simp
  then show ?thesis
    using Producer_write_appends [OF ok, of default_features "[7, 8, 9]"] by metis
qed

text \<open>
  C19: \<open>Consumer::read\<close> on a valid ring never faults and hands out all queued bytes at once, the
  part up to the end of the buffer in the first slice and the part that wrapped in the second;
  \<open>is_empty\<close> is true exactly when both are empty.
\<close>

theorem Consumer_read_returns_all:
  assumes "ring_ok v"
  shows "\<exists>g. Consumer_read v = Inr g \<and> fst (GrantR_bufs g) @ snd (GrantR_bufs g) = content v \<and>
     (slice2 g \<noteq> [] \<longrightarrow> original_read g + length (slice1 g) = length (buf v)) \<and>
     (Consumer_is_empty v \<longleftrightarrow> slice1 g = [] \<and> slice2 g = [])"
proof -
  obtain g where g: "Consumer_read v = Inr g" "grant_for g v" "slice1 g @ slice2 g = content v"
    by (rule Consumer_read_grant [OF assms])
  have "Consumer_is_empty v \<longleftrightarrow> slice1 g = [] \<and> slice2 g = []"
    unfolding Consumer_is_empty_iff [OF assms] g(3) [symmetric] by simp
  then show ?thesis using g unfolding GrantR_bufs_def grant_for_def by auto
qed

theorem Consumer_read_returns_all_witness:
  "\<exists>g. Consumer_read (RingBuffer_new default_features 2 1 [3, 0, 1, 2]) = Inr g \<and>
     fst (GrantR_bufs g) @ snd (GrantR_bufs g) = [1, 2, 3]"
proof -
  let ?v = "RingBuffer_new default_features 2 1 [3, 0, 1, 2]"
  have ok: "ring_ok ?v" and c: "content ?v = [1, 2, 3]" by (simp_all add: ring_eval)
  show ?thesis using Consumer_read_returns_all [OF ok] unfolding c by blast
qed

text \<open>
  C20: releasing \<open>used\<close> bytes of a grant after the producer has gone on writing consumes exactly
  the first \<open>min used (granted bytes)\<close> bytes, whatever was appended in the meantime; it never
  faults and never consumes more than was granted.
\<close>

theorem release_after_writes:
  assumes "ring_ok v" and "Consumer_read v = Inr g" and "push_all (Producer_write ft) ds v = Inr w"
  shows "\<exists>t. GrantR_release ft g used w = Inr t \<and> ring_ok t \<and>
     content t = drop (min used (length (content v))) (content v @ take (space v) (concat ds))"
proof -
  have g: "grant_for g v" "slice1 g @ slice2 g = content v"
    using Consumer_read_grant [OF assms(1)] assms(2) by auto
  have w: "grant_for g w" "ring_ok w" "content w = content v @ take (space v) (concat ds)"
    using grant_for_push_all [OF assms(1) g(1) assms(3)] ring_queue.push_all_content [OF assms(1,3)] by auto
  have len: "length (slice1 g) + length (slice2 g) = length (content v)"
    using arg_cong [OF g(2), of length] by simp
  have k: "min used (length (content v)) \<le> length (content w)" using w(3) by simp
  have "GrantR_release ft g used w = Inr (released ft (min used (length (content v))) w)"
    using GrantR_release_eq [OF w(2,1)] len by simp
  then show ?thesis using released_props [OF w(2) k, of ft] unfolding w(3) by blast
qed

theorem release_after_writes_witness:
  "\<exists>g w t. Consumer_read (RingBuffer_new default_features 2 1 [3, 0, 1, 2, 0]) = Inr g \<and>
     push_all (Producer_write default_features) [[9], [8]] (RingBuffer_new default_features 2 1 [3, 0, 1, 2, 0]) = Inr w \<and>
     GrantR_release default_features g 3 w = Inr t \<and> content t = [3]"
proof -
  let ?v = "RingBuffer_new default_features 2 1 [3, 0, 1, 2, 0]"
  have ok: "ring_ok ?v" and c: "content ?v = [1, 2, 0, 3]" and s: "space ?v = 0"
    by (simp_all add: ring_eval)
  obtain g where g: "Consumer_read ?v = Inr g" by (rule Consumer_read_grant [OF ok])
  obtain w where w: "push_all (Producer_write default_features) [[9], [8]] ?v = Inr w"
    using ring_queue.push_all_total [OF ok] by blast
  have "drop (min 3 (length (content ?v))) (content ?v @ take (space ?v) (concat [[9], [8]])) = [3]"
    unfolding c s by simp
  then show ?thesis using release_after_writes [OF ok g w, of 3] g w by metis
qed

text \<open>
  \<open>release_all\<close> of a fresh grant empties the ring, and releasing 0 bytes consumes nothing.
\<close>

lemma release_all_empties:
  assumes "ring_ok v" and "Consumer_read v = Inr g"
  shows "\<exists>t u. GrantR_release_all ft g v = Inr t \<and> Consumer_is_empty t \<and>
     GrantR_release ft g 0 v = Inr u \<and> content u = content v"
proof -
  have cons: "consume ft k v = GrantR_release ft g k v" for k
    using assms(2) by (simp add: consume_def)
  obtain t u where t: "consume ft usize_max v = Inr t" and u: "consume ft 0 v = Inr u"
    using ring_queue.pop_total [OF assms(1)] by blast
  have "length (content v) \<le> usize_max"
    using length_content_less [OF assms(1)] ring_ok_limit [OF assms(1)] by (simp add: usize_max_def)
  then have "Consumer_is_empty t" by (rule ring_queue.pop_all_empties [OF assms(1) _ t])
  moreover have "content u = content v" using ring_queue.pop_content [OF assms(1) u] by simp
  ultimately show ?thesis using t u unfolding cons GrantR_release_all_def by blast
qed

text \<open>
  C8: whatever the memory holds, recovery ends in a valid, initialised ring; it keeps the queued
  bytes if the magic value and both indices are good and otherwise presents an empty ring,
  never touches the bytes of the buffer, and doing it again changes nothing.
\<close>

theorem recover_correct:
  assumes "0 < length (buf v)" and "length (buf v) < max_buf_len"
  shows "ring_ok (recover ft v) \<and> rb_header (recover ft v) = MAGIC ft \<and>
     buf (recover ft v) = buf v \<and> recover ft (recover ft v) = recover ft v \<and>
     content (recover ft v) =
       (if rb_header v = MAGIC ft \<and> as_usize (rb_read v) < length (buf v) \<and> as_usize (rb_write v) < length (buf v)
        then content v else [])"
  using recover_ok [OF assms] recover_idem [OF assms(1)] recover_content [OF assms(1)]
  by (simp add: indices_ok_def)

theorem recover_correct_witness:
  "content (recover default_features (RingBuffer_new default_features 3 1 [7, 0, 0, 6])) = [6, 7] \<and>
   content (recover default_features (RingBuffer_new default_features 3 4 [7, 0, 0, 6])) = []"
  using recover_correct [of "RingBuffer_new default_features 3 1 [7, 0, 0, 6]" default_features]
    recover_correct [of "RingBuffer_new default_features 3 4 [7, 0, 0, 6]" default_features]
  by (simp add: ring_eval)

end
