(* ===== verification/Crash.thy ===== *)
theory Crash
  imports RingBuffer
begin

text \<open>
  Resets in the middle of an operation. Each operation of \<open>ring_buffer.rs\<close> is taken apart
  into the sequence of stores it makes to the persistent memory, in program order; the
  sequences are shown to compute the operations of theory \<open>RingBuffer\<close>. Two models say what
  survives a reset after any prefix of such a sequence:

  \<^item> in-order memory: exactly the stores made so far;
  \<^item> memory behind an ECC write cache: stores are pending until a byte is written to the flush
    field, which commits all earlier ones. Any subset of the pending stores may have reached
    the memory, a pending store of the 16-byte header possibly in part only. This
    over-approximates the cache that the documentation of \<open>RingBuffer\<close> describes, where
    complete words may be committed early and incomplete ones late.

  The result is that every operation is atomic with respect to resets: what recovery finds is
  the content before the operation or the content after it.
\<close>

subsection \<open>Operations as sequences of stores\<close>

datatype store =
    StHeader u128
  | StRead u32
  | StWrite u32
  | StByte nat u8
  | StFlush

fun apply_store :: "features \<Rightarrow> store \<Rightarrow> ring \<Rightarrow> ring" where
  "apply_store ft (StHeader h) v = v\<lparr>rb_header := h\<rparr>"
| "apply_store ft (StRead x) v = v\<lparr>rb_read := x\<rparr>"
| "apply_store ft (StWrite x) v = v\<lparr>rb_write := x\<rparr>"
| "apply_store ft (StByte i b) v = v\<lparr>buf := (buf v)[i := b]\<rparr>"
| "apply_store ft StFlush v = flush_ecc ft v"

definition run_stores :: "features \<Rightarrow> store list \<Rightarrow> ring \<Rightarrow> ring" where
  "run_stores ft ss v = fold (apply_store ft) ss v"

definition flush_stores :: "features \<Rightarrow> store list" where
  "flush_stores ft = (if feat_ecc ft then [StFlush] else [])"

definition copy_stores :: "u8 list \<Rightarrow> usize \<Rightarrow> usize \<Rightarrow> usize \<Rightarrow> store list" where
  "copy_stores src soff doff n = map (\<lambda>j. StByte (doff + j) (src ! (soff + j))) [0..<n]"

text \<open>The values that the operation has loaded from the header are arguments.\<close>

definition Producer_write_stores ::
    "features \<Rightarrow> u8 list \<Rightarrow> usize \<Rightarrow> usize \<Rightarrow> usize \<Rightarrow> store list res" where
  "Producer_write_stores ft data buf_len read write =
     res_bind (Producer_available buf_len read write) (\<lambda>av.
     let len = min (length data) av in
     if len = 0 then Inr []
     else
       res_bind (uadd write len) (\<lambda>end.
       res_bind
         (if end > buf_len then
            res_bind (usub buf_len write) (\<lambda>pivot.
            res_bind (usub len pivot) (\<lambda>rest.
              Inr (copy_stores data 0 write pivot @ copy_stores data pivot 0 rest)))
          else Inr (copy_stores data 0 write len)) (\<lambda>cs.
       res_bind (urem (uwrapping_add write len) buf_len) (\<lambda>w.
         Inr (cs @ flush_stores ft @ [StWrite (as_u32 w)] @ flush_stores ft)))))"

definition GrantR_release_stores ::
    "features \<Rightarrow> GrantR \<Rightarrow> usize \<Rightarrow> usize \<Rightarrow> store list res" where
  "GrantR_release_stores ft g used_arg buf_len =
     res_bind (uadd (length (slice1 g)) (length (slice2 g))) (\<lambda>total.
     let used = min used_arg total;
         read = original_read g
     in res_bind (uadd read used) (\<lambda>s.
        res_bind (if s < buf_len then uadd read used
                  else usub used (length (slice1 g))) (\<lambda>new_read.
          Inr (StRead (as_u32 new_read) # flush_stores ft))))"

definition recover_stores :: "features \<Rightarrow> ring \<Rightarrow> store list" where
  "recover_stores ft v =
     (if rb_header v \<noteq> MAGIC ft then
        [StRead 0, StWrite 0] @ flush_stores ft @ [StHeader (MAGIC ft)]
      else
        let buf_len = length (buf v);
            write = as_usize (rb_write v);
            read = as_usize (rb_read v)
        in (case (read < buf_len, write < buf_len) of
              (True, True) \<Rightarrow> []
            | (True, False) \<Rightarrow> [StWrite (as_u32 read)]
            | (False, True) \<Rightarrow> [StRead (as_u32 write)]
            | (False, False) \<Rightarrow> [StRead 0, StWrite 0]) @ flush_stores ft)"

subsection \<open>The sequences compute the operations\<close>

lemma run_stores_simps [simp]:
  "run_stores ft [] v = v"
  "run_stores ft (s # ss) v = run_stores ft ss (apply_store ft s v)"
  "run_stores ft (ss @ ts) v = run_stores ft ts (run_stores ft ss v)"
  by (simp_all add: run_stores_def)

lemma run_flush_stores [simp]: "run_stores ft (flush_stores ft) v = flush_ecc ft v"
  by (simp add: flush_stores_def flush_ecc_def)

lemma recover_eq_stores: "recover ft v = run_stores ft (recover_stores ft v) v"
  by (auto simp: recover_def recover_stores_def Let_def split: bool.splits)

lemma run_copy_stores:
  "soff + n \<le> length src \<Longrightarrow> doff + n \<le> length (buf v) \<Longrightarrow>
   run_stores ft (copy_stores src soff doff n) v =
     v\<lparr>buf := take doff (buf v) @ take n (drop soff src) @ drop (doff + n) (buf v)\<rparr>"
proof (induction n)
  case 0
  then show ?case by (simp add: copy_stores_def)
next
  case (Suc n)
  then have "take (Suc n) (drop soff src) = take n (drop soff src) @ [src ! (soff + n)]"
    by (simp add: take_Suc_conv_app_nth)
  moreover have "drop (doff + n) (buf v) = buf v ! (doff + n) # drop (Suc (doff + n)) (buf v)"
    using Suc.prems by (simp add: Cons_nth_drop_Suc)
  ultimately show ?case
    using Suc by (simp add: copy_stores_def list_update_append)
qed

text \<open>The copies of a write of \<open>k\<close> bytes, as one sequence.\<close>

definition put_stores :: "nat \<Rightarrow> nat \<Rightarrow> u8 list \<Rightarrow> nat \<Rightarrow> store list" where
  "put_stores n w data k =
     (if w + k > n then copy_stores data 0 w (n - w) @ copy_stores data (n - w) 0 (k - (n - w))
      else copy_stores data 0 w k)"

lemma run_put_stores:
  assumes "w < length (buf v)" "k < length (buf v)" "k \<le> length data"
  shows "run_stores ft (put_stores (length (buf v)) w data k) v = v\<lparr>buf := circ_put (buf v) w (take k data)\<rparr>"
proof (cases "w + k > length (buf v)")
  case True
  let ?p = "length (buf v) - w"
  have "take ?p data = take ?p (take k data)" using True by (auto simp: min_def)
  then show ?thesis using True assms
    by (simp add: put_stores_def run_copy_stores circ_put_def Let_def take_drop min_def)
next
  case False
  then show ?thesis using assms
    by (simp add: put_stores_def run_copy_stores circ_put_def Let_def min_def)
qed

lemma Producer_write_stores_eq:
  fixes data :: "u8 list"
  assumes ok: "ring_ok v"
  defines "k \<equiv> min (length data) (space v)" and "n \<equiv> length (buf v)"
    and "w \<equiv> as_usize (rb_write v)"
  shows "Producer_write_stores ft data n (as_usize (rb_read v)) w =
     Inr (if k = 0 then []
          else put_stores n w data k @ flush_stores ft @ [StWrite (as_u32 ((w + k) mod n))]
               @ flush_stores ft)"
proof -
  have n: "as_usize (rb_read v) < n" "w < n" "n < usize_limit" "w + k < usize_limit"
    using ok ring_ok_limit [OF ok] space_less [OF ok] by (auto simp: ring_ok_def k_def n_def w_def)
  have av: "Producer_available n (as_usize (rb_read v)) w = Inr (space v)"
    using Producer_available_eq n space_eq [OF ok] by (simp add: n_def w_def)
  have "0 < n" using n(1) by linarith
  then show ?thesis using n
    by (auto simp: Producer_write_stores_def av checked put_stores_def Let_def simp flip: k_def)
qed

lemma Producer_write_run_stores:
  assumes ok: "ring_ok v"
  shows "Producer_write ft data v =
    res_bind (Producer_write_stores ft data (length (buf v)) (as_usize (rb_read v)) (as_usize (rb_write v)))
      (\<lambda>ss. Inr (run_stores ft ss v))"
proof -
  let ?k = "min (length data) (space v)" and ?n = "length (buf v)" and ?w = "as_usize (rb_write v)"
  have d: "take ?k data = take (space v) data" by (simp add: min_def)
  show ?thesis
  proof (cases "?k = 0")
    case True
    then have "take (space v) data = []" using d by (metis take_0)
    then show ?thesis
      unfolding Producer_write_stores_eq [OF ok] Producer_write_eq [OF ok] using True by simp
  next
    case False
    then have ne: "take (space v) data \<noteq> []" by (metis length_take list.size(3))
    have "?w < ?n" "?k < ?n" "?k \<le> length data"
      using ok space_less [OF ok] by (auto simp: ring_ok_def)
    then have "run_stores ft (put_stores ?n ?w data ?k) v
        = v\<lparr>buf := circ_put (buf v) ?w (take (space v) data)\<rparr>"
      using run_put_stores d by simp
    moreover have "length (take (space v) data) = ?k" by (simp add: min.commute)
    ultimately show ?thesis
      unfolding Producer_write_stores_eq [OF ok] Producer_write_eq [OF ok] using False ne
      by (simp only: res_bind.simps if_False written_def Let_def run_stores_simps run_flush_stores
          apply_store.simps)
  qed
qed

lemma GrantR_release_run_stores:
  "GrantR_release ft g used v =
     res_bind (GrantR_release_stores ft g used (length (buf v))) (\<lambda>ss. Inr (run_stores ft ss v))"
  by (simp add: GrantR_release_def GrantR_release_stores_def Let_def res_bind_assoc)

subsection \<open>What a reset leaves behind\<close>

text \<open>
  The memory behind the write cache: the durable contents and the pending stores, oldest
  first. A write to the flush field commits all earlier stores.
\<close>

type_synonym pmem = "ring \<times> store list"

fun issue :: "features \<Rightarrow> store \<Rightarrow> pmem \<Rightarrow> pmem" where
  "issue ft s (d, ps) = (if s = StFlush then (run_stores ft ps d, [StFlush]) else (d, ps @ [s]))"

definition issue_all :: "features \<Rightarrow> store list \<Rightarrow> pmem \<Rightarrow> pmem" where
  "issue_all ft ss m = fold (issue ft) ss m"

text \<open>What the processor reads: all stores made.\<close>

definition volatile_view :: "features \<Rightarrow> pmem \<Rightarrow> ring" where
  "volatile_view ft m = run_stores ft (snd m) (fst m)"

inductive crash_image :: "features \<Rightarrow> ring \<Rightarrow> store list \<Rightarrow> ring \<Rightarrow> bool" for ft where
  crash_done: "crash_image ft d [] d"
| crash_keep: "crash_image ft (apply_store ft s d) ps r \<Longrightarrow> crash_image ft d (s # ps) r"
| crash_lose: "crash_image ft d ps r \<Longrightarrow> crash_image ft d (s # ps) r"
| crash_torn: "crash_image ft (d\<lparr>rb_header := h\<rparr>) ps r \<Longrightarrow> crash_image ft d (StHeader x # ps) r"

inductive_cases crash_image_NilE: "crash_image ft d [] r"
inductive_cases crash_image_ConsE: "crash_image ft d (s # ps) r"

text \<open>A reset after some prefix of the stores \<open>ss\<close>, made from memory state \<open>m\<close>.\<close>

definition crashes_to :: "features \<Rightarrow> pmem \<Rightarrow> store list \<Rightarrow> ring \<Rightarrow> bool" where
  "crashes_to ft m ss r \<longleftrightarrow>
     (\<exists>k\<le>length ss. let (d, ps) = issue_all ft (take k ss) m in crash_image ft d ps r)"

definition crashes_in_order :: "features \<Rightarrow> ring \<Rightarrow> store list \<Rightarrow> ring \<Rightarrow> bool" where
  "crashes_in_order ft v ss r \<longleftrightarrow> (\<exists>k\<le>length ss. r = run_stores ft (take k ss) v)"

lemma issue_all_simps [simp]:
  "issue_all ft [] m = m"
  "issue_all ft (s # ss) m = issue_all ft ss (issue ft s m)"
  "issue_all ft (ss @ ts) m = issue_all ft ts (issue_all ft ss m)"
  by (simp_all add: issue_all_def)

lemma issue_all_no_flush: "StFlush \<notin> set ss \<Longrightarrow> issue_all ft ss (d, ps) = (d, ps @ ss)"
  by (induction ss arbitrary: ps) auto

lemma volatile_issue: "volatile_view ft (issue ft s m) = apply_store ft s (volatile_view ft m)"
  by (cases m) (auto simp: volatile_view_def)

lemma volatile_issue_all: "volatile_view ft (issue_all ft ss m) = run_stores ft ss (volatile_view ft m)"
  by (induction ss arbitrary: m) (simp_all add: volatile_issue)

text \<open>What holds of the durable contents and is kept by every pending store holds of every image.\<close>

lemma crash_image_inv:
  assumes "crash_image ft d ps r" "P d"
    and "\<forall>s\<in>set ps. \<forall>v. P v \<longrightarrow> P (apply_store ft s v)"
    and "\<forall>x h v. StHeader x \<in> set ps \<longrightarrow> P v \<longrightarrow> P (v\<lparr>rb_header := h\<rparr>)"
  shows "P r"
  using assms by (induction rule: crash_image.induct) auto

text \<open>
  \<open>agrees ft v r\<close>: the image \<open>r\<close> has the indices of \<open>v\<close> and the same bytes at the positions
  that hold content; its header may be damaged only if there is no content. Recovery from
  such an image finds the content of \<open>v\<close>.
\<close>

definition agrees :: "features \<Rightarrow> ring \<Rightarrow> ring \<Rightarrow> bool" where
  "agrees ft v r \<longleftrightarrow>
     rb_read r = rb_read v \<and> rb_write r = rb_write v \<and> length (buf r) = length (buf v) \<and>
     (\<forall>i<length (buf v). circ_owned (as_usize (rb_read v)) (as_usize (rb_write v)) i \<longrightarrow>
        buf r ! i = buf v ! i) \<and>
     (rb_header r = MAGIC ft \<or> rb_read v = rb_write v)"

lemma agrees_refl: "rb_header v = MAGIC ft \<Longrightarrow> agrees ft v v"
  by (simp add: agrees_def)

lemma agrees_recover:
  assumes ok: "ring_ok v" and ag: "agrees ft v r"
  shows "content (recover ft r) = content v"
proof -
  have "0 < length (buf r)" using ok ag by (auto simp: agrees_def ring_ok_def)
  then have rec: "content (recover ft r) =
      (if rb_header r = MAGIC ft \<and> indices_ok r then content r else [])"
    by (rule recover_content)
  have same: "content r = content v"
    using circ_content_cong [OF ring_ok_circ [OF ok], of "buf r"] ag
    by (simp add: agrees_def content_def)
  have idx: "indices_ok r" using ok ag by (simp add: agrees_def indices_ok_def ring_ok_def)
  show ?thesis
  proof (cases "rb_header r = MAGIC ft")
    case True
    then show ?thesis using rec same idx by simp
  next
    case False
    then have "content v = []" using ag by (simp add: agrees_def content_def)
    with False rec show ?thesis by simp
  qed
qed

text \<open>A store is harmless for \<open>v\<close> when it cannot change what \<open>agrees\<close> looks at.\<close>

fun harmless :: "features \<Rightarrow> ring \<Rightarrow> store \<Rightarrow> bool" where
  "harmless ft v (StByte i b) = (\<not> circ_owned (as_usize (rb_read v)) (as_usize (rb_write v)) i)"
| "harmless ft v StFlush = True"
| "harmless ft v (StHeader h) = (h = MAGIC ft \<and> rb_read v = rb_write v)"
| "harmless ft v _ = False"

lemma agrees_harmless: "agrees ft v r \<Longrightarrow> harmless ft v s \<Longrightarrow> agrees ft v (apply_store ft s r)"
  by (cases s) (auto simp: agrees_def, (metis nth_list_update_neq)+)

lemma agrees_run_harmless:
  "agrees ft v r \<Longrightarrow> \<forall>s\<in>set ss. harmless ft v s \<Longrightarrow> agrees ft v (run_stores ft ss r)"
  by (induction ss arbitrary: r) (auto intro: agrees_harmless)

lemma crash_image_harmless:
  assumes "crash_image ft d ps r" "agrees ft v d" "\<forall>s\<in>set ps. harmless ft v s"
  shows "agrees ft v r"
proof (rule crash_image_inv [where P = "agrees ft v", OF assms(1,2)])
  show "\<forall>s\<in>set ps. \<forall>w. agrees ft v w \<longrightarrow> agrees ft v (apply_store ft s w)"
    using assms(3) by (auto intro: agrees_harmless)
  show "\<forall>x h w. StHeader x \<in> set ps \<longrightarrow> agrees ft v w \<longrightarrow> agrees ft v (w\<lparr>rb_header := h\<rparr>)"
    using assms(3) by (auto simp: agrees_def)
qed

text \<open>The last pending store is either in the image or not; the rest is an image without it.\<close>

lemma crash_image_snoc:
  assumes "crash_image ft d (ps @ [s]) r" "\<forall>x. s \<noteq> StHeader x"
  shows "\<exists>r0. crash_image ft d ps r0 \<and> (r = r0 \<or> r = apply_store ft s r0)"
  using assms
proof (induction ps arbitrary: d)
  case Nil
  then show ?case
    by (auto elim!: crash_image_ConsE crash_image_NilE intro: crash_done)
next
  case (Cons p ps)
  from Cons.prems(1) have "crash_image ft d (p # ps @ [s]) r" by simp
  then show ?case
    using Cons.IH Cons.prems(2)
    by (elim crash_image_ConsE) (blast intro: crash_image.intros)+
qed

subsection \<open>Settled memory: between two operations\<close>

definition settled :: "features \<Rightarrow> ring \<Rightarrow> pmem \<Rightarrow> bool" where
  "settled ft v m \<longleftrightarrow> ring_ok v \<and> rb_header v = MAGIC ft \<and> volatile_view ft m = v \<and>
     agrees ft v (fst m) \<and> (\<forall>s\<in>set (snd m). harmless ft v s)"

lemma settled_image: "settled ft v m \<Longrightarrow> crash_image ft (fst m) (snd m) r \<Longrightarrow> agrees ft v r"
  unfolding settled_def by (blast intro: crash_image_harmless)

lemma settled_start: "ring_ok v \<Longrightarrow> rb_header v = MAGIC ft \<Longrightarrow> settled ft v (v, [])"
  by (simp add: settled_def volatile_view_def agrees_refl)

lemma put_stores_harmless:
  assumes ok: "ring_ok v" and k: "k \<le> space v" and s: "s \<in> set (put_stores (length (buf v)) (as_usize (rb_write v)) data k)"
  shows "harmless ft v s \<and> s \<noteq> StFlush"
proof -
  let ?n = "length (buf v)" and ?w = "as_usize (rb_write v)"
  have w: "?w < ?n" using ok by (simp add: ring_ok_def)
  have kn: "k < ?n" using k space_less [OF ok] by linarith
  have "\<exists>j b. j < k \<and> s = StByte (circ_pos ?n ?w j) b"
  proof (cases "?w + k > ?n")
    case True
    then consider j where "j < ?n - ?w" "s = StByte (?w + j) (data ! j)"
      | j where "j < k - (?n - ?w)" "s = StByte j (data ! (?n - ?w + j))"
      using s by (auto simp: put_stores_def copy_stores_def)
    then show ?thesis
    proof cases
      case 1
      then show ?thesis using True by (intro exI [of _ j]) (auto simp: circ_pos_def)
    next
      case 2
      then have "circ_pos ?n ?w (?n - ?w + j) = j" using w kn by (simp add: circ_pos_def)
      then show ?thesis using 2 by (intro exI [of _ "?n - ?w + j"]) auto
    qed
  next
    case False
    then show ?thesis using s by (auto simp: put_stores_def copy_stores_def circ_pos_def)
  qed
  then obtain j b where "j < k" "s = StByte (circ_pos ?n ?w j) b" by blast
  then show ?thesis
    using circ_pos_free [OF ring_ok_circ [OF ok], of j] k space_eq [OF ok] by simp
qed

lemma take_append3:
  "k \<le> length (cs @ [a, b, c]) \<Longrightarrow>
   (\<exists>j. take k (cs @ [a, b, c]) = take j cs) \<or> take k (cs @ [a, b, c]) = cs @ [a] \<or>
   take k (cs @ [a, b, c]) = cs @ [a, b] \<or> take k (cs @ [a, b, c]) = cs @ [a, b, c]"
proof -
  assume "k \<le> length (cs @ [a, b, c])"
  then consider "k \<le> length cs" | "k = length cs + 1" | "k = length cs + 2" | "k = length cs + 3"
    by fastforce
  then show ?thesis by cases (auto simp: take_Cons' numeral_eq_Suc)
qed

text \<open>An image that differs from \<open>v\<close> in the flush field only.\<close>

lemma agrees_same:
  "rb_header r = MAGIC ft \<Longrightarrow> rb_read r = rb_read v \<Longrightarrow> rb_write r = rb_write v \<Longrightarrow> buf r = buf v \<Longrightarrow>
   agrees ft v r"
  by (simp add: agrees_def)

lemma crash_image_flush: "crash_image ft d [StFlush] r \<Longrightarrow> r = d \<or> r = flush_ecc ft d"
  by (auto elim!: crash_image_ConsE crash_image_NilE)

subsection \<open>Writes are atomic with respect to resets\<close>

text \<open>
  The phases of a write are copies, flush, index, flush. A cut may fall before the first flush, at it,
  at the index store, or after it, and this is what each may leave behind.
\<close>

lemma commit_cuts:
  assumes m: "settled ft v (d, ps)" and nf: "StFlush \<notin> set cs" and v1: "run_stores ft cs v = v1"
    and img: "crashes_to ft (d, ps) (cs @ [StFlush, StWrite x, StFlush]) r"
  shows "(\<exists>j. crash_image ft d (ps @ take j cs) r) \<or> crash_image ft v1 [StFlush] r \<or>
     crash_image ft v1 ([StFlush] @ [StWrite x]) r \<or> crash_image ft ((flush_ecc ft v1)\<lparr>rb_write := x\<rparr>) [StFlush] r"
proof -
  have all: "issue_all ft (cs @ [StFlush]) (d, ps) = (v1, [StFlush])"
    using m v1 nf by (simp add: issue_all_no_flush settled_def volatile_view_def)
  have tail: "issue_all ft ((cs @ [StFlush]) @ ts) (d, ps) = issue_all ft ts (v1, [StFlush])" for ts
    using all by (simp only: issue_all_simps(3) [of ft "cs @ [StFlush]"])
  from img obtain k where k: "k \<le> length (cs @ [StFlush, StWrite x, StFlush])"
    and r: "crash_image ft (fst (issue_all ft (take k (cs @ [StFlush, StWrite x, StFlush])) (d, ps)))
              (snd (issue_all ft (take k (cs @ [StFlush, StWrite x, StFlush])) (d, ps))) r"
    unfolding crashes_to_def by (auto simp: case_prod_beta)
  from take_append3 [OF k] consider
      j where "take k (cs @ [StFlush, StWrite x, StFlush]) = take j cs"
    | "take k (cs @ [StFlush, StWrite x, StFlush]) = cs @ [StFlush]"
    | "take k (cs @ [StFlush, StWrite x, StFlush]) = (cs @ [StFlush]) @ [StWrite x]"
    | "take k (cs @ [StFlush, StWrite x, StFlush]) = (cs @ [StFlush]) @ [StWrite x, StFlush]"
    by auto
  then show ?thesis
  proof cases
    case 1
    have nfj: "StFlush \<notin> set (take j cs)" using nf by (meson in_set_takeD)
    show ?thesis using r by (simp only: 1 issue_all_no_flush [OF nfj] fst_conv snd_conv) blast
  next
    case 2
    show ?thesis using r by (simp only: 2 all fst_conv snd_conv) blast
  next
    case 3
    show ?thesis using r by (simp only: 3 tail) simp
  next
    case 4
    show ?thesis using r by (simp only: 4 tail) simp
  qed
qed

lemma commit_images:
  assumes m: "settled ft v m" and ecc: "feat_ecc ft"
    and cs: "\<forall>s\<in>set cs. harmless ft v s \<and> s \<noteq> StFlush"
    and v1: "run_stores ft cs v = v1" and hd: "rb_header v1 = MAGIC ft" and ag: "agrees ft v v1"
    and img: "crashes_to ft m (cs @ [StFlush, StWrite x, StFlush]) r"
  shows "agrees ft v r \<or> agrees ft (v1\<lparr>rb_write := x\<rparr>) r"
proof -
  obtain d ps where dm: "m = (d, ps)" by (cases m)
  have flushed: "agrees ft v r0 \<and> rb_header r0 = MAGIC ft \<and> rb_read r0 = rb_read v1 \<and> buf r0 = buf v1"
    if "crash_image ft v1 [StFlush] r0" for r0
    using crash_image_flush [OF that] ag hd agrees_harmless [OF ag, of StFlush] by auto
  have nf: "StFlush \<notin> set cs" using cs by blast
  consider j where "crash_image ft d (ps @ take j cs) r" | "crash_image ft v1 [StFlush] r"
    | "crash_image ft v1 ([StFlush] @ [StWrite x]) r"
    | "crash_image ft ((flush_ecc ft v1)\<lparr>rb_write := x\<rparr>) [StFlush] r"
    using commit_cuts [OF m [unfolded dm] nf v1 img [unfolded dm]] by blast
  then show ?thesis
  proof cases
    case 1
    moreover have "\<forall>s\<in>set (ps @ take j cs). harmless ft v s"
      using m cs by (auto simp: dm settled_def dest: in_set_takeD)
    moreover have "agrees ft v d" using m by (simp add: dm settled_def)
    ultimately show ?thesis by (blast intro: crash_image_harmless)
  next
    case 2
    then show ?thesis using flushed by blast
  next
    case 3
    from crash_image_snoc [OF this] obtain r0 where "crash_image ft v1 [StFlush] r0"
      "r = r0 \<or> r = apply_store ft (StWrite x) r0" by auto
    then show ?thesis using flushed [of r0] by (auto intro: agrees_same)
  next
    case 4
    from crash_image_flush [OF this] show ?thesis
      using hd by (auto intro!: agrees_same)
  qed
qed

lemma issue_all_commit:
  assumes "settled ft v m" "run_stores ft cs v = v1" "StFlush \<notin> set cs"
  shows "issue_all ft (cs @ [StFlush, StWrite x, StFlush]) m
       = ((flush_ecc ft v1)\<lparr>rb_write := x\<rparr>, [StFlush])"
  using assms by (cases m) (simp add: issue_all_no_flush settled_def volatile_view_def)

lemma write_crash:
  assumes m: "settled ft v m" and ecc: "feat_ecc ft"
    and ss: "Producer_write_stores ft data (length (buf v)) (as_usize (rb_read v)) (as_usize (rb_write v)) = Inr ss"
    and wr: "Producer_write ft data v = Inr v'"
  shows "crashes_to ft m ss r \<Longrightarrow> agrees ft v r \<or> agrees ft v' r"
    and "settled ft v' (issue_all ft ss m)"
proof -
  have ok: "ring_ok v" and hd: "rb_header v = MAGIC ft" using m by (auto simp: settled_def)
  let ?n = "length (buf v)" and ?w = "as_usize (rb_write v)"
  define k where "k = min (length data) (space v)"
  have v': "v' = run_stores ft ss v"
    using wr unfolding Producer_write_run_stores [OF ok] ss by simp
  note ss' = ss [unfolded Producer_write_stores_eq [OF ok], folded k_def]
  have "(crashes_to ft m ss r \<longrightarrow> agrees ft v r \<or> agrees ft v' r) \<and> settled ft v' (issue_all ft ss m)"
  proof (cases "k = 0")
    case True
    then have "ss = []" using ss' by simp
    then show ?thesis using v' m settled_image [OF m]
      by (auto simp: crashes_to_def case_prod_beta)
  next
    case False
    define cs where "cs = put_stores ?n ?w data k"
    define x where "x = as_u32 ((?w + k) mod ?n)"
    have sseq: "ss = cs @ [StFlush, StWrite x, StFlush]"
      using ss' False ecc by (simp add: cs_def x_def flush_stores_def)
    have k: "k \<le> space v" "k < ?n" "k \<le> length data" "?w < ?n"
      using ok space_less [OF ok] by (auto simp: k_def ring_ok_def)
    have cs: "\<forall>s\<in>set cs. harmless ft v s \<and> s \<noteq> StFlush"
      using put_stores_harmless [OF ok k(1)] unfolding cs_def by blast
    define v1 where "v1 = run_stores ft cs v"
    have v1b: "v1 = v\<lparr>buf := circ_put (buf v) ?w (take k data)\<rparr>"
      unfolding v1_def cs_def using k by (intro run_put_stores)
    have ag: "agrees ft v v1"
      unfolding v1_def using agrees_run_harmless [OF agrees_refl [OF hd]] cs by blast
    have v'_eq: "v' = flush_ecc ft ((flush_ecc ft v1)\<lparr>rb_write := x\<rparr>)"
      unfolding v' sseq by (simp add: v1_def)
    have ok': "ring_ok v'" "rb_header v' = MAGIC ft"
      using Producer_write_cases [OF ok wr] hd by auto
    have ag': "agrees ft v' r" if "agrees ft (v1\<lparr>rb_write := x\<rparr>) r" for r
      using that by (simp add: agrees_def v'_eq)
    have "settled ft v' (issue_all ft ss m)"
      using issue_all_commit [OF m v1_def [symmetric]] cs ok'
      by (auto simp: sseq settled_def volatile_view_def v'_eq intro!: agrees_same)
    moreover have "agrees ft v r \<or> agrees ft v' r" if "crashes_to ft m ss r"
      using commit_images [OF m ecc cs v1_def [symmetric] _ ag, of x r] that ag' v1b hd
      by (auto simp: sseq)
    ultimately show ?thesis by blast
  qed
  then show "crashes_to ft m ss r \<Longrightarrow> agrees ft v r \<or> agrees ft v' r"
    and "settled ft v' (issue_all ft ss m)" by blast+
qed

subsection \<open>Releases are atomic with respect to resets\<close>

lemma agrees_released:
  assumes ok: "ring_ok v" and k: "k \<le> length (content v)" and ag: "agrees ft v r"
  defines "x \<equiv> as_u32 ((as_usize (rb_read v) + k) mod length (buf v))"
  shows "agrees ft (released ft k v) (r\<lparr>rb_read := x\<rparr>)"
proof -
  let ?n = "length (buf v)" and ?w = "as_usize (rb_write v)"
  have x: "as_usize x = (as_usize (rb_read v) + k) mod ?n"
    unfolding x_def by (rule as_usize_mod [OF ok])
  have k': "k \<le> circ_len ?n (as_usize (rb_read v)) ?w"
    using k ring_ok_circ [OF ok] by (simp add: content_def)
  have "circ_owned (as_usize (rb_read v)) ?w i" if "i < ?n" "circ_owned (as_usize x) ?w i" for i
    using circ_owned_take [OF ring_ok_circ [OF ok] k' that(1)] that(2) by (simp add: x)
  moreover have "x = rb_read v" if "rb_read v = rb_write v"
  proof -
    have "k = 0" using k that by (simp add: content_def)
    then have "as_usize x = as_usize (rb_read v)" using x ok by (simp add: ring_ok_def)
    then show ?thesis by simp
  qed
  ultimately show ?thesis
    using ag by (auto simp: agrees_def released_def simp flip: x_def)
qed

lemma release_crash:
  assumes m: "settled ft v m" and ecc: "feat_ecc ft" and g: "grant_for g v"
    and ss: "GrantR_release_stores ft g used (length (buf v)) = Inr ss"
    and rel: "GrantR_release ft g used v = Inr v'"
  shows "crashes_to ft m ss r \<Longrightarrow> agrees ft v r \<or> agrees ft v' r"
    and "settled ft v' (issue_all ft ss m)"
proof -
  have ok: "ring_ok v" and hd: "rb_header v = MAGIC ft" using m by (auto simp: settled_def)
  obtain d ps where dm: "m = (d, ps)" by (cases m)
  define k where "k = min used (length (slice1 g) + length (slice2 g))"
  define x where "x = as_u32 ((as_usize (rb_read v) + k) mod length (buf v))"
  have k: "k \<le> length (content v)" using grant_for_lengths [OF g] by (simp add: k_def)
  have v': "v' = released ft k v" using rel GrantR_release_eq [OF ok g] by (simp add: k_def)
  have "run_stores ft ss v = v'" using rel unfolding GrantR_release_run_stores ss by simp
  moreover obtain y where y: "ss = [StRead y, StFlush]"
    using ss ecc by (auto simp: GrantR_release_stores_def flush_stores_def Let_def res_bind_eq_Inr)
  ultimately have "y = rb_read v'" by auto
  then have "y = x" by (simp add: v' released_def x_def)
  then have sseq: "ss = [StRead x, StFlush]" using y by simp
  have ok': "ring_ok v'" "rb_header v' = MAGIC ft"
    using released_props [OF ok k] hd by (auto simp: v')
  have durable: "run_stores ft (ps @ [StRead x]) d = v\<lparr>rb_read := x\<rparr>"
    using m by (simp add: dm settled_def volatile_view_def)
  have fin: "agrees ft v' (v\<lparr>rb_read := x\<rparr>)" "agrees ft v' (flush_ecc ft (v\<lparr>rb_read := x\<rparr>))"
    using hd by (auto intro!: agrees_same simp: v' released_def x_def)
  show "settled ft v' (issue_all ft ss m)"
    using ok' fin durable by (simp add: sseq dm settled_def volatile_view_def)
      (simp add: v' released_def x_def)
  assume "crashes_to ft m ss r"
  then obtain j where j: "j \<le> length ss" and r: "crash_image ft (fst (issue_all ft (take j ss) m)) (snd (issue_all ft (take j ss) m)) r"
    by (auto simp: crashes_to_def case_prod_beta)
  from j have "j \<le> 2" by (simp add: sseq)
  then consider "j = 0" | "j = 1" | "j = 2" by linarith
  then show "agrees ft v r \<or> agrees ft v' r"
  proof cases
    case 1
    then show ?thesis using r settled_image [OF m] by simp
  next
    case 2
    then have "crash_image ft d (ps @ [StRead x]) r" using r by (simp add: sseq dm)
    from crash_image_snoc [OF this] obtain r0 where r0: "crash_image ft d ps r0"
      "r = r0 \<or> r = r0\<lparr>rb_read := x\<rparr>" by auto
    have "agrees ft v r0" using settled_image [OF m, of r0] r0(1) by (simp add: dm)
    then show ?thesis using r0(2) agrees_released [OF ok k] by (auto simp: v' x_def)
  next
    case 3
    then have "crash_image ft (v\<lparr>rb_read := x\<rparr>) [StFlush] r"
      using r durable by (simp add: sseq dm)
    from crash_image_flush [OF this] show ?thesis using fin by auto
  qed
qed

subsection \<open>Recovery can itself be interrupted\<close>

text \<open>
  However often recovery is cut short and started again, what it finally finds is what an
  uninterrupted recovery would have found.
\<close>

lemma recover_empty:
  "0 < length (buf v) \<Longrightarrow> \<not> (rb_header v = MAGIC ft \<and> indices_ok v) \<or> rb_read v = rb_write v \<Longrightarrow>
   content (recover ft v) = []"
  by (auto simp: recover_content) (simp add: content_def)

lemma recover_cuts:
  assumes "feat_ecc ft" and "crashes_to ft (v, []) (recover_stores ft v) r"
  obtains j where "j = 0 \<or> j = 1 \<or> j = 2 \<or> j = 3 \<or> j = 4"
    and "crash_image ft (fst (issue_all ft (take j (recover_stores ft v)) (v, [])))
           (snd (issue_all ft (take j (recover_stores ft v)) (v, []))) r"
proof -
  obtain j where j: "j \<le> length (recover_stores ft v)"
    and r: "crash_image ft (fst (issue_all ft (take j (recover_stores ft v)) (v, [])))
              (snd (issue_all ft (take j (recover_stores ft v)) (v, []))) r"
    using assms(2) by (auto simp: crashes_to_def case_prod_beta)
  moreover have "j = 0 \<or> j = 1 \<or> j = 2 \<or> j = 3 \<or> j = 4"
    using j assms(1) by (auto simp: recover_stores_def flush_stores_def Let_def split: if_splits bool.splits)
  ultimately show ?thesis using that by blast
qed

text \<open>
  What a cut leaves of a ring without the magic number, and of one with it: a fresh
  ring is again no ring or an empty one, and every index is the old one or the repaired one.
\<close>

lemma recover_cut_fresh:
  assumes "feat_ecc ft" "rb_header v \<noteq> MAGIC ft" "crashes_to ft (v, []) (recover_stores ft v) r"
  shows "buf r = buf v \<and> (rb_header r \<noteq> MAGIC ft \<or> rb_read r = rb_write r)"
  by (rule recover_cuts [OF assms(1,3)])
    (use assms in \<open>auto simp: recover_stores_def flush_stores_def numeral_eq_Suc
       elim!: crash_image_ConsE crash_image_NilE\<close>)

lemma recover_cut_valid:
  assumes "feat_ecc ft" "rb_header v = MAGIC ft" "indices_ok v" "crashes_to ft (v, []) (recover_stores ft v) r"
  shows "r = v \<or> r = flush_ecc ft v"
  by (rule recover_cuts [OF assms(1,4)])
    (use assms in \<open>auto simp: recover_stores_def flush_stores_def indices_ok_def numeral_eq_Suc
       elim!: crash_image_ConsE crash_image_NilE\<close>)

lemma recover_cut_invalid:
  assumes "feat_ecc ft" "rb_header v = MAGIC ft" "\<not> indices_ok v"
    and "crashes_to ft (v, []) (recover_stores ft v) r"
  shows "buf r = buf v \<and> (rb_read r = rb_write r \<or> \<not> indices_ok r)"
proof -
  consider "as_usize (rb_read v) < length (buf v)" "\<not> as_usize (rb_write v) < length (buf v)"
    | "\<not> as_usize (rb_read v) < length (buf v)" "as_usize (rb_write v) < length (buf v)"
    | "\<not> as_usize (rb_read v) < length (buf v)" "\<not> as_usize (rb_write v) < length (buf v)"
    using assms(3) by (auto simp: indices_ok_def)
  then show ?thesis
    by (cases; rule recover_cuts [OF assms(1,4)])
      (use assms(1,2) in \<open>auto simp: recover_stores_def flush_stores_def indices_ok_def numeral_eq_Suc
         elim!: crash_image_ConsE crash_image_NilE\<close>)
qed

lemma recover_crash:
  assumes len: "0 < length (buf v)" and ecc: "feat_ecc ft"
    and cr: "crashes_to ft (v, []) (recover_stores ft v) r"
  shows "content (recover ft r) = content (recover ft v) \<and> length (buf r) = length (buf v)"
proof -
  consider "rb_header v \<noteq> MAGIC ft" | "rb_header v = MAGIC ft" "indices_ok v"
    | "rb_header v = MAGIC ft" "\<not> indices_ok v" by blast
  then show ?thesis
  proof cases
    case 1
    then show ?thesis using recover_cut_fresh [OF ecc 1 cr] len by (auto simp: recover_empty)
  next
    case 2
    then show ?thesis using recover_cut_valid [OF ecc 2 cr] len by (auto simp: recover_content indices_ok_def)
  next
    case 3
    then show ?thesis using recover_cut_invalid [OF ecc 3 cr] len by (auto simp: recover_empty)
  qed
qed

text \<open>
  The same on memory without a write cache, where the stores made so far are exactly what is left; and
  the two as one relation: \<open>recovery_cut ft v r\<close> if a reset during a recovery that started on \<open>v\<close> leaves \<open>r\<close>.
\<close>

lemma recover_crash_in_order:
  assumes len: "0 < length (buf v)" and cr: "crashes_in_order ft v (recover_stores ft v) r"
  shows "content (recover ft r) = content (recover ft v) \<and> length (buf r) = length (buf v)"
proof -
  obtain j where j: "j \<le> length (recover_stores ft v)" and r: "r = run_stores ft (take j (recover_stores ft v)) v"
    using cr by (auto simp: crashes_in_order_def)
  have j4: "j = 0 \<or> j = 1 \<or> j = 2 \<or> j = 3 \<or> j = 4"
    using j by (auto simp: recover_stores_def flush_stores_def Let_def split: if_splits bool.splits)
  consider "rb_header v \<noteq> MAGIC ft" | "rb_header v = MAGIC ft" "indices_ok v"
    | "rb_header v = MAGIC ft" "\<not> indices_ok v" by blast
  then show ?thesis
  proof cases
    case 1
    then have "buf r = buf v \<and> (rb_header r \<noteq> MAGIC ft \<or> rb_read r = rb_write r)"
      using j4 r by (auto simp: recover_stores_def flush_stores_def numeral_eq_Suc)
    then show ?thesis using 1 len by (auto simp: recover_empty)
  next
    case 2
    then have "r = v \<or> r = flush_ecc ft v"
      using j4 r by (auto simp: recover_stores_def flush_stores_def indices_ok_def numeral_eq_Suc)
    then show ?thesis using len 2 by (auto simp: recover_content indices_ok_def)
  next
    case 3
    then have "buf r = buf v \<and> (rb_read r = rb_write r \<or> \<not> indices_ok r)"
      using j4 r by (cases "as_usize (rb_read v) < length (buf v)"; cases "as_usize (rb_write v) < length (buf v)")
        (auto simp: recover_stores_def flush_stores_def indices_ok_def numeral_eq_Suc)
    then show ?thesis using 3 len by (auto simp: recover_empty)
  qed
qed

definition recovery_cut :: "features \<Rightarrow> ring \<Rightarrow> ring \<Rightarrow> bool" where
  "recovery_cut ft v r \<longleftrightarrow> crashes_in_order ft v (recover_stores ft v) r \<or>
     feat_ecc ft \<and> crashes_to ft (v, []) (recover_stores ft v) r"

lemma recovery_cut_harmless:
  "0 < length (buf v) \<Longrightarrow> recovery_cut ft v r \<Longrightarrow>
   content (recover ft r) = content (recover ft v) \<and> length (buf r) = length (buf v)"
  using recover_crash recover_crash_in_order unfolding recovery_cut_def by blast

lemma recover_settles:
  assumes "0 < length (buf v)" "length (buf v) < max_buf_len" "feat_ecc ft"
  shows "settled ft (recover ft v) (issue_all ft (recover_stores ft v) (v, []))"
proof -
  have vol: "volatile_view ft (issue_all ft (recover_stores ft v) (v, [])) = recover ft v"
    unfolding volatile_issue_all recover_eq_stores by (simp add: volatile_view_def)
  have "agrees ft (recover ft v) (fst (issue_all ft (recover_stores ft v) (v, [])))
    \<and> (\<forall>s\<in>set (snd (issue_all ft (recover_stores ft v) (v, []))). harmless ft (recover ft v) s)"
    using assms(3)
    by (auto simp: recover_stores_def recover_def flush_stores_def Let_def agrees_def split: bool.splits)
  then show ?thesis
    using vol recover_ok [OF assms(1,2)] by (simp add: settled_def)
qed

subsection \<open>In-order memory\<close>

text \<open>Without a write cache every prefix of the stores is already enough, with or without flushes.\<close>

lemma run_prefix_harmless:
  "agrees ft v r \<Longrightarrow> \<forall>s\<in>set ss. harmless ft v s \<Longrightarrow> agrees ft v (run_stores ft (take j ss) r)"
  by (rule agrees_run_harmless) (auto dest: in_set_takeD)

lemma write_in_order:
  assumes ok: "ring_ok v" and hd: "rb_header v = MAGIC ft"
    and ss: "Producer_write_stores ft data (length (buf v)) (as_usize (rb_read v)) (as_usize (rb_write v)) = Inr ss"
    and wr: "Producer_write ft data v = Inr v'" and cr: "crashes_in_order ft v ss r"
  shows "agrees ft v r \<or> agrees ft v' r"
proof -
  let ?n = "length (buf v)" and ?w = "as_usize (rb_write v)"
  define k where "k = min (length data) (space v)"
  obtain j where j: "j \<le> length ss" "r = run_stores ft (take j ss) v"
    using cr by (auto simp: crashes_in_order_def)
  have v': "v' = run_stores ft ss v"
    using wr unfolding Producer_write_run_stores [OF ok] ss by simp
  have hd': "rb_header v' = MAGIC ft" using Producer_write_cases [OF ok wr] hd by simp
  show ?thesis
  proof (cases "k = 0")
    case True
    then have "ss = []" using ss Producer_write_stores_eq [OF ok, of ft data] by (simp flip: k_def)
    then show ?thesis using j agrees_refl [OF hd] by simp
  next
    case False
    define cs where "cs = put_stores ?n ?w data k @ flush_stores ft"
    define x where "x = as_u32 ((?w + k) mod ?n)"
    have sseq: "ss = cs @ StWrite x # flush_stores ft"
      using ss Producer_write_stores_eq [OF ok, of ft data] False
      by (simp add: cs_def x_def flip: k_def)
    have "\<forall>s\<in>set cs. harmless ft v s"
      using put_stores_harmless [OF ok, of k _ data] by (auto simp: cs_def k_def flush_stores_def)
    show ?thesis
    proof (cases "j \<le> length cs")
      case True
      then have "r = run_stores ft (take j cs) v" using j(2) by (simp add: sseq)
      then show ?thesis
        using run_prefix_harmless [OF agrees_refl [OF hd] \<open>\<forall>s\<in>set cs. harmless ft v s\<close>] by simp
    next
      case False
      then have "j = length cs + 1 \<or> take j ss = ss" using j(1)
        by (auto simp: sseq flush_stores_def split: if_splits)
      then have "r = v' \<or> v' = flush_ecc ft r"
      proof
        assume "j = length cs + 1"
        then show ?thesis using j(2) v' by (simp add: sseq)
      qed (simp add: j(2) v')
      then show ?thesis using hd' by (auto intro!: agrees_same)
    qed
  qed
qed

subsection \<open>The life of a device\<close>

text \<open>
  \<open>reboots ft r m\<close>: from the image \<open>r\<close>, after any number of interrupted recoveries, a
  recovery runs to its end and leaves the memory \<open>m\<close>.
\<close>

inductive reboots :: "features \<Rightarrow> ring \<Rightarrow> pmem \<Rightarrow> bool" for ft where
  reboot_done: "reboots ft r (issue_all ft (recover_stores ft r) (r, []))"
| reboot_again: "crashes_to ft (r, []) (recover_stores ft r) r' \<Longrightarrow> reboots ft r' m \<Longrightarrow> reboots ft r m"

datatype device_event =
    Wrote "u8 list"
  | Consumed usize
  | ResetInWrite "u8 list"
  | ResetInConsume usize

inductive device_step :: "features \<Rightarrow> pmem \<Rightarrow> device_event \<Rightarrow> pmem \<Rightarrow> bool" for ft where
  step_write: "v = volatile_view ft m \<Longrightarrow>
    Producer_write_stores ft data (length (buf v)) (as_usize (rb_read v)) (as_usize (rb_write v)) = Inr ss \<Longrightarrow>
    device_step ft m (Wrote data) (issue_all ft ss m)"
| step_consume: "v = volatile_view ft m \<Longrightarrow> Consumer_read v = Inr g \<Longrightarrow>
    GrantR_release_stores ft g k (length (buf v)) = Inr ss \<Longrightarrow>
    device_step ft m (Consumed k) (issue_all ft ss m)"
| step_reset_write: "v = volatile_view ft m \<Longrightarrow>
    Producer_write_stores ft data (length (buf v)) (as_usize (rb_read v)) (as_usize (rb_write v)) = Inr ss \<Longrightarrow>
    crashes_to ft m ss r \<Longrightarrow> reboots ft r m' \<Longrightarrow>
    device_step ft m (ResetInWrite data) m'"
| step_reset_consume: "v = volatile_view ft m \<Longrightarrow> Consumer_read v = Inr g \<Longrightarrow>
    GrantR_release_stores ft g k (length (buf v)) = Inr ss \<Longrightarrow>
    crashes_to ft m ss r \<Longrightarrow> reboots ft r m' \<Longrightarrow>
    device_step ft m (ResetInConsume k) m'"

inductive device_run :: "features \<Rightarrow> pmem \<Rightarrow> device_event list \<Rightarrow> pmem \<Rightarrow> bool" for ft where
  run_nil: "device_run ft m [] m"
| run_step: "device_step ft m e m1 \<Longrightarrow> device_run ft m1 es m2 \<Longrightarrow> device_run ft m (e # es) m2"

text \<open>What the log promises: a bounded queue in which an interrupted operation happens or does not.\<close>

fun spec_event :: "nat \<Rightarrow> device_event \<Rightarrow> u8 list \<Rightarrow> u8 list \<Rightarrow> bool" where
  "spec_event cap (Wrote d) q q' = (q' = q @ take (cap - length q) d)"
| "spec_event cap (Consumed k) q q' = (q' = drop k q)"
| "spec_event cap (ResetInWrite d) q q' = (q' = q \<or> q' = q @ take (cap - length q) d)"
| "spec_event cap (ResetInConsume k) q q' = (q' = q \<or> q' = drop k q)"

inductive spec_events :: "nat \<Rightarrow> device_event list \<Rightarrow> u8 list \<Rightarrow> u8 list \<Rightarrow> bool" for cap where
  spec_nil: "spec_events cap [] q q"
| spec_cons: "spec_event cap e q q1 \<Longrightarrow> spec_events cap es q1 q2 \<Longrightarrow> spec_events cap (e # es) q q2"

inductive_simps spec_events_simps: "spec_events cap [] q q'" "spec_events cap (e # es) q q'"

lemma reboots_settled:
  assumes "reboots ft r m" "0 < length (buf r)" "length (buf r) < max_buf_len" "feat_ecc ft"
  shows "\<exists>v. settled ft v m \<and> content v = content (recover ft r) \<and> length (buf v) = length (buf r)"
  using assms
proof (induction rule: reboots.induct)
  case (reboot_done r)
  then show ?case using recover_settles [of r ft] by (intro exI [of _ "recover ft r"]) simp
next
  case (reboot_again r r' m)
  then show ?case using recover_crash [of r ft r'] by fastforce
qed

lemma image_reboots:
  assumes "ring_ok v" "agrees ft v r" "reboots ft r m" "feat_ecc ft"
  shows "\<exists>v'. settled ft v' m \<and> content v' = content v \<and> length (buf v') = length (buf v)"
proof -
  have "length (buf r) = length (buf v)" "0 < length (buf r)" "length (buf r) < max_buf_len"
    using assms(1,2) by (auto simp: ring_ok_def agrees_def)
  then show ?thesis
    using reboots_settled [OF assms(3)] agrees_recover [OF assms(1,2)] assms(4) by auto
qed

text \<open>The two operations of the device, complete: what the ring holds after each.\<close>

lemma write_result:
  assumes "ring_ok v"
  shows "\<exists>v'. Producer_write ft data v = Inr v' \<and> ring_ok v' \<and> length (buf v') = length (buf v) \<and>
     content v' = content v @ take (length (buf v) - 1 - length (content v)) data"
  using ring_queue.push_total [OF assms] Producer_write_cases [OF assms] by (metis space_def)

lemma release_result:
  assumes ok: "ring_ok v" and g: "Consumer_read v = Inr g"
  shows "\<exists>v'. GrantR_release ft g k v = Inr v' \<and> ring_ok v' \<and> length (buf v') = length (buf v) \<and>
     content v' = drop k (content v) \<and> grant_for g v"
proof -
  have "GrantR_release ft g k v = Inr (released ft (min k (length (content v))) v)"
    using consume_eq [OF ok, of ft k] g by (simp add: consume_def)
  moreover have "grant_for g v" using Consumer_read_grant [OF ok] g by auto
  ultimately show ?thesis using released_props [OF ok min.cobounded2 [of k]] by (simp add: min_def)
qed

lemma device_step_refines:
  assumes step: "device_step ft m e m'" and st: "settled ft v m" and ecc: "feat_ecc ft"
  shows "\<exists>v'. settled ft v' m' \<and> length (buf v') = length (buf v) \<and>
     spec_event (length (buf v) - 1) e (content v) (content v')"
proof -
  have ok: "ring_ok v" and vol: "volatile_view ft m = v" using st by (auto simp: settled_def)
  from step show ?thesis
  proof cases
    case (step_write w data ss)
    obtain v' where v': "Producer_write ft data v = Inr v'" "length (buf v') = length (buf v)"
      "content v' = content v @ take (length (buf v) - 1 - length (content v)) data"
      using write_result [OF ok, of ft data] by blast
    then show ?thesis using step_write vol write_crash(2) [OF st ecc, of data ss v'] by auto
  next
    case (step_consume w g k ss)
    then have g: "Consumer_read v = Inr g" using vol by simp
    obtain v' where v': "GrantR_release ft g k v = Inr v'" "length (buf v') = length (buf v)"
      "content v' = drop k (content v)" "grant_for g v" using release_result [OF ok g, of ft k] by blast
    then show ?thesis using step_consume vol release_crash(2) [OF st ecc v'(4), of k ss v'] by auto
  next
    case (step_reset_write w data ss r)
    obtain v' where v': "Producer_write ft data v = Inr v'" "ring_ok v'" "length (buf v') = length (buf v)"
      "content v' = content v @ take (length (buf v) - 1 - length (content v)) data"
      using write_result [OF ok, of ft data] by blast
    have "agrees ft v r \<or> agrees ft v' r"
      using write_crash(1) [OF st ecc _ v'(1), of ss r] step_reset_write vol by simp
    then show ?thesis
      using image_reboots [OF ok _ step_reset_write(5) ecc] image_reboots [OF v'(2) _ step_reset_write(5) ecc]
        v' step_reset_write(1) by fastforce
  next
    case (step_reset_consume w g k ss r)
    then have g: "Consumer_read v = Inr g" using vol by simp
    obtain v' where v': "GrantR_release ft g k v = Inr v'" "ring_ok v'" "length (buf v') = length (buf v)"
      "content v' = drop k (content v)" "grant_for g v" using release_result [OF ok g, of ft k] by blast
    have "agrees ft v r \<or> agrees ft v' r"
      using release_crash(1) [OF st ecc v'(5) _ v'(1), of ss r] step_reset_consume vol by simp
    then show ?thesis
      using image_reboots [OF ok _ step_reset_consume(6) ecc] image_reboots [OF v'(2) _ step_reset_consume(6) ecc]
        v' step_reset_consume(1) by fastforce
  qed
qed

lemma device_run_refines_settled:
  assumes "device_run ft m es m'" "settled ft v m" "feat_ecc ft"
  shows "\<exists>v'. settled ft v' m' \<and> length (buf v') = length (buf v) \<and>
     spec_events (length (buf v) - 1) es (content v) (content v')"
  using assms
proof (induction arbitrary: v rule: device_run.induct)
  case (run_nil m)
  then show ?case by (auto intro: spec_nil)
next
  case (run_step m e m1 es m2)
  obtain v1 where v1: "settled ft v1 m1" "length (buf v1) = length (buf v)"
    "spec_event (length (buf v) - 1) e (content v) (content v1)"
    using device_step_refines [OF run_step.hyps(1) run_step.prems] by blast
  then show ?case using run_step.IH [OF v1(1) run_step.prems(2)] by (fastforce intro: spec_cons)
qed

subsection \<open>Properties\<close>

text \<open>
  C4: with the \<open>ecc\<close> feature, and with a reset allowed after any store of any operation and
  any subset of the unflushed stores lost, every history of a device is a history of a bounded
  queue in which an interrupted write or release either happened completely or not at all, and
  every completed one happened. Recovery may itself be interrupted any number of times.
\<close>

theorem device_run_refines_queue:
  assumes "feat_ecc ft" and "ring_ok v" and "rb_header v = MAGIC ft"
    and "device_run ft (v, []) es m"
  shows "spec_events (length (buf v) - 1) es (content v) (content (volatile_view ft m)) \<and>
     ring_ok (volatile_view ft m)"
  using device_run_refines_settled [OF assms(4) settled_start [OF assms(2,3)] assms(1)]
  by (auto simp: settled_def)

text \<open>A history for the witness: a write that a reset interrupts before its index is stored.\<close>

lemma default_ecc: "feat_ecc default_features"
  by (simp add: default_features_def)

theorem device_run_refines_queue_witness:
  "\<exists>m. device_run default_features (RingBuffer_new default_features 0 1 [5, 0, 0, 0], [])
       [ResetInWrite [6, 7]] m \<and>
     content (volatile_view default_features m) \<in> {[5], [5, 6, 7]}"
proof -
  let ?v = "RingBuffer_new default_features 0 1 [5, 0, 0, 0]"
  have ok: "ring_ok ?v" and c: "content ?v = [5]" by (simp_all add: ring_eval)
  obtain ss where ss: "Producer_write_stores default_features [6, 7] (length (buf ?v))
      (as_usize (rb_read ?v)) (as_usize (rb_write ?v)) = Inr ss"
    using Producer_write_stores_eq [OF ok] by blast
  have v: "volatile_view default_features (?v, []) = ?v" by (simp add: volatile_view_def)
  have "crashes_to default_features (?v, []) ss ?v"
    by (auto simp: crashes_to_def intro!: exI [of _ 0] crash_done)
  then obtain m where step: "device_step default_features (?v, []) (ResetInWrite [6, 7]) m"
    using step_reset_write [OF v [symmetric] ss _ reboot_done] by blast
  have run: "device_run default_features (?v, []) [ResetInWrite [6, 7]] m"
    using step by (blast intro: run_step run_nil)
  then have "spec_events (length (buf ?v) - 1) [ResetInWrite [6, 7]] (content ?v)
      (content (volatile_view default_features m))"
    using device_run_refines_queue [OF default_ecc ok RingBuffer_new_fields(4) run] by blast
  then have "content (volatile_view default_features m) \<in> {[5], [5, 6, 7]}"
    unfolding c by (auto simp: spec_events_simps)
  then show ?thesis using run by blast
qed

text \<open>
  C21: a recovery may be interrupted by a reset any number of times in a row, each time at any store, and
  each time started again: the recovery that completes finds exactly the bytes that an uninterrupted one would have
  presented. This holds on memory without a write cache, with and without the \<open>ecc\<close> feature, and on memory
  with one when the \<open>ecc\<close> feature is on, whatever subset of the unflushed stores each reset loses.
  In particular no interrupted repair leaves indices that look valid and non-empty.
\<close>

theorem interrupted_recovery_harmless:
  assumes "0 < length (buf v)" and "(recovery_cut ft)\<^sup>*\<^sup>* v r"
  shows "content (recover ft r) = content (recover ft v) \<and> length (buf r) = length (buf v)"
  using assms(2)
proof (induction rule: rtranclp_induct)
  case (step r r')
  then show ?case using recovery_cut_harmless [of r ft r'] assms(1) by simp
qed simp

theorem interrupted_recovery_harmless_witness:
  "\<exists>w. recovery_cut default_features (RingBuffer_new default_features 9 9 [1, 2, 3, 4]) w \<and>
     recovery_cut default_features w (RingBuffer_new default_features 0 0 [1, 2, 3, 4]) \<and>
     content (recover default_features (RingBuffer_new default_features 0 0 [1, 2, 3, 4])) = []"
proof -
  let ?v = "RingBuffer_new default_features 9 9 [1, 2, 3, 4]" and ?w = "RingBuffer_new default_features 0 9 [1, 2, 3, 4]"
    and ?r = "RingBuffer_new default_features 0 0 [1, 2, 3, 4]"
  have ss: "recover_stores default_features ?v = [StRead 0, StWrite 0, StFlush]"
    "recover_stores default_features ?w = [StWrite 0, StFlush]"
    by (simp_all add: recover_stores_def flush_stores_def default_ecc)
  have "crash_image default_features ?v [StRead 0] ?w"
    by (rule crash_keep) (simp add: RingBuffer_new_def crash_done)
  then have c1: "recovery_cut default_features ?v ?w"
    unfolding recovery_cut_def ss crashes_to_def by (intro disjI2 conjI exI [of _ 1]) (simp_all add: default_ecc)
  have c2: "recovery_cut default_features ?w ?r"
    unfolding recovery_cut_def ss crashes_in_order_def by (intro disjI1 exI [of _ 1]) (simp add: RingBuffer_new_def)
  have "content (recover default_features ?v) = []" by (simp add: recover_content indices_ok_def)
  moreover have "(recovery_cut default_features)\<^sup>*\<^sup>* ?v ?r"
  proof (rule rtranclp.rtrancl_into_rtrancl)
    show "(recovery_cut default_features)\<^sup>*\<^sup>* ?v ?w" by (rule r_into_rtranclp) (rule c1)
  qed (rule c2)
  ultimately have "content (recover default_features ?r) = []"
    using interrupted_recovery_harmless [of ?v default_features ?r] by simp
  then show ?thesis using c1 c2 by blast
qed

text \<open>
  C32: on memory without a write cache a reset after any store of a write leaves either the
  content before or the content after it, with and without the \<open>ecc\<close> feature.
\<close>

theorem write_atomic_in_order:
  assumes "ring_ok v" and "rb_header v = MAGIC ft"
    and "Producer_write_stores ft data (length (buf v)) (as_usize (rb_read v)) (as_usize (rb_write v)) = Inr ss"
    and "crashes_in_order ft v ss r"
  shows "content (recover ft r) = content v \<or>
     content (recover ft r) = content v @ take (length (buf v) - 1 - length (content v)) data"
proof -
  obtain v' where v': "Producer_write ft data v = Inr v'"
    using ring_queue.push_total [OF assms(1)] by blast
  note w = Producer_write_cases [OF assms(1) v']
  have "agrees ft v r \<or> agrees ft v' r" by (rule write_in_order [OF assms(1-3) v' assms(4)])
  then show ?thesis
    using agrees_recover [OF assms(1)] agrees_recover [OF w(2)] w(1) unfolding space_def by auto
qed

theorem write_atomic_in_order_witness:
  "\<exists>ss. Producer_write_stores default_features [6, 7] 4 0 1 = Inr ss \<and>
     (\<exists>r. crashes_in_order default_features (RingBuffer_new default_features 0 1 [5, 0, 0, 0]) ss r \<and>
          content (recover default_features r) \<in> {[5], [5, 6, 7]})"
proof -
  let ?v = "RingBuffer_new default_features 0 1 [5, 0, 0, 0]"
  have ok: "ring_ok ?v" and c: "content ?v = [5]" by (simp_all add: ring_eval)
  obtain ss where ss: "Producer_write_stores default_features [6, 7] (length (buf ?v))
      (as_usize (rb_read ?v)) (as_usize (rb_write ?v)) = Inr ss"
    using Producer_write_stores_eq [OF ok] by blast
  have f: "length (buf ?v) = 4" "as_usize (rb_read ?v) = 0" "as_usize (rb_write ?v) = 1" by simp_all
  have cr: "crashes_in_order default_features ?v ss ?v"
    by (auto simp: crashes_in_order_def intro!: exI [of _ 0])
  show ?thesis
    using write_atomic_in_order [OF ok RingBuffer_new_fields(4) ss cr] ss [unfolded f] cr unfolding c by auto
qed

text \<open>
  The flush between the data and the index is needed: without it (the \<open>ecc\<close> feature off on
  memory with a write cache) the index of a write can reach the memory while its data does not,
  and recovery then presents a byte that was never logged.
\<close>

lemma missing_flush_loses_data:
  "\<exists>ft v ss r. \<not> feat_ecc ft \<and> ring_ok v \<and> rb_header v = MAGIC ft \<and>
     Producer_write_stores ft [6] (length (buf v)) (as_usize (rb_read v)) (as_usize (rb_write v)) = Inr ss \<and>
     crashes_to ft (v, []) ss r \<and>
     content v = [5] \<and> content (recover ft r) = [5, 0]"
proof -
  let ?ft = "default_features\<lparr>feat_ecc := False\<rparr>"
  let ?v = "RingBuffer_new ?ft 0 1 [5, 0, 0, 0]" and ?r = "RingBuffer_new ?ft 0 2 [5, 0, 0, 0]"
  have ok: "ring_ok ?v" "content ?v = [5]" by (simp_all add: ring_eval)
  have ss: "Producer_write_stores ?ft [6] (length (buf ?v)) (as_usize (rb_read ?v)) (as_usize (rb_write ?v))
      = Inr [StByte 1 6, StWrite 2]"
    using Producer_write_stores_eq [OF ok(1), of ?ft "[6]"]
    by (simp add: ring_eval put_stores_def copy_stores_def flush_stores_def as_u32_def)
  have "crash_image ?ft ?v [StByte 1 6, StWrite 2] ?r"
    by (rule crash_lose, rule crash_keep) (simp add: RingBuffer_new_def crash_done)
  then have "crashes_to ?ft (?v, []) [StByte 1 6, StWrite 2] ?r"
    by (auto simp: crashes_to_def intro!: exI [of _ 2])
  moreover have "content (recover ?ft ?r) = [5, 0]"
    by (simp add: recover_content indices_ok_def ring_eval)
  ultimately show ?thesis using ok ss
    by (intro exI [of _ ?ft] exI [of _ ?v] exI [of _ "[StByte 1 6, StWrite 2]"] exI [of _ ?r]) simp
qed

end
