(* ===== verification/Spsc.thy ===== *)
theory Spsc
  imports Crash
begin

text \<open>
  The producer and the consumer at the same time. \<open>Producer::write\<close> runs in the context that
  logs, which may interrupt the consumer anywhere (or be interrupted, or run on another core);
  the two share the header and the buffer without a lock. Each side is a small state machine
  whose steps are the single loads and stores of the code, in program order; the steps of the
  two sides interleave freely. The consumer's grant is a pair of references into the buffer:
  the model keeps the bytes they point to at the time of the read, and shows that the memory
  still holds these bytes at any later time up to the release.

  Assumed: a load returns the last value stored. The orderings of the code (\<open>Release\<close> stores
  and \<open>Acquire\<close> loads of the two indices) are what makes this true of the bytes behind an index.
\<close>

subsection \<open>The two sides\<close>

text \<open>
  \<open>PLoaded\<close> is \<open>Producer::write\<close> with \<open>read\<close> loaded; \<open>PStoring\<close> holds the stores still to be
  made, and \<open>len\<close> bytes of the argument that they publish. \<open>CLoaded\<close> is \<open>Consumer::read\<close> with
  \<open>write\<close> loaded; \<open>CGrant\<close> has a grant alive; \<open>CReleasing\<close> is inside \<open>GrantR::release\<close>.
\<close>

datatype producer =
    PIdle
  | PLoaded "u8 list" usize
  | PStoring "u8 list" "u8 list" "store list"
  | PFault fault

datatype consumer =
    CIdle
  | CLoaded usize
  | CGrant GrantR
  | CReleasing "u8 list" "store list"
  | CFault fault

record spsc =
  mem :: ring
  prod :: producer
  cons :: consumer

datatype spsc_event =
    PInternal
  | WriteCall "u8 list"
  | Published "u8 list" "u8 list"
  | CInternal
  | Released "u8 list"

text \<open>The rest of \<open>Producer::write\<close> once \<open>read\<close> is loaded; \<open>write\<close> is the producer's own.\<close>

definition write_rest :: "features \<Rightarrow> u8 list \<Rightarrow> usize \<Rightarrow> ring \<Rightarrow> producer" where
  "write_rest ft data read v =
     (let write = as_usize (rb_write v); buf_len = length (buf v) in
      case Producer_available buf_len read write of
        Inl e \<Rightarrow> PFault e
      | Inr av \<Rightarrow>
          (case Producer_write_stores ft data buf_len read write of
             Inl e \<Rightarrow> PFault e
           | Inr ss \<Rightarrow> PStoring data (take av data) ss))"

text \<open>The rest of \<open>Consumer::read\<close> once \<open>write\<close> is loaded; \<open>read\<close> is the consumer's own.\<close>

definition read_rest :: "usize \<Rightarrow> ring \<Rightarrow> consumer" where
  "read_rest write v =
     (case Consumer_read (v\<lparr>rb_write := as_u32 write\<rparr>) of Inl e \<Rightarrow> CFault e | Inr g \<Rightarrow> CGrant g)"

definition release_rest :: "features \<Rightarrow> GrantR \<Rightarrow> usize \<Rightarrow> ring \<Rightarrow> consumer" where
  "release_rest ft g used v =
     (case GrantR_release_stores ft g used (length (buf v)) of
        Inl e \<Rightarrow> CFault e
      | Inr ss \<Rightarrow> CReleasing (take used (slice1 g @ slice2 g)) ss)"

fun producer_event :: "u8 list \<Rightarrow> u8 list \<Rightarrow> store \<Rightarrow> spsc_event" where
  "producer_event data d (StWrite x) = Published data d"
| "producer_event data d _ = PInternal"

fun consumer_event :: "u8 list \<Rightarrow> store \<Rightarrow> spsc_event" where
  "consumer_event d (StRead x) = Released d"
| "consumer_event d _ = CInternal"

inductive spsc_step :: "features \<Rightarrow> spsc \<Rightarrow> spsc_event \<Rightarrow> spsc \<Rightarrow> bool" for ft where
  write_call: "prod s = PIdle \<Longrightarrow>
     spsc_step ft s (WriteCall data) (s\<lparr>prod := PLoaded data (as_usize (rb_read (mem s)))\<rparr>)"
| write_plan: "prod s = PLoaded data read \<Longrightarrow>
     spsc_step ft s PInternal (s\<lparr>prod := write_rest ft data read (mem s)\<rparr>)"
| write_store: "prod s = PStoring data d (st # ss) \<Longrightarrow>
     spsc_step ft s (producer_event data d st)
       (s\<lparr>mem := apply_store ft st (mem s), prod := PStoring data d ss\<rparr>)"
| write_return: "prod s = PStoring data d [] \<Longrightarrow> spsc_step ft s PInternal (s\<lparr>prod := PIdle\<rparr>)"
| read_call: "cons s = CIdle \<Longrightarrow>
     spsc_step ft s CInternal (s\<lparr>cons := CLoaded (as_usize (rb_write (mem s)))\<rparr>)"
| read_return: "cons s = CLoaded write \<Longrightarrow>
     spsc_step ft s CInternal (s\<lparr>cons := read_rest write (mem s)\<rparr>)"
| drop_grant: "cons s = CGrant g \<Longrightarrow> spsc_step ft s CInternal (s\<lparr>cons := CIdle\<rparr>)"
| release_call: "cons s = CGrant g \<Longrightarrow>
     spsc_step ft s CInternal (s\<lparr>cons := release_rest ft g used (mem s)\<rparr>)"
| release_store: "cons s = CReleasing d (st # ss) \<Longrightarrow>
     spsc_step ft s (consumer_event d st)
       (s\<lparr>mem := apply_store ft st (mem s), cons := CReleasing d ss\<rparr>)"
| release_return: "cons s = CReleasing d [] \<Longrightarrow> spsc_step ft s CInternal (s\<lparr>cons := CIdle\<rparr>)"

inductive_cases spsc_stepE: "spsc_step ft s e t"

inductive spsc_run :: "features \<Rightarrow> spsc \<Rightarrow> spsc_event list \<Rightarrow> spsc \<Rightarrow> bool" for ft where
  run_none: "spsc_run ft s [] s"
| run_more: "spsc_run ft s es t \<Longrightarrow> spsc_step ft t e u \<Longrightarrow> spsc_run ft s (es @ [e]) u"

text \<open>What the events say was published and released.\<close>

fun published :: "spsc_event list \<Rightarrow> u8 list" where
  "published [] = []"
| "published (Published data d # es) = d @ published es"
| "published (_ # es) = published es"

fun released_bytes :: "spsc_event list \<Rightarrow> u8 list" where
  "released_bytes [] = []"
| "released_bytes (Released d # es) = d @ released_bytes es"
| "released_bytes (_ # es) = released_bytes es"

definition quiet :: "ring \<Rightarrow> spsc" where
  "quiet v = \<lparr>mem = v, prod = PIdle, cons = CIdle\<rparr>"

subsection \<open>The invariant\<close>

text \<open>
  \<open>upcoming ft v d ss\<close>: the stores still to be made will put \<open>d\<close> behind the content, touch no
  owned position before the index store, and then move the index once; or the index store is
  done and only flushes are left.
\<close>

definition upcoming :: "features \<Rightarrow> ring \<Rightarrow> u8 list \<Rightarrow> store list \<Rightarrow> bool" where
  "upcoming ft v d ss \<longleftrightarrow> set ss \<subseteq> {StFlush} \<or>
     (\<exists>as fs. let n = length (buf v); w = as_usize (rb_write v) in
        ss = as @ [StWrite (as_u32 ((w + length d) mod n))] @ fs \<and> set fs \<subseteq> {StFlush} \<and>
        length d \<le> space v \<and>
        (\<forall>s\<in>set as. s = StFlush \<or> (\<exists>i b. s = StByte i b \<and>
           i < n \<and> \<not> circ_owned (as_usize (rb_read v)) w i)) \<and>
        (\<forall>j<length d. buf (run_stores ft as v) ! circ_pos n w j = d ! j))"

fun producer_ok :: "features \<Rightarrow> ring \<Rightarrow> producer \<Rightarrow> bool" where
  "producer_ok ft v PIdle = True"
| "producer_ok ft v (PLoaded data read) =
     (read < length (buf v) \<and> circ_free (length (buf v)) read (as_usize (rb_write v)) \<le> space v)"
| "producer_ok ft v (PStoring data d ss) = ((\<exists>k. d = take k data) \<and> upcoming ft v d ss)"
| "producer_ok ft v (PFault e) = False"

fun consumer_ok :: "features \<Rightarrow> ring \<Rightarrow> consumer \<Rightarrow> bool" where
  "consumer_ok ft v CIdle = True"
| "consumer_ok ft v (CLoaded write) =
     (write < length (buf v) \<and> circ_len (length (buf v)) (as_usize (rb_read v)) write \<le> length (content v))"
| "consumer_ok ft v (CGrant g) = grant_for g v"
| "consumer_ok ft v (CReleasing d ss) = (set ss \<subseteq> {StFlush} \<or>
     (\<exists>fs. ss = StRead (as_u32 ((as_usize (rb_read v) + length d) mod length (buf v))) # fs \<and>
        set fs \<subseteq> {StFlush} \<and> d = take (length d) (content v)))"
| "consumer_ok ft v (CFault e) = False"

definition spsc_ok :: "features \<Rightarrow> spsc \<Rightarrow> bool" where
  "spsc_ok ft s \<longleftrightarrow> ring_ok (mem s) \<and> producer_ok ft (mem s) (prod s) \<and> consumer_ok ft (mem s) (cons s)"

subsection \<open>The producer's steps\<close>

lemma buf_run_cong: "buf v = buf v' \<Longrightarrow> buf (run_stores ft ss v) = buf (run_stores ft ss v')"
proof (induction ss arbitrary: v v')
  case (Cons s ss)
  have "buf (apply_store ft s v) = buf (apply_store ft s v')" using Cons.prems by (cases s) simp_all
  from Cons.IH [OF this] show ?case by simp
qed simp

lemma nth_circ_put_pos:
  "w < length b \<Longrightarrow> length d \<le> length b \<Longrightarrow> j < length d \<Longrightarrow>
   circ_put b w d ! circ_pos (length b) w j = d ! j"
  for b d :: "'a list"
proof -
  assume a: "w < length b" "length d \<le> length b" "j < length d"
  show ?thesis
  proof (cases "w + j < length b")
    case True
    then show ?thesis using a nth_circ_put [OF a(1,2), of "w + j"] by (simp add: circ_pos_def)
  next
    case False
    then have "circ_pos (length b) w j = w + j - length b"
      using a by (simp add: circ_pos_def mod_one_turn)
    then show ?thesis using a False nth_circ_put [OF a(1,2), of "w + j - length b"] by auto
  qed
qed

lemma put_stores_bound: "w < n \<Longrightarrow> k < n \<Longrightarrow> s \<in> set (put_stores n w data k) \<Longrightarrow> \<exists>i b. s = StByte i b \<and> i < n"
  by (auto simp: put_stores_def copy_stores_def split: if_splits)

text \<open>The stores of a whole write, seen from the state they start in, are what the producer may do.\<close>

lemma write_upcoming:
  assumes ok: "ring_ok v" and k: "k \<le> space v" "k < length (buf v)" "k \<le> length data"
  shows "upcoming ft v (take k data) (put_stores (length (buf v)) (as_usize (rb_write v)) data k @ flush_stores ft
     @ [StWrite (as_u32 ((as_usize (rb_write v) + k) mod length (buf v)))] @ flush_stores ft)"
  unfolding upcoming_def Let_def
proof (intro disjI2 exI conjI)
  let ?n = "length (buf v)" and ?w = "as_usize (rb_write v)"
  have w: "?w < ?n" using ok by (simp add: ring_ok_def)
  have fs: "set (flush_stores ft) \<subseteq> {StFlush}" by (auto simp: flush_stores_def)
  show "put_stores ?n ?w data k @ flush_stores ft @ [StWrite (as_u32 ((?w + k) mod ?n))] @ flush_stores ft
      = (put_stores ?n ?w data k @ flush_stores ft)
        @ [StWrite (as_u32 ((?w + length (take k data)) mod ?n))] @ flush_stores ft"
    using k by simp
  show "\<forall>s\<in>set (put_stores ?n ?w data k @ flush_stores ft). s = StFlush \<or> (\<exists>i b. s = StByte i b \<and>
         i < ?n \<and> \<not> circ_owned (as_usize (rb_read v)) ?w i)"
  proof
    fix s assume s: "s \<in> set (put_stores ?n ?w data k @ flush_stores ft)"
    then consider "s \<in> set (put_stores ?n ?w data k)" | "s = StFlush" using fs by auto
    then show "s = StFlush \<or> (\<exists>i b. s = StByte i b \<and>
         i < ?n \<and> \<not> circ_owned (as_usize (rb_read v)) ?w i)"
    proof cases
      case 1
      then have "s \<in> range (\<lambda>(i, b). StByte i b)"
        by (auto simp: put_stores_def copy_stores_def split: if_splits)
      then show ?thesis using put_stores_harmless [OF ok k(1) 1, of ft] put_stores_bound [OF w k(2) 1] by auto
    qed simp
  qed
  show "\<forall>j<length (take k data). buf (run_stores ft (put_stores ?n ?w data k @ flush_stores ft) v)
      ! circ_pos ?n ?w j = take k data ! j"
    using k run_put_stores [OF w k(2,3), of ft] nth_circ_put_pos [OF w, of "take k data"] by simp
  show "set (flush_stores ft) \<subseteq> {StFlush}" by (fact fs)
qed (use k in simp_all)

text \<open>\<open>Producer::write\<close> with a stale \<open>read\<close> underestimates the space, and is safe.\<close>

lemma write_rest_ok:
  assumes ok: "ring_ok v" and p: "producer_ok ft v (PLoaded data read)"
  shows "producer_ok ft v (write_rest ft data read v)"
proof -
  let ?n = "length (buf v)" and ?w = "as_usize (rb_write v)"
  define v' where "v' = v\<lparr>rb_read := as_u32 read\<rparr>"
  define k where "k = min (length data) (circ_free ?n read ?w)"
  have read: "read < ?n" "read < usize_limit" and free: "circ_free ?n read ?w \<le> space v"
    using p ok ring_ok_limit [OF ok] by auto
  have ok': "ring_ok v'" using ok read by (simp add: v'_def ring_ok_def)
  have av: "Producer_available ?n read ?w = Inr (circ_free ?n read ?w)"
    using Producer_available_eq read ok ring_ok_limit [OF ok] by (simp add: ring_ok_def)
  have eqs: "length (buf v') = ?n" "as_usize (rb_read v') = read" "rb_write v' = rb_write v"
    "space v' = circ_free ?n read ?w"
    using space_eq [OF ok'] read by (simp_all add: v'_def)
  have ss: "Producer_write_stores ft data ?n read ?w =
      Inr (if k = 0 then [] else put_stores ?n ?w data k @ flush_stores ft
             @ [StWrite (as_u32 ((?w + k) mod ?n))] @ flush_stores ft)"
    using Producer_write_stores_eq [OF ok', of ft data] unfolding eqs k_def .
  have len: "length (take (circ_free ?n read ?w) data) = k" by (simp add: k_def min.commute)
  have k: "k \<le> space v" "k < ?n" "k \<le> length data" "?w < ?n" "take (circ_free ?n read ?w) data = take k data"
    using free space_less [OF ok] ok by (auto simp: k_def ring_ok_def min_def)
  note write_upcoming [OF ok k(1-3), of ft]
  moreover have "upcoming ft v (take k data) []" by (simp add: upcoming_def)
  ultimately show ?thesis
    by (auto simp: write_rest_def Let_def av ss k(5))
qed

text \<open>One store of the producer: only the index store changes the content, by appending.\<close>

lemma content_free_byte:
  assumes ok: "ring_ok v" and i: "i < length (buf v) \<longrightarrow> \<not> circ_owned (as_usize (rb_read v)) (as_usize (rb_write v)) i"
  shows "content (v\<lparr>buf := (buf v)[i := b]\<rparr>) = content v"
proof -
  have "circ_content ((buf v)[i := b]) (as_usize (rb_read v)) (as_usize (rb_write v)) = content v"
    unfolding content_def
    by (rule circ_content_cong [OF ring_ok_circ [OF ok]]) (simp, metis i nth_list_update_neq)
  then show ?thesis by (simp add: content_def)
qed

lemma producer_store:
  assumes ok: "ring_ok v" and up: "upcoming ft v d (st # ss)"
  defines "v' \<equiv> apply_store ft st v"
  shows "ring_ok v'" "upcoming ft v' d ss" "rb_read v' = rb_read v" "length (buf v') = length (buf v)"
    "content v' = content v @ published [producer_event data d st]"
    "released_bytes [producer_event data d st] = []"
proof -
  let ?n = "length (buf v)" and ?w = "as_usize (rb_write v)" and ?r = "as_usize (rb_read v)"
  consider (flush) "st = StFlush" "set ss \<subseteq> {StFlush}"
    | (pre) as fs where "st # ss = as @ [StWrite (as_u32 ((?w + length d) mod ?n))] @ fs" "set fs \<subseteq> {StFlush}"
      "length d \<le> space v"
      "\<forall>s\<in>set as. s = StFlush \<or> (\<exists>i b. s = StByte i b \<and> i < ?n \<and> \<not> circ_owned ?r ?w i)"
      "\<forall>j<length d. buf (run_stores ft as v) ! circ_pos ?n ?w j = d ! j"
    using up unfolding upcoming_def Let_def by auto
  then have "ring_ok v' \<and> upcoming ft v' d ss \<and> rb_read v' = rb_read v \<and> length (buf v') = length (buf v) \<and>
      content v' = content v @ published [producer_event data d st] \<and>
      released_bytes [producer_event data d st] = []"
  proof cases
    case flush
    then show ?thesis using ok by (simp add: v'_def upcoming_def)
  next
    case pre
    show ?thesis
    proof (cases as)
      case Nil
      then have st: "st = StWrite (as_u32 ((?w + length d) mod ?n))" "ss = fs" using pre(1) by auto
      have fits: "length d \<le> circ_free ?n ?r ?w" using pre(3) space_eq [OF ok] by simp
      have "circ_content (buf v) ?r ((?w + length d) mod ?n) = content v @ d"
        unfolding content_def
        by (rule circ_content_extend [OF ring_ok_circ [OF ok] refl fits]) (use pre(5) Nil in auto)
      then have c: "content v' = content v @ d"
        by (simp add: v'_def st content_def as_usize_mod [OF ok])
      have "ring_ok v'"
        using ok by (auto simp: v'_def st ring_ok_def as_usize_mod [OF ok] intro: mod_less_some)
      then show ?thesis using c pre(2) st by (simp add: v'_def upcoming_def)
    next
      case (Cons a as')
      then have st: "st = a" "ss = as' @ [StWrite (as_u32 ((?w + length d) mod ?n))] @ fs" using pre(1) by auto
      have same: "ring_ok v'" "content v' = content v" "rb_read v' = rb_read v" "rb_write v' = rb_write v"
        "length (buf v') = length (buf v)" "producer_event data d st = PInternal"
        using pre(4) ok content_free_byte [OF ok] by (auto simp: v'_def st Cons ring_ok_def)
      have "upcoming ft v' d ss"
        unfolding upcoming_def Let_def
        by (intro disjI2 exI [of _ as'] exI [of _ fs])
          (use pre same st in \<open>auto simp: space_def Cons v'_def\<close>)
      then show ?thesis using same by simp
    qed
  qed
  then show "ring_ok v'" "upcoming ft v' d ss" "rb_read v' = rb_read v" "length (buf v') = length (buf v)"
    "content v' = content v @ published [producer_event data d st]"
    "released_bytes [producer_event data d st] = []" by blast+
qed

text \<open>The consumer does not notice: what it holds stays true when content is appended.\<close>

lemma consumer_ok_append:
  assumes c: "consumer_ok ft v c" and same: "rb_read v' = rb_read v" "length (buf v') = length (buf v)"
    and app: "content v' = content v @ d"
  shows "consumer_ok ft v' c"
proof (cases c)
  case (CGrant g)
  then have "length (slice1 g) + length (slice2 g) \<le> length (content v)"
    using c by (simp add: grant_for_lengths)
  then show ?thesis using c CGrant same app by (auto simp: grant_for_def)
next
  case (CReleasing e ss)
  have "e = take (length e) (content v @ d)" if e: "e = take (length e) (content v)"
  proof -
    have "length e \<le> length (content v)" by (metis e length_take min.cobounded1)
    then show ?thesis using e by simp
  qed
  then show ?thesis using c CReleasing same app by auto
qed (use c same app in auto)

subsection \<open>The consumer's steps\<close>

text \<open>A grant made from an older write index is a grant for a prefix of the content.\<close>

lemma read_rest_ok:
  assumes ok: "ring_ok v" and c: "consumer_ok ft v (CLoaded write)"
  shows "consumer_ok ft v (read_rest write v)"
proof -
  let ?u = "v\<lparr>rb_write := as_u32 write\<rparr>" and ?r = "as_usize (rb_read v)"
  have w: "write < length (buf v)" "write < usize_limit" using c ring_ok_limit [OF ok] by auto
  then have oku: "ring_ok ?u" using ok by (simp add: ring_ok_def)
  have len: "circ_len (length (buf v)) ?r write \<le> circ_len (length (buf v)) ?r (as_usize (rb_write v))"
    using c ring_ok_circ [OF ok] by (simp add: content_def)
  have pre: "content ?u = take (circ_len (length (buf v)) ?r write) (content v)"
    using circ_content_prefix [OF ring_ok_circ [OF ok] w(1) len] w by (simp add: content_def)
  obtain g where g: "Consumer_read ?u = Inr g" "grant_for g ?u" "slice1 g @ slice2 g = content ?u"
    by (rule Consumer_read_grant [OF oku])
  have "slice1 g @ slice2 g = take (length (slice1 g @ slice2 g)) (content v)"
    unfolding g(3) pre by (simp add: min_def)
  then have "grant_for g v" using g(2) by (auto simp: grant_for_def)
  then show ?thesis by (simp add: read_rest_def g(1))
qed

lemma release_rest_ok:
  assumes ok: "ring_ok v" and g: "grant_for g v"
  shows "consumer_ok ft v (release_rest ft g used v)"
proof -
  let ?t = "length (slice1 g) + length (slice2 g)"
  have rel: "GrantR_release ft g used v = Inr (released ft (min used ?t) v)"
    by (rule GrantR_release_eq [OF ok g])
  then obtain ss where ss: "GrantR_release_stores ft g used (length (buf v)) = Inr ss"
    "run_stores ft ss v = released ft (min used ?t) v"
    unfolding GrantR_release_run_stores by (auto simp: res_bind_eq_Inr)
  obtain x where x: "ss = StRead x # flush_stores ft"
    using ss(1) by (auto simp: GrantR_release_stores_def Let_def res_bind_eq_Inr)
  have "rb_read (run_stores ft ss v) = x" by (simp add: x)
  then have idx: "x = as_u32 ((as_usize (rb_read v) + min used ?t) mod length (buf v))"
    using ss(2) by (simp add: released_def)
  let ?d = "take used (slice1 g @ slice2 g)"
  have len: "length ?d = min used ?t" by (simp add: min.commute)
  have "slice1 g @ slice2 g = take ?t (content v)" using g unfolding grant_for_def by blast
  then have "?d = take (min used ?t) (content v)" by simp
  then have d: "?d = take (length ?d) (content v)" unfolding len .
  have "set (flush_stores ft) \<subseteq> {StFlush}" by (auto simp: flush_stores_def)
  then show ?thesis using d unfolding release_rest_def ss(1) x idx len [symmetric]
    by (simp only: sum.case consumer_ok.simps) blast
qed

text \<open>One store of the consumer: only the index store changes the content, by dropping.\<close>

lemma consumer_store:
  assumes ok: "ring_ok v" and c: "consumer_ok ft v (CReleasing d (st # ss))"
  defines "v' \<equiv> apply_store ft st v"
  shows "ring_ok v'" "consumer_ok ft v' (CReleasing d ss)" "buf v' = buf v" "rb_write v' = rb_write v"
    "released_bytes [consumer_event d st] @ content v' = content v" "space v \<le> space v'"
    "\<forall>i<length (buf v). circ_owned (as_usize (rb_read v')) (as_usize (rb_write v)) i \<longrightarrow>
       circ_owned (as_usize (rb_read v)) (as_usize (rb_write v)) i"
    "published [consumer_event d st] = []"
proof -
  let ?r = "as_usize (rb_read v)" and ?w = "as_usize (rb_write v)" and ?n = "length (buf v)"
  consider (flush) "st = StFlush" "set ss \<subseteq> {StFlush}"
    | (idx) "st = StRead (as_u32 ((?r + length d) mod ?n))" "set ss \<subseteq> {StFlush}" "d = take (length d) (content v)"
    using c by auto
  then have "ring_ok v' \<and> consumer_ok ft v' (CReleasing d ss) \<and> buf v' = buf v \<and> rb_write v' = rb_write v \<and>
    released_bytes [consumer_event d st] @ content v' = content v \<and> space v \<le> space v' \<and>
    (\<forall>i<?n. circ_owned (as_usize (rb_read v')) ?w i \<longrightarrow> circ_owned ?r ?w i) \<and>
    published [consumer_event d st] = []"
  proof cases
    case flush
    then show ?thesis using ok by (simp add: v'_def)
  next
    case idx
    have k: "length d \<le> length (content v)" using arg_cong [OF idx(3), of length] by simp
    have rel: "content v' = drop (length d) (content v)" "ring_ok v'"
      using released_props [OF ok k, of ft] by (simp_all add: released_def v'_def idx(1))
    have r': "as_usize (rb_read v') = (?r + length d) mod ?n"
      by (simp add: v'_def idx(1) as_usize_mod [OF ok])
    have "length d \<le> circ_len ?n ?r ?w" using k ring_ok_circ [OF ok] by (simp add: content_def)
    then have own: "\<forall>i<?n. circ_owned (as_usize (rb_read v')) ?w i \<longrightarrow> circ_owned ?r ?w i"
      using circ_owned_take [OF ring_ok_circ [OF ok]] unfolding r' by blast
    have "d @ content v' = content v" unfolding rel(1) using idx(3) by (metis append_take_drop_id)
    moreover have "space v \<le> space v'" by (simp add: space_def rel(1)) (simp add: v'_def idx(1))
    ultimately show ?thesis using rel own idx(2) by (simp add: v'_def idx(1))
  qed
  then show "ring_ok v'" "consumer_ok ft v' (CReleasing d ss)" "buf v' = buf v" "rb_write v' = rb_write v"
    "released_bytes [consumer_event d st] @ content v' = content v" "space v \<le> space v'"
    "\<forall>i<length (buf v). circ_owned (as_usize (rb_read v')) ?w i \<longrightarrow> circ_owned ?r ?w i"
    "published [consumer_event d st] = []" by blast+
qed

text \<open>The producer does not notice either: space grows and owned positions are given up.\<close>

lemma producer_ok_shrink:
  assumes p: "producer_ok ft v p" and same: "buf v' = buf v" "rb_write v' = rb_write v"
    and more: "space v \<le> space v'"
    and own: "\<forall>i<length (buf v). circ_owned (as_usize (rb_read v')) (as_usize (rb_write v)) i \<longrightarrow>
       circ_owned (as_usize (rb_read v)) (as_usize (rb_write v)) i"
  shows "producer_ok ft v' p"
proof (cases p)
  case (PStoring data d ss)
  have run: "buf (run_stores ft as v') = buf (run_stores ft as v)" for as
    by (rule buf_run_cong) (rule same)
  from p PStoring have up: "upcoming ft v d ss" and k: "\<exists>k. d = take k data" by auto
  have "upcoming ft v' d ss"
    using up unfolding upcoming_def Let_def same run
  proof (elim disjE exE conjE)
    fix as fs
    assume a: "ss = as @ [StWrite (as_u32 ((as_usize (rb_write v) + length d) mod length (buf v)))] @ fs"
      "set fs \<subseteq> {StFlush}" "length d \<le> space v"
      "\<forall>s\<in>set as. s = StFlush \<or> (\<exists>i b. s = StByte i b \<and>
         i < length (buf v) \<and> \<not> circ_owned (as_usize (rb_read v)) (as_usize (rb_write v)) i)"
      "\<forall>j<length d. buf (run_stores ft as v) ! circ_pos (length (buf v)) (as_usize (rb_write v)) j = d ! j"
    have "\<forall>s\<in>set as. s = StFlush \<or> (\<exists>i b. s = StByte i b \<and>
         i < length (buf v) \<and> \<not> circ_owned (as_usize (rb_read v')) (as_usize (rb_write v)) i)"
      using a(4) own by blast
    then show "set ss \<subseteq> {StFlush} \<or> (\<exists>as fs.
        ss = as @ [StWrite (as_u32 ((as_usize (rb_write v) + length d) mod length (buf v)))] @ fs \<and>
        set fs \<subseteq> {StFlush} \<and> length d \<le> space v' \<and>
        (\<forall>s\<in>set as. s = StFlush \<or> (\<exists>i b. s = StByte i b \<and>
          i < length (buf v) \<and> \<not> circ_owned (as_usize (rb_read v')) (as_usize (rb_write v)) i)) \<and>
        (\<forall>j<length d. buf (run_stores ft as v) ! circ_pos (length (buf v)) (as_usize (rb_write v)) j = d ! j))"
      using a more by (intro disjI2 exI [of _ as] exI [of _ fs]) auto
  qed blast
  then show ?thesis using PStoring k by simp
qed (use p same more in auto)

subsection \<open>The invariant is kept, and bytes are neither lost nor made up\<close>

lemma spsc_step_ok:
  assumes "spsc_step ft s e t" and inv: "spsc_ok ft s"
  shows "spsc_ok ft t \<and> content (mem s) @ published [e] = released_bytes [e] @ content (mem t) \<and>
    (\<forall>data d. e = Published data d \<longrightarrow> (\<exists>k. d = take k data))"
  using assms(1)
proof cases
  case (write_call data)
  then show ?thesis using inv space_eq [of "mem s"] by (simp add: spsc_ok_def ring_ok_def)
next
  case (write_plan data read)
  then show ?thesis using inv write_rest_ok [of "mem s" ft data read] by (simp add: spsc_ok_def)
next
  case (write_store data d st ss)
  have up: "upcoming ft (mem s) d (st # ss)" and ok: "ring_ok (mem s)" and k: "\<exists>k. d = take k data"
    using inv write_store by (auto simp: spsc_ok_def)
  note ps = producer_store [OF ok up]
  have "consumer_ok ft (apply_store ft st (mem s)) (cons s)"
    using consumer_ok_append [OF _ ps(3,4,5)] inv unfolding spsc_ok_def by blast
  then have "spsc_ok ft t" using ps(1,2) k by (simp add: write_store spsc_ok_def)
  moreover have "\<forall>data' d'. producer_event data d st = Published data' d' \<longrightarrow> (\<exists>k. d' = take k data')"
    using k by (cases st) auto
  ultimately show ?thesis using ps(5) [of data] ps(6) [of data] by (simp add: write_store)
next
  case (write_return data d)
  then show ?thesis using inv by (simp add: spsc_ok_def)
next
  case read_call
  then show ?thesis using inv ring_ok_circ [of "mem s"] by (simp add: spsc_ok_def ring_ok_def content_def)
next
  case (read_return w)
  then show ?thesis using inv read_rest_ok [of "mem s" ft w] by (simp add: spsc_ok_def)
next
  case (drop_grant g)
  then show ?thesis using inv by (simp add: spsc_ok_def)
next
  case (release_call g used)
  then show ?thesis using inv release_rest_ok [of "mem s" g ft used] by (simp add: spsc_ok_def)
next
  case (release_store d st ss)
  have c: "consumer_ok ft (mem s) (CReleasing d (st # ss))" and ok: "ring_ok (mem s)"
    using inv release_store by (simp_all add: spsc_ok_def)
  note cs = consumer_store [OF ok c]
  have "producer_ok ft (apply_store ft st (mem s)) (prod s)"
    using producer_ok_shrink [OF _ cs(3,4,6,7)] inv by (auto simp: spsc_ok_def)
  then have "spsc_ok ft t" using cs(1,2) by (simp add: release_store spsc_ok_def)
  moreover have "consumer_event d st \<noteq> Published data' d'" for data' d' by (cases st) auto
  ultimately show ?thesis using cs(5,8) by (simp add: release_store)
next
  case (release_return d)
  then show ?thesis using inv by (simp add: spsc_ok_def)
qed

lemma published_append [simp]: "published (es @ fs) = published es @ published fs"
  by (induction es rule: published.induct) simp_all

lemma released_bytes_append [simp]: "released_bytes (es @ fs) = released_bytes es @ released_bytes fs"
  by (induction es rule: released_bytes.induct) simp_all

lemma spsc_run_ok:
  "spsc_run ft s es t \<Longrightarrow> spsc_ok ft s \<Longrightarrow>
   spsc_ok ft t \<and> content (mem s) @ published es = released_bytes es @ content (mem t) \<and>
   (\<forall>data d. Published data d \<in> set es \<longrightarrow> (\<exists>k. d = take k data))"
proof (induction rule: spsc_run.induct)
  case (run_more s es t e u)
  then have IH: "spsc_ok ft t" "content (mem s) @ published es = released_bytes es @ content (mem t)"
    "\<forall>data d. Published data d \<in> set es \<longrightarrow> (\<exists>k. d = take k data)" by blast+
  note st = spsc_step_ok [OF run_more.hyps(2) IH(1)]
  have "content (mem s) @ published (es @ [e]) = released_bytes es @ content (mem t) @ published [e]"
    using IH(2) by simp
  also have "\<dots> = released_bytes (es @ [e]) @ content (mem u)" using st by simp
  finally show ?case using st IH(3) by auto
qed simp

lemma length_buf_apply_store [simp]: "length (buf (apply_store ft st v)) = length (buf v)"
  by (cases st) simp_all

lemma spsc_run_buffer: "spsc_run ft s es t \<Longrightarrow> length (buf (mem t)) = length (buf (mem s))"
proof (induction rule: spsc_run.induct)
  case (run_more s es t e u)
  from run_more.hyps(2) have "length (buf (mem u)) = length (buf (mem t))" by cases simp_all
  then show ?case using run_more.IH by simp
qed simp

lemma spsc_ok_quiet: "ring_ok v \<Longrightarrow> spsc_ok ft (quiet v)"
  by (simp add: spsc_ok_def quiet_def)

subsection \<open>Wait-freedom of the producer\<close>

fun producer_left :: "producer \<Rightarrow> nat" where
  "producer_left PIdle = 0"
| "producer_left (PLoaded data read) = length data + 6"
| "producer_left (PStoring data d ss) = Suc (length ss)"
| "producer_left (PFault e) = 0"

lemma write_rest_left:
  "ring_ok v \<Longrightarrow> producer_ok ft v (PLoaded data read) \<Longrightarrow>
   producer_left (write_rest ft data read v) < producer_left (PLoaded data read)"
  by (auto simp: write_rest_def Let_def Producer_write_stores_def copy_stores_def flush_stores_def
      res_bind_eq_Inr checked usub_def uadd_def urem_def split: sum.splits if_splits)

lemma spsc_step_left:
  assumes "spsc_step ft s e t" "spsc_ok ft s" "prod s \<noteq> PIdle"
  shows "prod t = prod s \<or> producer_left (prod t) < producer_left (prod s)"
  using assms(1)
proof cases
  case (write_plan data read)
  then show ?thesis using write_rest_left [of "mem s" ft data read] assms(2) by (simp add: spsc_ok_def)
qed (use assms(3) in simp_all)

lemma producer_can_step:
  assumes "spsc_ok ft s" "prod s \<noteq> PIdle"
  shows "\<exists>e t. spsc_step ft s e t \<and> producer_left (prod t) < producer_left (prod s)"
proof (cases "prod s")
  case (PLoaded data read)
  then show ?thesis
    using spsc_step.write_plan [OF PLoaded, of ft] write_rest_left [of "mem s" ft data read] assms(1)
    by (fastforce simp: spsc_ok_def)
next
  case (PStoring data d ss)
  then show ?thesis
  proof (cases ss)
    case Nil
    then show ?thesis using spsc_step.write_return [of s data d ft] PStoring by fastforce
  next
    case (Cons st ss')
    then show ?thesis using spsc_step.write_store [of s data d st ss' ft] PStoring by fastforce
  qed
qed (use assms in \<open>simp_all add: spsc_ok_def\<close>)

text \<open>What a live grant refers to in the buffer.\<close>

lemma grant_in_buffer:
  assumes ok: "ring_ok v" and g: "grant_for g v"
  shows "slice_from_raw_parts (buf v) (original_read g) (length (slice1 g)) = Inr (slice1 g)"
    and "slice_from_raw_parts (buf v) 0 (length (slice2 g)) = Inr (slice2 g)"
proof -
  let ?r = "as_usize (rb_read v)" and ?w = "as_usize (rb_write v)"
  let ?l1 = "length (slice1 g)" and ?l2 = "length (slice2 g)"
  have lc: "length (content v) = circ_len (length (buf v)) ?r ?w"
    using ring_ok_circ [OF ok] by (simp add: content_def)
  have l: "?l1 + ?l2 \<le> circ_len (length (buf v)) ?r ?w"
    using grant_for_lengths [OF g] unfolding lc .
  have r: "original_read g = ?r" "?r + ?l1 \<le> length (buf v)" "slice2 g = [] \<or> ?r + ?l1 = length (buf v)"
    and c: "slice1 g @ slice2 g = take (?l1 + ?l2) (content v)"
    using g by (auto simp: grant_for_def)
  have n: "?l2 \<le> length (buf v)" using l lc length_content_less [OF ok] by simp
  have "slice1 g = take ?l1 (content v)" using arg_cong [OF c, of "take ?l1"] by (simp add: min_def)
  moreover have "take ?l1 (content v) = take ?l1 (drop ?r (buf v))"
    using l r(2) by (auto simp: content_def circ_content_def circ_len_def min_def)
  ultimately show "slice_from_raw_parts (buf v) (original_read g) ?l1 = Inr (slice1 g)"
    using r by (simp add: checked)
  have s2: "slice2 g = take ?l2 (drop ?l1 (content v))" using arg_cong [OF c, of "drop ?l1"] by (simp add: drop_take)
  have "take ?l2 (drop ?l1 (content v)) = take ?l2 (buf v)"
  proof (cases "slice2 g = []")
    case False
    then have e: "?l1 = length (buf v) - ?r" using r by simp
    have "0 < ?l2" using False by simp
    then have wr: "?w < ?r" using l e ok by (auto simp: circ_len_def ring_ok_def split: if_splits)
    then have "?l2 \<le> ?w" using l e by (simp add: circ_len_def)
    then show ?thesis using wr e by (simp add: content_def circ_content_def min_def)
  qed simp
  then show "slice_from_raw_parts (buf v) 0 ?l2 = Inr (slice2 g)" using n s2 by (simp add: checked)
qed

text \<open>The positions that a live grant refers to.\<close>

definition grant_at :: "GrantR \<Rightarrow> nat \<Rightarrow> bool" where
  "grant_at g i \<longleftrightarrow>
     original_read g \<le> i \<and> i < original_read g + length (slice1 g) \<or> i < length (slice2 g)"

lemma grant_owned:
  assumes ok: "ring_ok v" and g: "grant_for g v" and i: "grant_at g i"
  shows "i < length (buf v) \<and> circ_owned (as_usize (rb_read v)) (as_usize (rb_write v)) i"
proof -
  have "length (slice1 g) + length (slice2 g) \<le> circ_len (length (buf v)) (as_usize (rb_read v)) (as_usize (rb_write v))"
    using grant_for_lengths [OF g] ring_ok_circ [OF ok] by (simp add: content_def)
  then show ?thesis
    using g i ok by (auto simp: grant_at_def grant_for_def circ_len_def circ_owned_def ring_ok_def split: if_splits)
qed

lemma upcoming_store:
  assumes ok: "ring_ok v" and up: "upcoming ft v d (st # ss)"
  shows "st = StFlush \<or> (\<exists>x. st = StWrite x \<and> as_usize x < length (buf v)) \<or>
    (\<exists>i b. st = StByte i b \<and> i < length (buf v) \<and> \<not> circ_owned (as_usize (rb_read v)) (as_usize (rb_write v)) i)"
proof (cases "set (st # ss) \<subseteq> {StFlush}")
  case False
  then obtain as fs where a: "st # ss = as @ [StWrite (as_u32 ((as_usize (rb_write v) + length d) mod length (buf v)))] @ fs"
    "\<forall>s\<in>set as. s = StFlush \<or> (\<exists>i b. s = StByte i b \<and> i < length (buf v)
       \<and> \<not> circ_owned (as_usize (rb_read v)) (as_usize (rb_write v)) i)"
    using up unfolding upcoming_def Let_def by auto
  have "as_usize (as_u32 ((as_usize (rb_write v) + length d) mod length (buf v))) < length (buf v)"
    using ok by (auto simp: as_usize_mod [OF ok] ring_ok_def intro: mod_less_some)
  then show ?thesis using a by (cases as) auto
qed simp

text \<open>The place that a store goes to.\<close>

datatype place = Header_Place | Read_Place | Write_Place | Byte_Place nat | Flush_Place

fun store_place :: "store \<Rightarrow> place" where
  "store_place (StHeader h) = Header_Place"
| "store_place (StRead x) = Read_Place"
| "store_place (StWrite x) = Write_Place"
| "store_place (StByte i b) = Byte_Place i"
| "store_place StFlush = Flush_Place"

text \<open>Without the \<open>ecc\<close> feature neither side ever has a flush to make.\<close>

definition flush_with_ecc :: "features \<Rightarrow> spsc \<Rightarrow> bool" where
  "flush_with_ecc ft s \<longleftrightarrow> feat_ecc ft \<or>
     (\<forall>data d ss. prod s = PStoring data d ss \<longrightarrow> StFlush \<notin> set ss) \<and>
     (\<forall>d ss. cons s = CReleasing d ss \<longrightarrow> StFlush \<notin> set ss)"

lemma plans_flush_with_ecc:
  "\<not> feat_ecc ft \<Longrightarrow> write_rest ft data read v = PStoring data' d ss \<Longrightarrow> StFlush \<notin> set ss"
  "\<not> feat_ecc ft \<Longrightarrow> release_rest ft g used v = CReleasing d ss \<Longrightarrow> StFlush \<notin> set ss"
  by (auto simp: write_rest_def release_rest_def Let_def Producer_write_stores_def GrantR_release_stores_def
      copy_stores_def flush_stores_def res_bind_eq_Inr split: sum.splits if_splits)

lemma spsc_step_flush_with_ecc:
  assumes "spsc_step ft s e t" "flush_with_ecc ft s"
  shows "flush_with_ecc ft t"
  using assms(1)
proof cases
  case (read_return w)
  then show ?thesis using assms(2) by (auto simp: flush_with_ecc_def read_rest_def split: sum.splits)
qed (use assms(2) plans_flush_with_ecc in \<open>auto simp: flush_with_ecc_def\<close>)

lemma spsc_run_flush_with_ecc: "spsc_run ft s es t \<Longrightarrow> flush_with_ecc ft s \<Longrightarrow> flush_with_ecc ft t"
  by (induction rule: spsc_run.induct) (auto intro: spsc_step_flush_with_ecc)

text \<open>The next store of each side.\<close>

lemma next_store_producer:
  assumes "spsc_ok ft s" "prod s = PStoring data d (st # ss)"
  shows "st = StFlush \<or> (\<exists>x. st = StWrite x \<and> as_usize x < length (buf (mem s))) \<or>
    (\<exists>i b. st = StByte i b \<and> i < length (buf (mem s)) \<and>
       \<not> circ_owned (as_usize (rb_read (mem s))) (as_usize (rb_write (mem s))) i \<and>
       (\<forall>g. cons s = CGrant g \<longrightarrow> \<not> grant_at g i))"
proof -
  have r: "ring_ok (mem s)" and "upcoming ft (mem s) d (st # ss)" using assms by (simp_all add: spsc_ok_def)
  from upcoming_store [OF this] show ?thesis
    using grant_owned [OF r] assms(1) by (fastforce simp: spsc_ok_def)
qed

lemma next_store_consumer:
  assumes "spsc_ok ft s" "cons s = CReleasing d (st # ss)"
  shows "st = StFlush \<or> (\<exists>x. st = StRead x \<and> as_usize x < length (buf (mem s)))"
proof -
  have r: "ring_ok (mem s)" using assms by (simp add: spsc_ok_def)
  then show ?thesis
    using assms mod_less_some [of "as_usize (rb_read (mem s))" "length (buf (mem s))"]
    by (auto simp: spsc_ok_def as_usize_mod [OF r] ring_ok_def)
qed

subsection \<open>A run to look at\<close>

text \<open>A write of one byte completes, then the consumer takes a grant.\<close>

definition demo_ring :: ring where
  "demo_ring = RingBuffer_new (default_features\<lparr>feat_ecc := False\<rparr>) 0 0 [0, 0, 0, 0]"

lemma demo_ring_ok: "ring_ok demo_ring" "content demo_ring = []"
  by (simp_all add: demo_ring_def ring_ok_def RingBuffer_new_def max_buf_len_def content_def)

definition demo_state :: "u8 list \<Rightarrow> nat \<Rightarrow> producer \<Rightarrow> consumer \<Rightarrow> spsc" where
  "demo_state b w p c = \<lparr>mem = demo_ring\<lparr>buf := b, rb_write := as_u32 w\<rparr>, prod = p, cons = c\<rparr>"

text \<open>The state the run ends in.\<close>

definition demo_end :: spsc where
  "demo_end = demo_state [7, 0, 0, 0] 1 (PStoring [7] [7] []) (CGrant \<lparr>slice1 = [7], slice2 = [], original_read = 0\<rparr>)"

lemma demo_end_fields [simp]:
  "prod demo_end = PStoring [7] [7] []" "cons demo_end = CGrant \<lparr>slice1 = [7], slice2 = [], original_read = 0\<rparr>"
  by (simp_all add: demo_end_def demo_state_def)

lemma demo_run:
  fixes ft :: features
  defines "ft \<equiv> default_features\<lparr>feat_ecc := False\<rparr>"
  defines "g \<equiv> \<lparr>slice1 = [7], slice2 = [], original_read = 0\<rparr>"
  shows "spsc_run ft (quiet demo_ring)
      [WriteCall [7], PInternal, PInternal, Published [7] [7], CInternal, CInternal]
      demo_end"
    and "spsc_run ft (quiet demo_ring) [WriteCall [7], PInternal]
      (demo_state [0, 0, 0, 0] 0 (PStoring [7] [7] [StByte 0 7, StWrite 1]) CIdle)"
proof -
  note [simp] = demo_state_def demo_ring_def RingBuffer_new_def ft_def default_features_def
  have start: "quiet demo_ring = demo_state [0, 0, 0, 0] 0 PIdle CIdle" by (simp add: quiet_def)
  have "write_rest ft [7] 0 demo_ring = PStoring [7] [7] [StByte 0 7, StWrite 1]"
    by (simp add: write_rest_def Producer_available_def Producer_write_stores_def checked Let_def
        copy_stores_def flush_stores_def usize_limit_def as_u32_def as_usize_def)
  then have p: "write_rest ft [7] 0 (mem (demo_state [0, 0, 0, 0] 0 (PLoaded [7] 0) CIdle)) =
      PStoring [7] [7] [StByte 0 7, StWrite 1]" by (simp add: as_u32_def)
  have c: "read_rest 1 (mem (demo_state [7, 0, 0, 0] 1 (PStoring [7] [7] []) (CLoaded 1))) = CGrant g"
    by (simp add: read_rest_def Consumer_read_def checked Let_def g_def as_usize_def as_u32_def usize_limit_def)
  have s1: "spsc_step ft (demo_state [0, 0, 0, 0] 0 PIdle CIdle) (WriteCall [7])
      (demo_state [0, 0, 0, 0] 0 (PLoaded [7] 0) CIdle)"
    using spsc_step.write_call [of "demo_state [0, 0, 0, 0] 0 PIdle CIdle" ft "[7]"] by simp
  have s2: "spsc_step ft (demo_state [0, 0, 0, 0] 0 (PLoaded [7] 0) CIdle) PInternal
      (demo_state [0, 0, 0, 0] 0 (PStoring [7] [7] [StByte 0 7, StWrite 1]) CIdle)"
    using spsc_step.write_plan [of "demo_state [0, 0, 0, 0] 0 (PLoaded [7] 0) CIdle" "[7]" 0 ft] p by simp
  have s3: "spsc_step ft (demo_state [0, 0, 0, 0] 0 (PStoring [7] [7] [StByte 0 7, StWrite 1]) CIdle) PInternal
      (demo_state [7, 0, 0, 0] 0 (PStoring [7] [7] [StWrite 1]) CIdle)"
    using spsc_step.write_store [of "demo_state [0, 0, 0, 0] 0 (PStoring [7] [7] [StByte 0 7, StWrite 1]) CIdle"
        "[7]" "[7]" "StByte 0 7" "[StWrite 1]" ft] by simp
  have s4: "spsc_step ft (demo_state [7, 0, 0, 0] 0 (PStoring [7] [7] [StWrite 1]) CIdle) (Published [7] [7])
      (demo_state [7, 0, 0, 0] 1 (PStoring [7] [7] []) CIdle)"
    using spsc_step.write_store [of "demo_state [7, 0, 0, 0] 0 (PStoring [7] [7] [StWrite 1]) CIdle"
        "[7]" "[7]" "StWrite 1" "[]" ft] by (simp add: as_u32_def)
  have s5: "spsc_step ft (demo_state [7, 0, 0, 0] 1 (PStoring [7] [7] []) CIdle) CInternal
      (demo_state [7, 0, 0, 0] 1 (PStoring [7] [7] []) (CLoaded 1))"
    using spsc_step.read_call [of "demo_state [7, 0, 0, 0] 1 (PStoring [7] [7] []) CIdle" ft]
    by (simp add: usize_limit_def)
  have s6: "spsc_step ft (demo_state [7, 0, 0, 0] 1 (PStoring [7] [7] []) (CLoaded 1)) CInternal
      (demo_state [7, 0, 0, 0] 1 (PStoring [7] [7] []) (CGrant g))"
    using spsc_step.read_return [of "demo_state [7, 0, 0, 0] 1 (PStoring [7] [7] []) (CLoaded 1)" 1 ft] c by simp
  show "spsc_run ft (quiet demo_ring) [WriteCall [7], PInternal]
      (demo_state [0, 0, 0, 0] 0 (PStoring [7] [7] [StByte 0 7, StWrite 1]) CIdle)"
    unfolding start using run_more [OF run_more [OF run_none s1] s2] by simp
  show "spsc_run ft (quiet demo_ring)
      [WriteCall [7], PInternal, PInternal, Published [7] [7], CInternal, CInternal]
      demo_end" unfolding start demo_end_def g_def [symmetric]
    using run_more [OF run_more [OF run_more [OF run_more [OF run_more [OF run_more [OF run_none s1] s2] s3] s4] s5] s6]
    by simp
qed

text \<open>While the grant is alive, the next write is about to store.\<close>

definition demo_next :: spsc where
  "demo_next = demo_state [7, 0, 0, 0] 1 (PStoring [8] [8] [StByte 1 8, StWrite 2]) (CGrant \<lparr>slice1 = [7], slice2 = [], original_read = 0\<rparr>)"

lemma demo_run_next:
  "spsc_run (default_features\<lparr>feat_ecc := False\<rparr>) (quiet demo_ring)
     [WriteCall [7], PInternal, PInternal, Published [7] [7], CInternal, CInternal, PInternal, WriteCall [8], PInternal] demo_next"
proof -
  let ?ft = "default_features\<lparr>feat_ecc := False\<rparr>" and ?g = "CGrant \<lparr>slice1 = [7], slice2 = [], original_read = 0\<rparr>"
  have s1: "spsc_step ?ft demo_end PInternal (demo_state [7, 0, 0, 0] 1 PIdle ?g)"
    using spsc_step.write_return [of demo_end "[7]" "[7]" ?ft] by (simp add: demo_end_def demo_state_def)
  have s2: "spsc_step ?ft (demo_state [7, 0, 0, 0] 1 PIdle ?g) (WriteCall [8]) (demo_state [7, 0, 0, 0] 1 (PLoaded [8] 0) ?g)"
    using spsc_step.write_call [of "demo_state [7, 0, 0, 0] 1 PIdle ?g" ?ft "[8]"]
    by (simp add: demo_state_def demo_ring_def RingBuffer_new_def)
  have "write_rest ?ft [8] 0 (mem (demo_state [7, 0, 0, 0] 1 (PLoaded [8] 0) ?g)) = PStoring [8] [8] [StByte 1 8, StWrite 2]"
    by (simp add: write_rest_def Producer_available_def Producer_write_stores_def copy_stores_def flush_stores_def
        demo_state_def demo_ring_def RingBuffer_new_def checked usize_limit_def as_u32_def default_features_def)
  then have s3: "spsc_step ?ft (demo_state [7, 0, 0, 0] 1 (PLoaded [8] 0) ?g) PInternal demo_next"
    using spsc_step.write_plan [of "demo_state [7, 0, 0, 0] 1 (PLoaded [8] 0) ?g" "[8]" 0 ?ft]
    by (simp add: demo_next_def demo_state_def)
  show ?thesis
    using spsc_run.run_more [OF spsc_run.run_more [OF spsc_run.run_more [OF demo_run(1) s1] s2] s3] by simp
qed

subsection \<open>Properties\<close>

text \<open>
  C5: whatever the interleaving of the producer's and the consumer's loads and stores, no
  operation faults, the ring stays valid, and the queued bytes at the start followed by all
  published bytes are the released bytes followed by the queued bytes: nothing is lost,
  reordered, duplicated or made up. Each publication is a prefix of its \<open>write\<close> argument.
\<close>

theorem spsc_interleaving_fifo:
  assumes "ring_ok v" and "spsc_run ft (quiet v) es t"
  shows "ring_ok (mem t) \<and> (\<forall>e. prod t \<noteq> PFault e \<and> cons t \<noteq> CFault e) \<and>
     content v @ published es = released_bytes es @ content (mem t) \<and>
     (\<forall>data d. Published data d \<in> set es \<longrightarrow> (\<exists>k. d = take k data))"
  using spsc_run_ok [OF assms(2) spsc_ok_quiet [OF assms(1)]]
  by (auto simp: spsc_ok_def quiet_def)

theorem spsc_interleaving_fifo_witness:
  "ring_ok (mem demo_end) \<and> content (mem demo_end) = [7]"
  using spsc_interleaving_fifo [OF demo_ring_ok(1) demo_run(1)] demo_ring_ok(2) by simp

text \<open>
  C6: a grant stays what it was: at every moment from \<open>read\<close> to the release, whatever the
  producer stores meanwhile, the memory behind the two slices holds the bytes handed out, and
  they are the oldest queued bytes. This is the aliasing argument in the comments of \<open>read\<close>.
\<close>

theorem spsc_grant_stable:
  assumes "ring_ok v" and "spsc_run ft (quiet v) es t" and "cons t = CGrant g"
  shows "slice_from_raw_parts (buf (mem t)) (original_read g) (length (slice1 g)) = Inr (slice1 g) \<and>
     slice_from_raw_parts (buf (mem t)) 0 (length (slice2 g)) = Inr (slice2 g) \<and>
     slice1 g @ slice2 g = take (length (slice1 g) + length (slice2 g)) (content (mem t))"
proof -
  have "ring_ok (mem t)" "grant_for g (mem t)"
    using spsc_run_ok [OF assms(2) spsc_ok_quiet [OF assms(1)]] assms(3) by (auto simp: spsc_ok_def)
  then show ?thesis using grant_in_buffer unfolding grant_for_def by blast
qed

theorem spsc_grant_stable_witness:
  "slice_from_raw_parts (buf (mem demo_end)) 0 1 = Inr [7] \<and> prod demo_end = PStoring [7] [7] []"
  using spsc_grant_stable [OF demo_ring_ok(1) demo_run(1) demo_end_fields(2)] by simp

text \<open>
  C23: the producer is wait-free: in every reachable state with a \<open>write\<close> in progress it can make
  a step, every step of its own brings it nearer to its return, and no step of the consumer
  sets it back. A call takes at most \<open>data.len() + 6\<close> steps, so it is safe in an interrupt.
\<close>

theorem spsc_write_wait_free:
  assumes "ring_ok v" and "spsc_run ft (quiet v) es s" and "prod s \<noteq> PIdle"
  shows "(\<exists>e t. spsc_step ft s e t \<and> producer_left (prod t) < producer_left (prod s)) \<and>
     (\<forall>e t. spsc_step ft s e t \<longrightarrow>
        prod t = prod s \<or> producer_left (prod t) < producer_left (prod s)) \<and>
     (\<forall>data read. prod s = PLoaded data read \<longrightarrow> producer_left (prod s) = length data + 6)"
proof -
  have ok: "spsc_ok ft s" using spsc_run_ok [OF assms(2) spsc_ok_quiet [OF assms(1)]] by blast
  show ?thesis
    using producer_can_step [OF ok assms(3)] spsc_step_left [OF _ ok assms(3)] by fastforce
qed

theorem spsc_write_wait_free_witness:
  "\<exists>e t. spsc_step (default_features\<lparr>feat_ecc := False\<rparr>) demo_end e t \<and> producer_left (prod t) = 0"
  using spsc_write_wait_free [OF demo_ring_ok(1) demo_run(1)] by simp

text \<open>
  C7: what the two sides share in every reachable state. The next store of the producer is a byte inside
  the buffer at a position outside the queued bytes and outside a live grant of the consumer, or
  a valid value of \<open>write\<close>, or, with the \<open>ecc\<close> feature only, a flush; the next store of the consumer is a valid
  value of \<open>read\<close> or, with the \<open>ecc\<close> feature only, a flush. So the two sides are never about to store to the
  same place, with one exception, which the comment in \<open>flush_ecc\<close> names: both may be about to make the flush store; then
  either order, or making it once, leaves the same memory.
\<close>

theorem spsc_race_free:
  assumes "ring_ok v" and "spsc_run ft (quiet v) es s"
  shows "(\<forall>data d st ss. prod s = PStoring data d (st # ss) \<longrightarrow>
       st = StFlush \<and> feat_ecc ft \<or> (\<exists>x. st = StWrite x \<and> as_usize x < length (buf v)) \<or>
       (\<exists>i b. st = StByte i b \<and> i < length (buf v) \<and>
          \<not> circ_owned (as_usize (rb_read (mem s))) (as_usize (rb_write (mem s))) i \<and>
          (\<forall>g. cons s = CGrant g \<longrightarrow> \<not> grant_at g i))) \<and>
     (\<forall>d st ss. cons s = CReleasing d (st # ss) \<longrightarrow>
       st = StFlush \<and> feat_ecc ft \<or> (\<exists>x. st = StRead x \<and> as_usize x < length (buf v))) \<and>
     (\<forall>data d st ss d' st' ss'. prod s = PStoring data d (st # ss) \<longrightarrow> cons s = CReleasing d' (st' # ss') \<longrightarrow>
       store_place st = store_place st' \<longrightarrow> st = StFlush \<and> st' = StFlush \<and> feat_ecc ft \<and>
         apply_store ft st (apply_store ft st' (mem s)) = apply_store ft st (mem s))"
proof -
  have ok: "spsc_ok ft s" using spsc_run_ok [OF assms(2) spsc_ok_quiet [OF assms(1)]] by blast
  have len: "length (buf (mem s)) = length (buf v)" using spsc_run_buffer [OF assms(2)] by (simp add: quiet_def)
  have fl: "flush_with_ecc ft s" using spsc_run_flush_with_ecc [OF assms(2)] by (simp add: flush_with_ecc_def quiet_def)
  note p = next_store_producer [OF ok, unfolded len] and c = next_store_consumer [OF ok, unfolded len]
  have pf: "feat_ecc ft" if "prod s = PStoring data d (StFlush # ss)" for data d ss
    using fl that by (auto simp: flush_with_ecc_def)
  have cf: "feat_ecc ft" if "cons s = CReleasing d (StFlush # ss)" for d ss
    using fl that by (auto simp: flush_with_ecc_def)
  show ?thesis
  proof (intro conjI allI impI)
    show "st = StFlush \<and> feat_ecc ft \<or> (\<exists>x. st = StWrite x \<and> as_usize x < length (buf v)) \<or>
       (\<exists>i b. st = StByte i b \<and> i < length (buf v) \<and>
          \<not> circ_owned (as_usize (rb_read (mem s))) (as_usize (rb_write (mem s))) i \<and>
          (\<forall>g. cons s = CGrant g \<longrightarrow> \<not> grant_at g i))" if "prod s = PStoring data d (st # ss)" for data d st ss
      using p [OF that] pf that by blast
    show "st = StFlush \<and> feat_ecc ft \<or> (\<exists>x. st = StRead x \<and> as_usize x < length (buf v))"
      if "cons s = CReleasing d (st # ss)" for d st ss
      using c [OF that] cf that by blast
    fix data d st ss d' st' ss'
    assume a: "prod s = PStoring data d (st # ss)" "cons s = CReleasing d' (st' # ss')" "store_place st = store_place st'"
    show f: "st = StFlush" "st' = StFlush" using p [OF a(1)] c [OF a(2)] a(3) by auto
    show "feat_ecc ft" using pf a(1) f by blast
    show "apply_store ft st (apply_store ft st' (mem s)) = apply_store ft st (mem s)" unfolding f by simp
  qed
qed

theorem spsc_race_free_witness:
  "\<exists>i b g. spsc_run (default_features\<lparr>feat_ecc := False\<rparr>) (quiet demo_ring)
       [WriteCall [7], PInternal, PInternal, Published [7] [7], CInternal, CInternal, PInternal, WriteCall [8], PInternal] demo_next \<and>
     prod demo_next = PStoring [8] [8] [StByte i b, StWrite 2] \<and> cons demo_next = CGrant g \<and> grant_at g 0 \<and> \<not> grant_at g i"
proof -
  have "prod demo_next = PStoring [8] [8] (StByte 1 8 # [StWrite 2])"
    "cons demo_next = CGrant \<lparr>slice1 = [7], slice2 = [], original_read = 0\<rparr>"
    by (simp_all add: demo_next_def demo_state_def)
  then show ?thesis
    using spsc_race_free [OF demo_ring_ok(1) demo_run_next] demo_run_next by (fastforce simp: grant_at_def)
qed

end
