(* ===== verification/BoardSpec.thy ===== *)
theory BoardSpec
  imports Prelude
begin

text \<open>
  What a program that logs relies on, as interfaces: \<open>log_device\<close> is a running device with a
  log that messages are appended to, that can be drained to a first serial port, and whose
  memory can be dumped to a second one; \<open>restartable_device\<close> adds the start: a cold device whose
  memory holds such a dump comes up with the log of the dump. The lemmas about sequences of
  log statements are proved from these laws alone.
\<close>

subsection \<open>Log statements\<close>

text \<open>A use of a \<open>defmt\<close> macro: its name, the format string and the argument.\<close>

datatype log_arg = No_Arg | Arg_u32 u32 | Arg_panic string

datatype log_stmt = Stmt string string log_arg

abbreviation stmt :: "string \<Rightarrow> string \<Rightarrow> log_stmt" where
  "stmt level text \<equiv> Stmt level text No_Arg"

fun log_all :: "('m \<Rightarrow> 'b \<Rightarrow> 'b res option) \<Rightarrow> 'm list \<Rightarrow> 'b \<Rightarrow> 'b res option" where
  "log_all log [] b = Some (Inr b)"
| "log_all log (m # ms) b = run_bind (log m b) (log_all log ms)"

text \<open>The bytes of the frames of some messages, and the encoder after them.\<close>

fun frames_of :: "('m \<Rightarrow> 'e \<Rightarrow> u8 list \<times> 'e) \<Rightarrow> 'm list \<Rightarrow> 'e \<Rightarrow> u8 list \<times> 'e" where
  "frames_of frame [] e = ([], e)"
| "frames_of frame (m # ms) e =
     (fst (frame m e) @ fst (frames_of frame ms (snd (frame m e))), snd (frames_of frame ms (snd (frame m e))))"

text \<open>Their bytes alone.\<close>

abbreviation frame_bytes :: "('m \<Rightarrow> 'e \<Rightarrow> u8 list \<times> 'e) \<Rightarrow> 'm list \<Rightarrow> 'e \<Rightarrow> u8 list" where
  "frame_bytes frame ms e \<equiv> fst (frames_of frame ms e)"

lemma frames_of_append [simp]:
  "frames_of frame (ms @ ns) e =
     (fst (frames_of frame ms e) @ fst (frames_of frame ns (snd (frames_of frame ms e))),
      snd (frames_of frame ns (snd (frames_of frame ms e))))"
  by (induction ms arbitrary: e) simp_all

subsection \<open>The interfaces\<close>

locale log_device =
  fixes cap :: nat
    and queue :: "'b \<Rightarrow> u8 list"
    and out0 :: "'b \<Rightarrow> u8 list"
    and out1 :: "'b \<Rightarrow> u8 list"
    and image :: "'b \<Rightarrow> u8 list"
    and enc :: "'b \<Rightarrow> 'e"
    and valid :: "'b \<Rightarrow> bool"
    and admissible :: "log_stmt \<Rightarrow> bool"
    and frame :: "log_stmt \<Rightarrow> 'e \<Rightarrow> u8 list \<times> 'e"
    and log :: "log_stmt \<Rightarrow> 'b \<Rightarrow> 'b res option"
    and drain :: "'b \<Rightarrow> 'b res option"
    and dump :: "'b \<Rightarrow> 'b res option"
    and no_data :: "'b \<Rightarrow> bool"
  assumes log_law: "valid b \<Longrightarrow> admissible m \<Longrightarrow> \<exists>t. log m b = Some (Inr t) \<and> valid t \<and>
      queue t = queue b @ take (cap - length (queue b)) (fst (frame m (enc b))) \<and>
      enc t = snd (frame m (enc b)) \<and> out0 t = out0 b \<and> out1 t = out1 b"
    and drain_law: "valid b \<Longrightarrow> \<exists>t. drain b = Some (Inr t) \<and> valid t \<and> queue t = [] \<and>
      out0 t = out0 b @ queue b \<and> out1 t = out1 b \<and> enc t = enc b"
    and dump_law: "valid b \<Longrightarrow> \<exists>t. dump b = Some (Inr t) \<and> valid t \<and> queue t = queue b \<and>
      out0 t = out0 b \<and> out1 t = out1 b @ image b \<and> enc t = enc b"
    and no_data_law: "valid b \<Longrightarrow> no_data b \<longleftrightarrow> queue b = []"

context log_device
begin

text \<open>A message that fits is appended as it is.\<close>

lemma log_fits:
  assumes "valid b" "admissible m" "length (queue b) + length (fst (frame m (enc b))) \<le> cap"
  obtains t where "log m b = Some (Inr t)" "valid t" "queue t = queue b @ fst (frame m (enc b))"
    "enc t = snd (frame m (enc b))" "out0 t = out0 b" "out1 t = out1 b"
  using log_law [OF assms(1,2)] assms(3) by auto

lemma log_all_fits:
  "valid b \<Longrightarrow> \<forall>m\<in>set ms. admissible m \<Longrightarrow> length (queue b) + length (frame_bytes frame ms (enc b)) \<le> cap \<Longrightarrow>
   \<exists>t. log_all log ms b = Some (Inr t) \<and> valid t \<and> queue t = queue b @ frame_bytes frame ms (enc b) \<and>
     enc t = snd (frames_of frame ms (enc b)) \<and> out0 t = out0 b \<and> out1 t = out1 b"
proof (induction ms arbitrary: b)
  case (Cons m ms)
  obtain t where t: "log m b = Some (Inr t)" "valid t" "queue t = queue b @ fst (frame m (enc b))"
    "enc t = snd (frame m (enc b))" "out0 t = out0 b" "out1 t = out1 b"
    by (rule log_fits [OF Cons.prems(1), of m]) (use Cons.prems(2,3) in auto)
  show ?case
    using Cons.IH [OF t(2)] Cons.prems(2,3) t by (auto simp: t(1))
qed simp

end

locale restartable_device = log_device +
  fixes boot :: "'b \<Rightarrow> 'b res option"
    and cold :: "'b \<Rightarrow> bool"
    and memory :: "'b \<Rightarrow> u8 list"
  assumes boot_law: "cold b \<Longrightarrow> \<exists>t. boot b = Some (Inr t) \<and> valid t \<and>
      out0 t = out0 b \<and> out1 t = out1 b \<and> enc t = enc b"
    and boot_image: "cold b \<Longrightarrow> valid m \<Longrightarrow> memory b = image m \<Longrightarrow> boot b = Some (Inr t) \<Longrightarrow> queue t = queue m"

end
