(* ===== verification/Waker.thy ===== *)
theory Waker
  imports RingBuffer
begin

text \<open>
  Waking the task that waits for log data: \<open>src/atomic_waker.rs\<close>, \<open>Consumer::wait_for_data\<close> of
  \<open>src/ring_buffer.rs\<close>, and the wake-up at the end of the logger's \<open>release\<close>. The waiting task
  and the logger run concurrently: each critical section and each atomic access is one step,
  and the steps interleave freely. Shown: a task never sleeps on a non-empty ring without a
  wake-up on its way.
\<close>

subsection \<open>The waker slot\<close>

text \<open>A waker stands for the task that it wakes; a clone wakes the same task.\<close>

type_synonym waker = nat

type_synonym AtomicWaker = "waker option"

definition AtomicWaker_new :: AtomicWaker where
  "AtomicWaker_new = None"

definition AtomicWaker_register :: "waker \<Rightarrow> AtomicWaker \<Rightarrow> AtomicWaker" where
  "AtomicWaker_register new_waker slot = Some new_waker"

text \<open>\<open>take\<close> inside the critical section; the waker found there is woken outside of it.\<close>

definition AtomicWaker_wake :: "AtomicWaker \<Rightarrow> AtomicWaker \<times> waker option" where
  "AtomicWaker_wake slot = (None, slot)"

subsection \<open>The waiting task and the logger\<close>

text \<open>
  \<open>Polling\<close>: the executor runs the task, \<open>poll\<close> is about to start. \<open>Registered\<close>: between the two
  statements of the closure. \<open>Sleeping\<close>: \<open>poll\<close> returned \<open>Pending\<close>. \<open>Ready\<close>: it returned \<open>Ready\<close>,
  and the task goes on to read.
\<close>

datatype task_pc = Polling | Registered | Sleeping | Ready

text \<open>
  The logger may push any number of chunks, then takes the waker, then wakes it.
\<close>

datatype log_pc = LogIdle | LogWrote | LogTook "waker option"

record async =
  shared :: ring
  slot :: AtomicWaker
  task :: task_pc
  notified :: bool
  logging :: log_pc

text \<open>The two statements of the closure that \<open>wait_for_data\<close> polls, for the task \<open>me\<close>.\<close>

fun wait_for_data_poll :: "waker \<Rightarrow> async \<Rightarrow> async" where
  "wait_for_data_poll me s =
     (case task s of
        Polling \<Rightarrow> s\<lparr>slot := AtomicWaker_register me (slot s), task := Registered\<rparr>
      | Registered \<Rightarrow> s\<lparr>task := (if Consumer_is_empty (shared s) then Sleeping else Ready)\<rparr>
      | _ \<Rightarrow> s)"

text \<open>The wake-up at the end of \<open>release\<close>, in its two steps.\<close>

fun wake_step :: "waker \<Rightarrow> async \<Rightarrow> async" where
  "wake_step me s =
     (case logging s of
        LogWrote \<Rightarrow> (let (slot', w) = AtomicWaker_wake (slot s) in s\<lparr>slot := slot', logging := LogTook w\<rparr>)
      | LogTook w \<Rightarrow> s\<lparr>notified := (notified s \<or> w = Some me), logging := LogIdle\<rparr>
      | LogIdle \<Rightarrow> s)"

text \<open>
  The executor polls a task again after its waker was used, also if that happened while the
  poll was running; it may also poll without reason.
\<close>

inductive async_step :: "features \<Rightarrow> waker \<Rightarrow> async \<Rightarrow> async \<Rightarrow> bool" for ft me where
  task_poll: "task s \<in> {Polling, Registered} \<Longrightarrow> async_step ft me s (wait_for_data_poll me s)"
| task_wakes: "task s = Sleeping \<Longrightarrow> async_step ft me s (s\<lparr>task := Polling, notified := False\<rparr>)"
| task_reads: "task s = Ready \<Longrightarrow> consume ft k (shared s) = Inr v \<Longrightarrow>
     async_step ft me s (s\<lparr>shared := v, task := Polling\<rparr>)"
| log_pushes: "logging s \<in> {LogIdle, LogWrote} \<Longrightarrow> Producer_write ft data (shared s) = Inr v \<Longrightarrow>
     async_step ft me s (s\<lparr>shared := v, logging := LogWrote\<rparr>)"
| log_wakes: "logging s \<noteq> LogIdle \<Longrightarrow> async_step ft me s (wake_step me s)"

inductive_cases async_stepE: "async_step ft me s t"

inductive async_reach :: "features \<Rightarrow> waker \<Rightarrow> async \<Rightarrow> async \<Rightarrow> bool" for ft me where
  reach_refl: "async_reach ft me s s"
| reach_step: "async_reach ft me s t \<Longrightarrow> async_step ft me t u \<Longrightarrow> async_reach ft me s u"

text \<open>After \<open>init\<close>: the task is about to poll for the first time, nothing is being logged.\<close>

definition async_start :: "ring \<Rightarrow> async" where
  "async_start v = \<lparr>shared = v, slot = AtomicWaker_new, task = Polling, notified = False, logging = LogIdle\<rparr>"

subsection \<open>No wake-up is lost\<close>

text \<open>A wake-up for \<open>me\<close> has happened, or is certain to happen when the logger goes on.\<close>

definition wake_due :: "waker \<Rightarrow> async \<Rightarrow> bool" where
  "wake_due me s \<longleftrightarrow> notified s \<or> logging s = LogTook (Some me) \<or> (logging s = LogWrote \<and> slot s = Some me)"

definition async_ok :: "waker \<Rightarrow> async \<Rightarrow> bool" where
  "async_ok me s \<longleftrightarrow> ring_ok (shared s) \<and>
     (task s \<in> {Registered, Sleeping} \<longrightarrow> slot s = Some me \<or> notified s \<or> logging s = LogTook (Some me)) \<and>
     (task s = Sleeping \<longrightarrow> \<not> Consumer_is_empty (shared s) \<longrightarrow> wake_due me s)"

lemmas async_defs = async_ok_def wake_due_def AtomicWaker_register_def AtomicWaker_wake_def AtomicWaker_new_def

lemma async_step_ok:
  assumes "async_step ft me s t" and ok: "async_ok me s"
  shows "async_ok me t"
  using assms(1)
proof cases
  case task_poll
  then consider "task s = Polling" | "task s = Registered" by blast
  then show ?thesis using ok by cases (simp_all add: task_poll(1) async_defs split: if_splits)
next
  case task_wakes
  then show ?thesis using ok by (simp add: async_defs)
next
  case (task_reads k v)
  then have "ring_ok v" using ok task_reads ring_queue.pop_valid unfolding async_ok_def by blast
  then show ?thesis using task_reads by (simp add: async_defs)
next
  case (log_pushes data v)
  then have "ring_ok v" using ok log_pushes ring_queue.push_valid unfolding async_ok_def by blast
  then show ?thesis using log_pushes ok by (auto simp: async_defs)
next
  case log_wakes
  then show ?thesis using ok by (cases "logging s") (auto simp: async_defs)
qed

lemma async_reach_ok: "async_reach ft me s t \<Longrightarrow> async_ok me s \<Longrightarrow> async_ok me t"
  by (induction rule: async_reach.induct) (auto intro: async_step_ok)

lemma async_start_ok: "ring_ok v \<Longrightarrow> async_ok me (async_start v)"
  by (simp add: async_start_def async_defs)

subsection \<open>Properties\<close>

text \<open>
  C10: however the polls of the waiting task interleave with logging, a task that sleeps while
  the ring holds data has been notified or is about to be by the logger that is running; when
  the logger is idle it has been notified. The order of the two statements in
  \<open>wait_for_data\<close>, register and then check, is what makes this hold.
\<close>

theorem wait_for_data_no_lost_wakeup:
  assumes "ring_ok v" and "async_reach ft me (async_start v) s"
    and "task s = Sleeping" and "content (shared s) \<noteq> []"
  shows "wake_due me s \<and> (logging s = LogIdle \<longrightarrow> notified s)"
proof -
  have ok: "async_ok me s" by (rule async_reach_ok [OF assms(2) async_start_ok [OF assms(1)]])
  then have "\<not> Consumer_is_empty (shared s)"
    using Consumer_is_empty_iff assms(4) by (simp add: async_ok_def)
  with ok assms(3) show ?thesis by (auto simp: async_ok_def wake_due_def)
qed

theorem wait_for_data_no_lost_wakeup_witness:
  "\<exists>s. async_reach default_features 5 (async_start (RingBuffer_new default_features 0 0 [0, 0, 0, 0])) s \<and>
     task s = Sleeping \<and> content (shared s) = [7] \<and> logging s = LogWrote \<and> wake_due 5 s"
proof -
  let ?v = "RingBuffer_new default_features 0 0 [0, 0, 0, 0]"
  have ok: "ring_ok ?v" and c: "content ?v = []" by (simp_all add: ring_eval)
  obtain u where u: "Producer_write default_features [7] ?v = Inr u" using ring_queue.push_total [OF ok] by blast
  have "length (buf ?v) = 4" by (simp add: RingBuffer_new_def)
  then have cu: "content u = [7]" using ring_queue.push_content [OF ok u] c by (simp add: space_def)
  have empty: "Consumer_is_empty ?v" using Consumer_is_empty_iff [OF ok] c by simp
  let ?s0 = "async_start ?v" and ?s1 = "\<lparr>shared = ?v, slot = Some 5, task = Registered, notified = False, logging = LogIdle\<rparr>"
  let ?s2 = "?s1\<lparr>task := Sleeping\<rparr>" and ?s3 = "?s1\<lparr>task := Sleeping, shared := u, logging := LogWrote\<rparr>"
  have "async_step default_features 5 ?s0 ?s1"
    using task_poll [of ?s0 default_features 5] by (simp add: async_start_def AtomicWaker_register_def)
  moreover have "async_step default_features 5 ?s1 ?s2"
    using task_poll [of ?s1 default_features 5] empty by simp
  moreover have "async_step default_features 5 ?s2 ?s3"
    using log_pushes [of ?s2 default_features "[7]" u 5] u by simp
  ultimately have r: "async_reach default_features 5 ?s0 ?s3" by (blast intro: async_reach.intros)
  have "wake_due 5 ?s3"
    using wait_for_data_no_lost_wakeup [OF ok r] cu by simp
  then show ?thesis using r cu by (intro exI [of _ ?s3]) simp
qed

end
