(* ===== verification/Rtt.thy ===== *)
theory Rtt
  imports RingBuffer
begin

unbundle bit_operations_syntax

text \<open>
  The RTT output channel of \<open>src/logger/rtt.rs\<close>: the control block, the two write modes, the
  write loop and \<open>flush\<close>.

  The debugger on the other side is the parameter \<open>host\<close>: \<open>host t ch\<close> is the value that the
  \<open>t\<close>-th load of the channel's \<open>read\<close> field finds when the channel is \<open>ch\<close>. The RTT protocol,
  by which the host moves \<open>read\<close> forward over bytes it has received and never past \<open>write\<close>, is
  the hypothesis \<open>host_conforms\<close>; that it eventually makes room is \<open>host_drains\<close>. Both are
  used only where a statement names them. The field \<open>received\<close> is not memory of the target: it
  records the bytes that the host has moved past.

  \<open>BUF_SIZE\<close>, which the build script generates, is the length of the buffer.
\<close>

subsection \<open>The control block\<close>

definition MODE_MASK :: u32 where
  "MODE_MASK = 3"

definition MODE_BLOCK_IF_FULL :: u32 where
  "MODE_BLOCK_IF_FULL = 2"

definition MODE_NON_BLOCKING_TRIM :: u32 where
  "MODE_NON_BLOCKING_TRIM = 1"

record Channel =
  ch_name :: string
  ch_buffer :: "u8 list"
  ch_size :: u32
  ch_write :: u32
  ch_read :: u32
  ch_flags :: u32

record RttHeader =
  rtt_id :: string
  max_up_channels :: u32
  max_down_channels :: u32
  up_channel :: Channel

definition RttHeader_new :: "string \<Rightarrow> u8 list \<Rightarrow> RttHeader" where
  "RttHeader_new name buffer =
     \<lparr>rtt_id = ''SEGGER RTT'' @ replicate 6 (CHR 0x00), max_up_channels = 1, max_down_channels = 0,
      up_channel = \<lparr>ch_name = name, ch_buffer = buffer, ch_size = as_u32 (length buffer),
        ch_write = 0, ch_read = 0, ch_flags = MODE_NON_BLOCKING_TRIM\<rparr>\<rparr>"

record rtt = Channel +
  received :: "u8 list"

type_synonym host = "nat \<Rightarrow> rtt \<Rightarrow> u32"

text \<open>The channel as the \<open>t\<close>-th load of \<open>read\<close> finds it.\<close>

definition host_turn :: "host \<Rightarrow> nat \<Rightarrow> rtt \<Rightarrow> rtt" where
  "host_turn host t ch =
     (let n = length (ch_buffer ch); r = as_usize (ch_read ch); w = as_usize (ch_write ch); r' = host t ch in
      ch\<lparr>ch_read := r',
         received := received ch @ take ((as_usize r' + n - r) mod n) (circ_content (ch_buffer ch) r w)\<rparr>)"

subsection \<open>Operations\<close>

definition available_buffer_size :: "usize \<Rightarrow> usize \<Rightarrow> usize \<Rightarrow> usize res" where
  "available_buffer_size BUF_SIZE read_cursor write_cursor =
     (if read_cursor > write_cursor then
        res_bind (usub read_cursor write_cursor) (\<lambda>a. usub a 1)
      else
        res_bind (usub BUF_SIZE write_cursor) (\<lambda>a. res_bind (usub a 1) (\<lambda>b. uadd b read_cursor)))"

definition write_impl :: "rtt \<Rightarrow> u8 list \<Rightarrow> usize \<Rightarrow> usize \<Rightarrow> (usize \<times> rtt) res" where
  "write_impl ch bytes cursor available =
     (let len = min (length bytes) available;
          BUF_SIZE = length (ch_buffer ch)
      in res_bind (uadd cursor len) (\<lambda>end.
         res_bind
           (if end > BUF_SIZE then
              res_bind (usub BUF_SIZE cursor) (\<lambda>pivot.
              res_bind (copy_nonoverlapping bytes 0 (ch_buffer ch) cursor pivot) (\<lambda>b1.
              res_bind (usub len pivot) (\<lambda>rest.
                copy_nonoverlapping bytes pivot b1 0 rest)))
            else copy_nonoverlapping bytes 0 (ch_buffer ch) cursor len) (\<lambda>b.
         res_bind (urem (uwrapping_add cursor len) BUF_SIZE) (\<lambda>w.
           Inr (len, ch\<lparr>ch_buffer := b, ch_write := as_u32 w\<rparr>)))))"

text \<open>The write functions return the bytes consumed, the next load time and the channel.\<close>

definition blocking_write :: "host \<Rightarrow> nat \<Rightarrow> rtt \<Rightarrow> u8 list \<Rightarrow> (usize \<times> nat \<times> rtt) res" where
  "blocking_write host t ch bytes =
     (if bytes = [] then Inr (0, t, ch)
      else
        let ch1 = host_turn host t ch;
            read = as_usize (ch_read ch1);
            write = as_usize (ch_write ch1)
        in res_bind (available_buffer_size (length (ch_buffer ch1)) read write) (\<lambda>available.
           if available = 0 then Inr (0, t + 1, ch1)
           else res_bind (write_impl ch1 bytes write available) (\<lambda>(n, ch2). Inr (n, t + 1, ch2))))"

definition nonblocking_write :: "host \<Rightarrow> nat \<Rightarrow> rtt \<Rightarrow> u8 list \<Rightarrow> (usize \<times> nat \<times> rtt) res" where
  "nonblocking_write host t ch bytes =
     (let ch1 = host_turn host t ch;
          read = as_usize (ch_read ch1);
          write = as_usize (ch_write ch1)
      in res_bind (available_buffer_size (length (ch_buffer ch1)) read write) (\<lambda>available.
         res_bind (write_impl ch1 bytes write available) (\<lambda>(n, ch2). Inr (n, t + 1, ch2))))"

definition host_is_connected :: "rtt \<Rightarrow> bool" where
  "host_is_connected ch = (ch_flags ch AND MODE_MASK = MODE_BLOCK_IF_FULL)"

text \<open>
  The loop of \<open>write_all\<close>. It may spin for ever when a connected host stops reading: \<open>None\<close> is
  "does not return". The slice \<open>&bytes[consumed..]\<close> would panic past the end.
\<close>

partial_function (option) write_loop ::
    "host \<Rightarrow> bool \<Rightarrow> nat \<Rightarrow> rtt \<Rightarrow> u8 list \<Rightarrow> (nat \<times> rtt) res option" where
  "write_loop host host_connected t ch bytes =
     (if bytes = [] then Some (Inr (t, ch))
      else
        case (if host_connected then blocking_write host t ch bytes
              else nonblocking_write host t ch bytes) of
          Inl e \<Rightarrow> Some (Inl e)
        | Inr r \<Rightarrow>
            (case r of (consumed, t1, ch1) \<Rightarrow>
               if consumed \<noteq> 0 then
                 (if consumed \<le> length bytes
                  then write_loop host host_connected t1 ch1 (drop consumed bytes)
                  else Some (Inl OutOfBounds))
               else if \<not> host_connected then Some (Inr (t1, ch1))
               else write_loop host host_connected t1 ch1 bytes))"

definition Channel_write_all :: "host \<Rightarrow> nat \<Rightarrow> rtt \<Rightarrow> u8 list \<Rightarrow> (nat \<times> rtt) res option" where
  "Channel_write_all host t ch bytes = write_loop host (host_is_connected ch) t ch bytes"

partial_function (option) flush_loop :: "host \<Rightarrow> nat \<Rightarrow> rtt \<Rightarrow> (nat \<times> rtt) option" where
  "flush_loop host t ch =
     (let ch1 = host_turn host t ch in
      if ch_read ch1 \<noteq> ch_write ch1 then flush_loop host (t + 1) ch1 else Some (t + 1, ch1))"

definition Channel_flush :: "host \<Rightarrow> nat \<Rightarrow> rtt \<Rightarrow> (nat \<times> rtt) option" where
  "Channel_flush host t ch =
     (if \<not> host_is_connected ch then Some (t, ch) else flush_loop host t ch)"

subsection \<open>Invariant, abstraction, protocol\<close>

definition channel_ok :: "rtt \<Rightarrow> bool" where
  "channel_ok ch \<longleftrightarrow> as_usize (ch_read ch) < length (ch_buffer ch) \<and>
     as_usize (ch_write ch) < length (ch_buffer ch) \<and> 2 * length (ch_buffer ch) < usize_limit"

definition pending_bytes :: "rtt \<Rightarrow> u8 list" where
  "pending_bytes ch = circ_content (ch_buffer ch) (as_usize (ch_read ch)) (as_usize (ch_write ch))"

definition channel_room :: "rtt \<Rightarrow> nat" where
  "channel_room ch = length (ch_buffer ch) - 1 - length (pending_bytes ch)"

text \<open>Everything that went through the channel: received by the host or still in the buffer.\<close>

definition rtt_stream :: "rtt \<Rightarrow> u8 list" where
  "rtt_stream ch = received ch @ pending_bytes ch"

definition host_conforms :: "host \<Rightarrow> bool" where
  "host_conforms host \<longleftrightarrow> (\<forall>t ch. channel_ok ch \<longrightarrow>
     (\<exists>k\<le>length (pending_bytes ch).
        as_usize (host t ch) = (as_usize (ch_read ch) + k) mod length (ch_buffer ch)))"

text \<open>The channel after \<open>k\<close> loads of \<open>read\<close> with no write in between.\<close>

fun host_turns :: "host \<Rightarrow> nat \<Rightarrow> nat \<Rightarrow> rtt \<Rightarrow> rtt" where
  "host_turns host 0 t ch = ch"
| "host_turns host (Suc k) t ch = host_turns host k (t + 1) (host_turn host t ch)"

definition host_drains :: "host \<Rightarrow> bool" where
  "host_drains host \<longleftrightarrow> (\<forall>t ch. channel_ok ch \<longrightarrow> (\<exists>k. pending_bytes (host_turns host (Suc k) t ch) = []))"

lemma channel_ok_circ:
  "channel_ok ch \<Longrightarrow> circ_ok (ch_buffer ch) (as_usize (ch_read ch)) (as_usize (ch_write ch))"
  by (simp add: channel_ok_def circ_ok_def)

lemma length_pending_less: "channel_ok ch \<Longrightarrow> length (pending_bytes ch) < length (ch_buffer ch)"
  using circ_len_less [OF channel_ok_circ] length_circ_content [OF channel_ok_circ]
  by (simp add: pending_bytes_def)

lemma channel_room_eq:
  "channel_ok ch \<Longrightarrow>
   channel_room ch = circ_free (length (ch_buffer ch)) (as_usize (ch_read ch)) (as_usize (ch_write ch))"
  by (simp add: channel_room_def pending_bytes_def circ_free_def length_circ_content channel_ok_circ)

lemma host_turn_fields [simp]:
  "ch_buffer (host_turn host t ch) = ch_buffer ch"
  "ch_write (host_turn host t ch) = ch_write ch"
  "ch_flags (host_turn host t ch) = ch_flags ch"
  by (simp_all add: host_turn_def Let_def)

text \<open>A conforming turn of the host moves bytes from the buffer to \<open>received\<close>.\<close>

lemma host_turn_ok:
  assumes h: "host_conforms host" and ok: "channel_ok ch"
  shows "channel_ok (host_turn host t ch)" "rtt_stream (host_turn host t ch) = rtt_stream ch"
    "length (pending_bytes (host_turn host t ch)) \<le> length (pending_bytes ch)"
proof -
  let ?n = "length (ch_buffer ch)" and ?r = "as_usize (ch_read ch)" and ?w = "as_usize (ch_write ch)"
  obtain k where k: "k \<le> length (pending_bytes ch)" "as_usize (host t ch) = (?r + k) mod ?n"
    using h ok unfolding host_conforms_def by blast
  have k': "k \<le> circ_len ?n ?r ?w" "k < ?n" "?r < ?n"
    using k(1) length_pending_less [OF ok] ok length_circ_content [OF channel_ok_circ [OF ok]]
    unfolding channel_ok_def pending_bytes_def by linarith+
  have "((?r + k) mod ?n + ?n - ?r) mod ?n = k"
    using k' by (auto simp: mod_one_turn)
  then have rec: "received (host_turn host t ch) = received ch @ take k (pending_bytes ch)"
    by (simp add: host_turn_def Let_def k(2) pending_bytes_def)
  have read: "as_usize (ch_read (host_turn host t ch)) = (?r + k) mod ?n"
    using k(2) by (simp add: host_turn_def Let_def)
  have pend: "pending_bytes (host_turn host t ch) = drop k (pending_bytes ch)"
    unfolding pending_bytes_def read
    using circ_content_take [OF channel_ok_circ [OF ok] k'(1)] by simp
  show "channel_ok (host_turn host t ch)"
    using ok read by (auto simp: channel_ok_def intro: mod_less_some)
  show "rtt_stream (host_turn host t ch) = rtt_stream ch"
    unfolding rtt_stream_def rec pend by simp
  show "length (pending_bytes (host_turn host t ch)) \<le> length (pending_bytes ch)"
    unfolding pend by simp
qed

subsection \<open>One write\<close>

lemma write_impl_copy:
  "write_impl ch bytes cursor available =
     (let len = min (length bytes) available in
      res_bind (Producer_copy bytes (ch_buffer ch) cursor len) (\<lambda>b.
      res_bind (urem (uwrapping_add cursor len) (length (ch_buffer ch))) (\<lambda>w.
        Inr (len, ch\<lparr>ch_buffer := b, ch_write := as_u32 w\<rparr>))))"
  by (simp add: write_impl_def Producer_copy_def Let_def res_bind_assoc)

definition put_bytes :: "u8 list \<Rightarrow> rtt \<Rightarrow> rtt" where
  "put_bytes d ch =
     ch\<lparr>ch_buffer := circ_put (ch_buffer ch) (as_usize (ch_write ch)) d,
        ch_write := as_u32 ((as_usize (ch_write ch) + length d) mod length (ch_buffer ch))\<rparr>"

lemma channel_available:
  assumes ok: "channel_ok ch"
  shows "available_buffer_size (length (ch_buffer ch)) (as_usize (ch_read ch)) (as_usize (ch_write ch))
       = Inr (channel_room ch)"
proof -
  have "available_buffer_size n r w = Producer_available n r w" for n r w
    by (simp add: available_buffer_size_def Producer_available_def)
  then show ?thesis
    using Producer_available_eq [of "as_usize (ch_read ch)" "length (ch_buffer ch)" "as_usize (ch_write ch)"]
      ok channel_room_eq [OF ok] by (simp add: channel_ok_def)
qed

lemma write_impl_eq:
  assumes ok: "channel_ok ch"
  shows "write_impl ch bytes (as_usize (ch_write ch)) (channel_room ch) =
     Inr (min (length bytes) (channel_room ch), put_bytes (take (channel_room ch) bytes) ch)"
proof -
  let ?n = "length (ch_buffer ch)" and ?w = "as_usize (ch_write ch)"
  define k where "k = min (length bytes) (channel_room ch)"
  have n: "?w < ?n" "0 < ?n" "k < ?n" "k \<le> length bytes" "?w + k < usize_limit"
    using ok length_pending_less [OF ok] by (auto simp: channel_ok_def channel_room_def k_def)
  have d: "take k bytes = take (channel_room ch) bytes" "length (take (channel_room ch) bytes) = k"
    by (simp_all add: min_def k_def)
  show ?thesis
    using Producer_copy_eq [OF n(1,3,4,5)] n d
    by (simp add: write_impl_copy put_bytes_def Let_def checked flip: k_def)
qed

lemma put_bytes_props:
  assumes ok: "channel_ok ch" and d: "length d \<le> channel_room ch"
  shows "channel_ok (put_bytes d ch)" "pending_bytes (put_bytes d ch) = pending_bytes ch @ d"
    "rtt_stream (put_bytes d ch) = rtt_stream ch @ d"
    "length (ch_buffer (put_bytes d ch)) = length (ch_buffer ch)"
    "ch_flags (put_bytes d ch) = ch_flags ch"
proof -
  let ?n = "length (ch_buffer ch)" and ?w = "as_usize (ch_write ch)"
  have fits: "length d \<le> circ_free ?n (as_usize (ch_read ch)) ?w"
    using d channel_room_eq [OF ok] by simp
  have w: "?w < ?n" "0 < ?n" "length d \<le> ?n" using ok d by (auto simp: channel_ok_def channel_room_def)
  have "(?w + length d) mod ?n < ?n" using w(2) by simp
  then have "(?w + length d) mod ?n < usize_limit" using ok unfolding channel_ok_def by linarith
  then have wr: "as_usize (ch_write (put_bytes d ch)) = (?w + length d) mod ?n"
    by (simp add: put_bytes_def)
  show len: "length (ch_buffer (put_bytes d ch)) = ?n" using w by (simp add: put_bytes_def)
  show "channel_ok (put_bytes d ch)"
    using ok wr len w(2) by (simp add: channel_ok_def) (simp add: put_bytes_def)
  show p: "pending_bytes (put_bytes d ch) = pending_bytes ch @ d"
    unfolding pending_bytes_def wr
    using circ_content_put [OF channel_ok_circ [OF ok] fits] by (simp add: put_bytes_def)
  show "rtt_stream (put_bytes d ch) = rtt_stream ch @ d"
    unfolding rtt_stream_def p by (simp add: put_bytes_def)
  show "ch_flags (put_bytes d ch) = ch_flags ch" by (simp add: put_bytes_def)
qed

text \<open>Both write functions put the prefix that fits after the host's turn.\<close>

lemma write_fns_eq:
  assumes ok: "channel_ok (host_turn host t ch)" and ne: "bytes \<noteq> []"
  defines "ch1 \<equiv> host_turn host t ch"
  shows "nonblocking_write host t ch bytes =
      Inr (min (length bytes) (channel_room ch1), t + 1, put_bytes (take (channel_room ch1) bytes) ch1)"
    and "blocking_write host t ch bytes =
      Inr (min (length bytes) (channel_room ch1), t + 1,
        if channel_room ch1 = 0 then ch1 else put_bytes (take (channel_room ch1) bytes) ch1)"
  using ok ne channel_available [of ch1] write_impl_eq [of ch1 bytes]
  by (simp_all add: ch1_def nonblocking_write_def blocking_write_def Let_def)

subsection \<open>The loops\<close>

lemma write_loop_Nil [simp]: "write_loop host c t ch [] = Some (Inr (t, ch))"
  by (subst write_loop.simps) simp

lemma nonblocking_step:
  assumes "channel_ok (host_turn host t ch)" and ne: "bytes \<noteq> []"
  defines "ch1 \<equiv> host_turn host t ch"
  shows "write_loop host False t ch bytes =
    (if channel_room ch1 = 0 then Some (Inr (t + 1, put_bytes [] ch1))
     else write_loop host False (t + 1) (put_bytes (take (channel_room ch1) bytes) ch1)
            (drop (channel_room ch1) bytes))"
proof -
  have "drop (min (length bytes) k) bytes = drop k bytes" for k by (auto simp: min_def)
  then show ?thesis
    using write_fns_eq(1) [OF assms(1) ne] ne
    by (subst write_loop.simps) (simp add: ch1_def)
qed

lemma blocking_step:
  assumes "channel_ok (host_turn host t ch)" and ne: "bytes \<noteq> []"
  defines "ch1 \<equiv> host_turn host t ch"
  shows "write_loop host True t ch bytes =
    (if channel_room ch1 = 0 then write_loop host True (t + 1) ch1 bytes
     else write_loop host True (t + 1) (put_bytes (take (channel_room ch1) bytes) ch1)
            (drop (channel_room ch1) bytes))"
proof -
  have "drop (min (length bytes) k) bytes = drop k bytes" for k by (auto simp: min_def)
  then show ?thesis
    using write_fns_eq(2) [OF assms(1) ne] ne
    by (subst write_loop.simps) (simp add: ch1_def)
qed

text \<open>What a write loop that returns has done, in either mode: it appended \<open>m\<close> bytes.\<close>

definition wrote :: "rtt \<Rightarrow> u8 list \<Rightarrow> nat \<Rightarrow> rtt \<Rightarrow> bool" where
  "wrote ch bytes m ch' \<longleftrightarrow> channel_ok ch' \<and> ch_flags ch' = ch_flags ch \<and>
     length (ch_buffer ch') = length (ch_buffer ch) \<and>
     m \<le> length bytes \<and> rtt_stream ch' = rtt_stream ch @ take m bytes"

lemma wrote_step:
  fixes t :: nat and bytes :: "u8 list"
  assumes h: "host_conforms host" and ok: "channel_ok ch"
  defines "ch1 \<equiv> host_turn host t ch"
  assumes rest: "wrote (put_bytes (take (channel_room ch1) bytes) ch1) (drop (channel_room ch1) bytes) m ch'"
  shows "wrote ch bytes (min (length bytes) (channel_room ch1) + m) ch'"
proof -
  let ?d = "take (channel_room ch1) bytes"
  have ok1: "channel_ok ch1" "rtt_stream ch1 = rtt_stream ch" "length (ch_buffer ch1) = length (ch_buffer ch)"
    "ch_flags ch1 = ch_flags ch"
    using host_turn_ok [OF h ok] by (simp_all add: ch1_def)
  have put: "rtt_stream (put_bytes ?d ch1) = rtt_stream ch1 @ ?d"
    "length (ch_buffer (put_bytes ?d ch1)) = length (ch_buffer ch1)" "ch_flags (put_bytes ?d ch1) = ch_flags ch1"
    using put_bytes_props [OF ok1(1), of ?d] by simp_all
  have "?d @ take m (drop (channel_room ch1) bytes) = take (min (length bytes) (channel_room ch1) + m) bytes"
    by (simp add: take_add min_def)
  then show ?thesis using rest put ok1 by (auto simp: wrote_def)
qed

lemma nonblocking_loop:
  assumes h: "host_conforms host" and ok: "channel_ok ch"
  shows "\<exists>t' ch' m. write_loop host False t ch bytes = Some (Inr (t', ch')) \<and> wrote ch bytes m ch' \<and>
     t' \<le> t + length bytes \<and> (m < length bytes \<longrightarrow> channel_room ch' = 0)"
  using ok
proof (induction "length bytes" arbitrary: t ch bytes rule: less_induct)
  case less
  let ?ch1 = "host_turn host t ch"
  have ok1: "channel_ok ?ch1" by (rule host_turn_ok [OF h less.prems])
  show ?case
  proof (cases "bytes = []")
    case True
    then show ?thesis using less.prems by (simp add: wrote_def)
  next
    case ne: False
    show ?thesis
    proof (cases "channel_room ?ch1 = 0")
      case True
      have put: "channel_room (put_bytes [] ?ch1) = 0"
        using put_bytes_props [OF ok1, of "[]"] True by (simp add: channel_room_def)
      have "wrote ch bytes 0 (put_bytes [] ?ch1)"
        using put_bytes_props [OF ok1, of "[]"] host_turn_ok [OF h less.prems, of t] by (simp add: wrote_def)
      moreover have "t + 1 \<le> t + length bytes" using ne by (simp add: Suc_le_eq)
      ultimately show ?thesis using put nonblocking_step [OF ok1 ne] True by auto
    next
      case False
      let ?k = "channel_room ?ch1"
      have sh: "length (drop ?k bytes) < length bytes" using False ne by simp
      have okp: "channel_ok (put_bytes (take ?k bytes) ?ch1)" by (rule put_bytes_props [OF ok1]) simp
      obtain t' ch' m where it: "write_loop host False (t + 1) (put_bytes (take ?k bytes) ?ch1) (drop ?k bytes)
           = Some (Inr (t', ch'))" "wrote (put_bytes (take ?k bytes) ?ch1) (drop ?k bytes) m ch'"
        "t' \<le> t + 1 + length (drop ?k bytes)" "m < length (drop ?k bytes) \<longrightarrow> channel_room ch' = 0"
        using less.hyps [OF sh okp, of "t + 1"] by blast
      have "wrote ch bytes (min (length bytes) ?k + m) ch'" by (rule wrote_step [OF h less.prems it(2)])
      moreover have "t' \<le> t + length bytes" using it(3) sh by linarith
      moreover have "min (length bytes) ?k + m < length bytes \<longrightarrow> channel_room ch' = 0"
        using it(4) by auto
      ultimately show ?thesis using nonblocking_step [OF ok1 ne] False it(1) by auto
    qed
  qed
qed

lemma wrote_host_turn:
  "host_conforms host \<Longrightarrow> channel_ok ch \<Longrightarrow> wrote (host_turn host t ch) bytes m ch' \<Longrightarrow> wrote ch bytes m ch'"
  using host_turn_ok [of host ch t] by (simp add: wrote_def)

lemma blocking_spin:
  assumes h: "host_conforms host"
    and shorter: "\<And>t ch bs. length bs < length bytes \<Longrightarrow> channel_ok ch \<Longrightarrow> 1 < length (ch_buffer ch) \<Longrightarrow>
      \<exists>t' ch'. write_loop host True t ch bs = Some (Inr (t', ch')) \<and> wrote ch bs (length bs) ch'"
  shows "pending_bytes (host_turns host (Suc k) t ch) = [] \<Longrightarrow> channel_ok ch \<Longrightarrow> 1 < length (ch_buffer ch) \<Longrightarrow>
    bytes \<noteq> [] \<Longrightarrow>
    \<exists>t' ch'. write_loop host True t ch bytes = Some (Inr (t', ch')) \<and> wrote ch bytes (length bytes) ch'"
proof (induction k arbitrary: t ch)
  fix k t ch
  assume ok: "channel_ok ch" and size: "1 < length (ch_buffer ch)" and ne: "bytes \<noteq> []"
  let ?ch1 = "host_turn host t ch"
  have ok1: "channel_ok ?ch1" by (rule host_turn_ok [OF h ok])
  have go: "\<exists>t' ch'. write_loop host True t ch bytes = Some (Inr (t', ch')) \<and> wrote ch bytes (length bytes) ch'"
    if room: "channel_room ?ch1 \<noteq> 0"
  proof -
    let ?k = "channel_room ?ch1"
    have put: "channel_ok (put_bytes (take ?k bytes) ?ch1)" "1 < length (ch_buffer (put_bytes (take ?k bytes) ?ch1))"
      using put_bytes_props [OF ok1, of "take ?k bytes"] size by simp_all
    have "length (drop ?k bytes) < length bytes" using room ne by simp
    from shorter [OF this put, of "t + 1"] obtain t' ch'
      where it: "write_loop host True (t + 1) (put_bytes (take ?k bytes) ?ch1) (drop ?k bytes) = Some (Inr (t', ch'))"
        "wrote (put_bytes (take ?k bytes) ?ch1) (drop ?k bytes) (length (drop ?k bytes)) ch'" by blast
    have "min (length bytes) ?k + length (drop ?k bytes) = length bytes" by simp
    then have "wrote ch bytes (length bytes) ch'" using wrote_step [OF h ok it(2)] by simp
    then show ?thesis using blocking_step [OF ok1 ne] room it(1) by simp
  qed
  show "\<exists>t' ch'. write_loop host True t ch bytes = Some (Inr (t', ch')) \<and> wrote ch bytes (length bytes) ch'"
    if "pending_bytes (host_turns host (Suc 0) t ch) = []"
    using go that size by (simp add: channel_room_def)
  show "\<exists>t' ch'. write_loop host True t ch bytes = Some (Inr (t', ch')) \<and> wrote ch bytes (length bytes) ch'"
    if IH: "\<And>t ch. pending_bytes (host_turns host (Suc k) t ch) = [] \<Longrightarrow> channel_ok ch \<Longrightarrow>
         1 < length (ch_buffer ch) \<Longrightarrow> bytes \<noteq> [] \<Longrightarrow>
         \<exists>t' ch'. write_loop host True t ch bytes = Some (Inr (t', ch')) \<and> wrote ch bytes (length bytes) ch'"
      and last: "pending_bytes (host_turns host (Suc (Suc k)) t ch) = []"
  proof (cases "channel_room ?ch1 = 0")
    case True
    have "pending_bytes (host_turns host (Suc k) (t + 1) ?ch1) = []" using last by simp
    from IH [OF this ok1 _ ne] size show ?thesis
      using blocking_step [OF ok1 ne] True wrote_host_turn [OF h ok] by fastforce
  qed (rule go)
qed

lemma blocking_loop:
  assumes h: "host_conforms host" "host_drains host"
  shows "channel_ok ch \<Longrightarrow> 1 < length (ch_buffer ch) \<Longrightarrow>
    \<exists>t' ch'. write_loop host True t ch bytes = Some (Inr (t', ch')) \<and> wrote ch bytes (length bytes) ch'"
proof (induction "length bytes" arbitrary: t ch bytes rule: less_induct)
  case less
  show ?case
  proof (cases "bytes = []")
    case True
    then show ?thesis using less.prems by (simp add: wrote_def)
  next
    case False
    obtain k where k: "pending_bytes (host_turns host (Suc k) t ch) = []"
      using h(2) less.prems(1) unfolding host_drains_def by blast
    show ?thesis by (rule blocking_spin [OF h(1) less.hyps k less.prems False])
  qed
qed

text \<open>The condition of the flush loop, read \<open>\<noteq>\<close> write, says that bytes are pending.\<close>

lemma pending_Nil_iff: "channel_ok ch \<Longrightarrow> pending_bytes ch = [] \<longleftrightarrow> ch_read ch = ch_write ch"
  using circ_content_empty_iff [OF channel_ok_circ, of ch] by (auto simp: pending_bytes_def)

lemma flush_loop_drained:
  assumes h: "host_conforms host"
  shows "pending_bytes (host_turns host (Suc k) t ch) = [] \<Longrightarrow> channel_ok ch \<Longrightarrow>
    \<exists>t' ch'. flush_loop host t ch = Some (t', ch') \<and> pending_bytes ch' = [] \<and> received ch' = rtt_stream ch \<and>
      wrote ch [] 0 ch'"
proof (induction k arbitrary: t ch)
  case (0 t ch)
  have ok1: "channel_ok (host_turn host t ch)" "rtt_stream (host_turn host t ch) = rtt_stream ch"
    using host_turn_ok [OF h 0(2)] by simp_all
  have p: "pending_bytes (host_turn host t ch) = []" using 0(1) by simp
  then have "flush_loop host t ch = Some (t + 1, host_turn host t ch)"
    using pending_Nil_iff [OF ok1(1)] by (subst flush_loop.simps) (simp add: Let_def)
  then show ?case using p ok1 by (simp add: rtt_stream_def wrote_def)
next
  case (Suc k t ch)
  let ?ch1 = "host_turn host t ch"
  have ok1: "channel_ok ?ch1" "rtt_stream ?ch1 = rtt_stream ch"
    using host_turn_ok [OF h Suc.prems(2)] by simp_all
  show ?case
  proof (cases "pending_bytes ?ch1 = []")
    case True
    then have "flush_loop host t ch = Some (t + 1, ?ch1)"
      using pending_Nil_iff [OF ok1(1)] by (subst flush_loop.simps) (simp add: Let_def)
    then show ?thesis using True ok1 by (simp add: rtt_stream_def wrote_def)
  next
    case False
    then have "flush_loop host t ch = flush_loop host (t + 1) ?ch1"
      using pending_Nil_iff [OF ok1(1)] by (subst flush_loop.simps) (simp add: Let_def)
    then show ?thesis
      using Suc.IH [of "t + 1" ?ch1] Suc.prems(1) ok1 wrote_host_turn [OF h Suc.prems(2), of t "[]" 0] by fastforce
  qed
qed

text \<open>The flush loop ends at the first load that finds the buffer empty.\<close>

lemma flush_loop_first:
  assumes h: "host_conforms host"
  shows "pending_bytes (host_turns host (Suc k) t ch) = [] \<Longrightarrow> channel_ok ch \<Longrightarrow>
    \<forall>j<k. pending_bytes (host_turns host (Suc j) t ch) \<noteq> [] \<Longrightarrow>
    flush_loop host t ch = Some (t + Suc k, host_turns host (Suc k) t ch)"
proof (induction k arbitrary: t ch)
  case (0 t ch)
  then show ?case
    using pending_Nil_iff [OF host_turn_ok(1) [OF h 0(2)]] by (subst flush_loop.simps) (simp add: Let_def)
next
  case (Suc k t ch)
  let ?ch1 = "host_turn host t ch"
  have ok1: "channel_ok ?ch1" by (rule host_turn_ok [OF h Suc.prems(2)])
  have "pending_bytes ?ch1 \<noteq> []" using Suc.prems(3) by (auto dest: spec [of _ 0])
  then have "flush_loop host t ch = flush_loop host (t + 1) ?ch1"
    using pending_Nil_iff [OF ok1] by (subst flush_loop.simps) (simp add: Let_def)
  moreover have "\<forall>j<k. pending_bytes (host_turns host (Suc j) (t + 1) ?ch1) \<noteq> []"
    using Suc.prems(3) by (auto dest: spec [of _ "Suc _"])
  ultimately show ?case using Suc.IH [of "t + 1" ?ch1] Suc.prems(1) ok1 by simp
qed

text \<open>
  The two calls that the logger makes, in either mode: they return when a connected host keeps
  draining.
\<close>

definition host_live :: "host \<Rightarrow> rtt \<Rightarrow> bool" where
  "host_live host ch \<longleftrightarrow> host_conforms host \<and>
     (host_is_connected ch \<longrightarrow> host_drains host \<and> 1 < length (ch_buffer ch))"

lemma wrote_live: "wrote ch bytes m ch' \<Longrightarrow> host_live host ch' = host_live host ch"
  by (simp add: wrote_def host_live_def host_is_connected_def)

lemma Channel_write_all_returns:
  assumes "host_live host ch" "channel_ok ch"
  shows "\<exists>t' ch' m. Channel_write_all host t ch bytes = Some (Inr (t', ch')) \<and> wrote ch bytes m ch' \<and>
    (host_is_connected ch \<longrightarrow> m = length bytes)"
proof (cases "host_is_connected ch")
  case True
  then show ?thesis
    using blocking_loop [of host ch t bytes] assms by (auto simp: Channel_write_all_def host_live_def)
next
  case False
  then show ?thesis
    using nonblocking_loop [of host ch t bytes] assms by (auto simp: Channel_write_all_def host_live_def)
qed

lemma Channel_flush_returns:
  assumes "host_live host ch" "channel_ok ch"
  shows "\<exists>t' ch'. Channel_flush host t ch = Some (t', ch') \<and> wrote ch [] 0 ch'"
proof (cases "host_is_connected ch")
  case True
  then obtain k where "pending_bytes (host_turns host (Suc k) t ch) = []"
    using assms unfolding host_drains_def host_live_def by blast
  from flush_loop_drained [OF _ this assms(2)] show ?thesis
    using assms(1) True by (auto simp: Channel_flush_def host_live_def)
next
  case False
  then show ?thesis using assms(2) by (simp add: Channel_flush_def wrote_def)
qed

subsection \<open>Two hosts for the witnesses\<close>

text \<open>No debugger: \<open>read\<close> never moves. And a debugger that takes everything at every turn.\<close>

definition detached :: host where
  "detached t ch = ch_read ch"

definition eager :: host where
  "eager t ch = ch_write ch"

lemma detached_conforms: "host_conforms detached"
  by (auto simp: host_conforms_def detached_def channel_ok_def intro!: exI [of _ 0])

lemma detached_turn [simp]: "channel_ok ch \<Longrightarrow> host_turn detached t ch = ch"
  by (simp add: host_turn_def detached_def channel_ok_def)

lemma eager_conforms: "host_conforms eager"
proof -
  have "as_usize (ch_write ch) = (as_usize (ch_read ch) + length (pending_bytes ch)) mod length (ch_buffer ch)"
    if ok: "channel_ok ch" for ch
    using ok channel_ok_circ [OF ok] unfolding pending_bytes_def
    by (auto simp: circ_len_def channel_ok_def mod_one_turn)
  then show ?thesis unfolding host_conforms_def eager_def by blast
qed

lemma eager_drains: "host_drains eager"
  unfolding host_drains_def
proof (intro allI impI exI [of _ 0])
  fix t and ch :: rtt
  show "pending_bytes (host_turns eager (Suc 0) t ch) = []"
    by (simp add: pending_bytes_def) (simp add: host_turn_def Let_def eager_def)
qed

text \<open>
  Without a debugger the channel is a byte sink like the ring: it keeps the prefix that fits,
  so a frame that is written in chunks is trimmed as if it had been written at once.
\<close>

lemma detached_write:
  assumes ok: "channel_ok ch" and off: "\<not> host_is_connected ch"
  shows "\<exists>t' ch'. Channel_write_all detached t ch bytes = Some (Inr (t', ch')) \<and> channel_ok ch' \<and>
    \<not> host_is_connected ch' \<and> rtt_stream ch' = rtt_stream ch @ take (channel_room ch) bytes \<and>
    channel_room ch' = channel_room ch - length bytes"
proof -
  let ?put = "\<lambda>d. put_bytes d ch" and ?k = "channel_room ch"
  have put: "channel_ok (?put d)" "rtt_stream (?put d) = rtt_stream ch @ d" "channel_room (?put d) = ?k - length d"
      "\<not> host_is_connected (?put d)" if "length d \<le> ?k" for d
    using put_bytes_props [OF ok that] off by (simp_all add: channel_room_def host_is_connected_def)
  have c: "Channel_write_all detached t ch bytes = write_loop detached False t ch bytes" for t
    using off by (simp add: Channel_write_all_def)
  note step = nonblocking_step [where host = detached]
  consider "bytes = []" | "bytes \<noteq> []" "?k = 0" | "bytes \<noteq> []" "0 < ?k" "length bytes \<le> ?k"
    | "bytes \<noteq> []" "0 < ?k" "?k < length bytes" by linarith
  then show ?thesis
  proof cases
    case 1
    then show ?thesis unfolding c using ok off by simp
  next
    case 2
    then show ?thesis using step [of t ch bytes] ok put [of "[]"] by (simp add: c)
  next
    case 3
    then show ?thesis using step [of t ch bytes] ok put [of bytes] by (simp add: c)
  next
    case 4
    let ?ch = "?put (take ?k bytes)"
    have full: "channel_ok ?ch" "channel_room ?ch = 0" "\<not> host_is_connected ?ch" "rtt_stream ?ch = rtt_stream ch @ take ?k bytes"
      using put [of "take ?k bytes"] 4 by simp_all
    have "channel_ok (put_bytes [] ?ch)" "rtt_stream (put_bytes [] ?ch) = rtt_stream ?ch"
      "channel_room (put_bytes [] ?ch) = 0" "\<not> host_is_connected (put_bytes [] ?ch)"
      using put_bytes_props [OF full(1), of "[]"] full by (simp_all add: channel_room_def host_is_connected_def)
    then show ?thesis
      using 4 step [of t ch bytes] step [of "t + 1" ?ch "drop ?k bytes"] ok full by (simp add: c)
  qed
qed

definition detached_push :: "u8 list \<Rightarrow> rtt \<Rightarrow> rtt res" where
  "detached_push bytes ch =
     (case Channel_write_all detached 0 ch bytes of
        Some r \<Rightarrow> res_bind r (\<lambda>(t, ch1). Inr ch1)
      | None \<Rightarrow> Inl Unwrap)"

interpretation detached_rtt: byte_sink rtt_stream channel_room "\<lambda>ch. channel_ok ch \<and> \<not> host_is_connected ch" detached_push
proof unfold_locales
  fix ch t :: rtt and d :: "u8 list"
  assume "channel_ok ch \<and> \<not> host_is_connected ch"
  then obtain t' ch' where w: "Channel_write_all detached 0 ch d = Some (Inr (t', ch'))" "channel_ok ch'"
    "\<not> host_is_connected ch'" "rtt_stream ch' = rtt_stream ch @ take (channel_room ch) d"
    "channel_room ch' = channel_room ch - length d" using detached_write by blast
  then have p: "detached_push d ch = Inr ch'" by (simp add: detached_push_def)
  show "\<exists>t. detached_push d ch = Inr t" using p by blast
  assume "detached_push d ch = Inr t"
  then have "t = ch'" using p by simp
  then show "channel_ok t \<and> \<not> host_is_connected t" "rtt_stream t = rtt_stream ch @ take (channel_room ch) d"
    "channel_room t = channel_room ch - length d" using w by simp_all
qed

text \<open>The control block at start-up, seen as a channel with nothing received.\<close>

definition rtt_start :: "u8 list \<Rightarrow> rtt" where
  "rtt_start buffer = Channel.extend (up_channel (RttHeader_new ''defmt'' buffer)) \<lparr>received = []\<rparr>"

lemma rtt_start_fields [simp]:
  "ch_buffer (rtt_start b) = b" "ch_read (rtt_start b) = 0" "ch_write (rtt_start b) = 0"
  "ch_flags (rtt_start b) = MODE_NON_BLOCKING_TRIM" "received (rtt_start b) = []"
  by (simp_all add: rtt_start_def RttHeader_new_def Channel.defs)

lemma mode_connected [simp]:
  "MODE_NON_BLOCKING_TRIM AND MODE_MASK \<noteq> MODE_BLOCK_IF_FULL" "MODE_BLOCK_IF_FULL AND MODE_MASK = MODE_BLOCK_IF_FULL"
  by (simp_all add: MODE_NON_BLOCKING_TRIM_def MODE_MASK_def MODE_BLOCK_IF_FULL_def)

lemma rtt_start_ok:
  "0 < length b \<Longrightarrow> 2 * length b < usize_limit \<Longrightarrow> channel_ok (rtt_start b)"
  "rtt_stream (rtt_start b) = []" "channel_room (rtt_start b) = length b - 1"
  "\<not> host_is_connected (rtt_start b)"
  by (simp_all add: channel_ok_def rtt_stream_def channel_room_def pending_bytes_def host_is_connected_def)

subsection \<open>Properties\<close>

text \<open>
  C30: with no blocking host, \<open>write_all\<close> always returns, after at most one load of \<open>read\<close> per
  byte; it appends a prefix of the bytes to the stream that the host sees, and
  drops the rest only when the buffer is full.
\<close>

theorem rtt_nonblocking_write_all:
  assumes "host_conforms host" and "channel_ok ch" and "\<not> host_is_connected ch"
  shows "\<exists>t' ch' m. Channel_write_all host t ch bytes = Some (Inr (t', ch')) \<and> channel_ok ch' \<and>
     m \<le> length bytes \<and> rtt_stream ch' = rtt_stream ch @ take m bytes \<and>
     (m < length bytes \<longrightarrow> channel_room ch' = 0) \<and> t' \<le> t + length bytes"
  using nonblocking_loop [OF assms(1,2), of t bytes] assms(3)
  by (auto simp: Channel_write_all_def wrote_def)

theorem rtt_nonblocking_write_all_witness:
  "\<exists>t' ch' m. Channel_write_all detached 0 (rtt_start [0, 0, 0, 0]) [1, 2, 3, 4, 5] = Some (Inr (t', ch')) \<and>
     rtt_stream ch' = take m [1, 2, 3, 4, 5] \<and> t' \<le> 5"
proof -
  have ok: "channel_ok (rtt_start [0, 0, 0, 0])"
    by (rule rtt_start_ok) (simp_all add: usize_limit_def)
  show ?thesis
    using rtt_nonblocking_write_all [OF detached_conforms ok rtt_start_ok(4), of 0 "[1, 2, 3, 4, 5]"]
    unfolding rtt_start_ok(2) append_Nil by (elim exE conjE, intro exI conjI) (assumption | simp)+
qed

text \<open>
  C29: with a connected host that keeps draining the buffer, \<open>write_all\<close> returns and delivers
  every byte, in order, to the stream that the host sees: blocking mode loses nothing.
\<close>

theorem rtt_blocking_write_all:
  assumes "host_conforms host" and "host_drains host" and "channel_ok ch"
    and "1 < length (ch_buffer ch)" and "host_is_connected ch"
  shows "\<exists>t' ch'. Channel_write_all host t ch bytes = Some (Inr (t', ch')) \<and> channel_ok ch' \<and>
     rtt_stream ch' = rtt_stream ch @ bytes"
  using blocking_loop [OF assms(1-4), of t bytes] assms(5)
  by (auto simp: Channel_write_all_def wrote_def)

definition connected_start :: "u8 list \<Rightarrow> rtt" where
  "connected_start b = (rtt_start b)\<lparr>ch_flags := MODE_BLOCK_IF_FULL\<rparr>"

lemma connected_start_ok:
  "0 < length b \<Longrightarrow> 2 * length b < usize_limit \<Longrightarrow> channel_ok (connected_start b)"
  "rtt_stream (connected_start b) = []" "host_is_connected (connected_start b)"
  "ch_buffer (connected_start b) = b"
  by (simp_all add: connected_start_def channel_ok_def rtt_stream_def pending_bytes_def host_is_connected_def)

theorem rtt_blocking_write_all_witness:
  "\<exists>t' ch'. Channel_write_all eager 0 (connected_start [0, 0, 0, 0]) [1, 2, 3, 4, 5] = Some (Inr (t', ch')) \<and>
     rtt_stream ch' = [1, 2, 3, 4, 5]"
proof -
  have ok: "channel_ok (connected_start [0, 0, 0, 0])"
    by (rule connected_start_ok) (simp_all add: usize_limit_def)
  have size: "1 < length (ch_buffer (connected_start [0, 0, 0, 0]))" by (simp add: connected_start_ok)
  show ?thesis
    using rtt_blocking_write_all [OF eager_conforms eager_drains ok size connected_start_ok(3), of 0 "[1, 2, 3, 4, 5]"]
    unfolding connected_start_ok(2) by auto
qed

text \<open>
  C31: \<open>flush\<close> when no host is connected returns at once: no load of \<open>read\<close>, no change, whatever is at
  the other end. When a connected host keeps draining, it returns at the first load that finds the buffer empty,
  and the host has then received every byte of the stream.
\<close>

theorem rtt_flush:
  assumes "channel_ok ch" and "host_is_connected ch \<Longrightarrow> host_conforms host \<and> host_drains host"
  shows "if host_is_connected ch
     then \<exists>k. Channel_flush host t ch = Some (t + Suc k, host_turns host (Suc k) t ch) \<and>
       (\<forall>j<k. pending_bytes (host_turns host (Suc j) t ch) \<noteq> []) \<and>
       pending_bytes (host_turns host (Suc k) t ch) = [] \<and> received (host_turns host (Suc k) t ch) = rtt_stream ch
     else Channel_flush host t ch = Some (t, ch)"
proof (cases "host_is_connected ch")
  case True
  let ?empty = "\<lambda>k. pending_bytes (host_turns host (Suc k) t ch) = []"
  have h: "host_conforms host" "\<exists>k. ?empty k" using assms True unfolding host_drains_def by blast+
  define k where "k = (LEAST k. ?empty k)"
  have k: "?empty k" "\<forall>j<k. \<not> ?empty j"
    using LeastI_ex [OF h(2)] not_less_Least [of _ ?empty] by (auto simp: k_def)
  have run: "flush_loop host t ch = Some (t + Suc k, host_turns host (Suc k) t ch)"
    by (rule flush_loop_first [OF h(1) k(1) assms(1) k(2)])
  have "received (host_turns host (Suc k) t ch) = rtt_stream ch"
    using flush_loop_drained [OF h(1) k(1) assms(1)] run by auto
  then show ?thesis using True run k by (auto simp: Channel_flush_def)
qed (simp add: Channel_flush_def)

theorem rtt_flush_witness:
  "Channel_flush detached 7 (rtt_start [0, 0, 0, 0]) = Some (7, rtt_start [0, 0, 0, 0]) \<and>
   (\<exists>k. Channel_flush eager 0 ((connected_start [0, 0, 0, 0])\<lparr>ch_write := 2\<rparr>) =
     Some (Suc k, host_turns eager (Suc k) 0 ((connected_start [0, 0, 0, 0])\<lparr>ch_write := 2\<rparr>)))"
proof
  have "channel_ok (rtt_start [0, 0, 0, 0])" by (rule rtt_start_ok) (simp_all add: usize_limit_def)
  from rtt_flush [OF this, of detached 7]
  show "Channel_flush detached 7 (rtt_start [0, 0, 0, 0]) = Some (7, rtt_start [0, 0, 0, 0])"
    by (simp add: rtt_start_ok)
next
  let ?ch = "(connected_start [0, 0, 0, 0])\<lparr>ch_write := 2\<rparr>"
  have "channel_ok ?ch" "host_is_connected ?ch"
    using connected_start_ok [of "[0, 0, 0, 0]"] by (simp_all add: channel_ok_def host_is_connected_def usize_limit_def)
  with rtt_flush [of ?ch eager 0] show "\<exists>k. Channel_flush eager 0 ?ch = Some (Suc k, host_turns eager (Suc k) 0 ?ch)"
    using eager_conforms eager_drains by auto
qed

lemma stalled_loop:
  assumes ret: "write_loop host c t ch bytes = Some r"
  shows "host = detached \<longrightarrow> c \<longrightarrow> channel_ok ch \<longrightarrow> channel_room ch = 0 \<longrightarrow> bytes = []"
proof (rule write_loop.raw_induct [where P = "\<lambda>host c t ch bytes r. host = detached \<longrightarrow> c \<longrightarrow> channel_ok ch \<longrightarrow>
    channel_room ch = 0 \<longrightarrow> bytes = []", OF _ ret], intro impI)
  fix f host c t ch bytes r
  assume IH: "\<And>host c t ch bytes r. f host c t ch bytes = Some r \<Longrightarrow>
      host = detached \<longrightarrow> c \<longrightarrow> channel_ok ch \<longrightarrow> channel_room ch = 0 \<longrightarrow> bytes = []"
    and eq: "(if bytes = [] then Some (Inr (t, ch))
      else case if c then blocking_write host t ch bytes else nonblocking_write host t ch bytes of
          Inl e \<Rightarrow> Some (Inl e)
        | Inr (consumed, t1, ch1) \<Rightarrow>
            if consumed \<noteq> 0 then if consumed \<le> length bytes then f host c t1 ch1 (drop consumed bytes)
              else Some (Inl OutOfBounds)
            else if \<not> c then Some (Inr (t1, ch1)) else f host c t1 ch1 bytes) = Some r"
    and h: "host = detached" "c" and ok: "channel_ok ch" "channel_room ch = 0"
  show "bytes = []"
  proof (rule ccontr)
    assume ne: "bytes \<noteq> []"
    have "blocking_write host t ch bytes = Inr (0, t + 1, ch)"
      using write_fns_eq(2) [of detached t ch bytes] ok ne h by simp
    then have "f host c (t + 1) ch bytes = Some r" using eq ne h by simp
    then show False using IH h ok ne by blast
  qed
qed

text \<open>
  The price of blocking mode: on a full buffer and with a connected host that has stopped
  reading, \<open>write_all\<close> never returns.
\<close>

lemma rtt_stalled_host_blocks:
  assumes "channel_ok ch" and "host_is_connected ch" and "channel_room ch = 0" and "bytes \<noteq> []"
  shows "Channel_write_all detached t ch bytes = None"
  using stalled_loop [of detached True t ch bytes] assms unfolding Channel_write_all_def
  by (cases "write_loop detached (host_is_connected ch) t ch bytes") auto

end
