(* ===== verification/Logger.thy ===== *)
theory Logger
  imports Waker Rtt
begin

text \<open>
  The global logger: \<open>src/logger.rs\<close> and \<open>src/logger/semihosting.rs\<close>. A log call of \<open>defmt\<close> is
  \<open>acquire\<close>, any number of \<open>write\<close> and \<open>flush\<close>, and \<open>release\<close>; the encoder of \<open>defmt\<close> turns the
  written bytes into a frame and passes it on in chunks to \<open>write_all\<close>, which hands each chunk
  to the ring, to RTT and to semihosting.

  Not under \<open>src/\<close>, and therefore the record \<open>platform\<close> that every definition takes: the
  encoder (its three functions return the chunks they pass to the callback, in order, and the
  new encoder state), \<open>critical_section\<close>, semihosting, and the debugger at the other end of
  RTT. The outside world they act on is the component \<open>world\<close> of the state. The component \<open>trace\<close> is not memory of the
  program: it records what the code does to the outside, in the order in which it does it.
\<close>

subsection \<open>The platform and the state\<close>

record ('e, 'r, 'h, 'w) platform =
  encoder_start_frame :: "'e \<Rightarrow> u8 list list \<times> 'e"
  encoder_write :: "u8 list \<Rightarrow> 'e \<Rightarrow> u8 list list \<times> 'e"
  encoder_end_frame :: "'e \<Rightarrow> u8 list list \<times> 'e"
  critical_section_acquire :: "'w \<Rightarrow> 'r \<times> 'w"
  critical_section_release :: "'r \<Rightarrow> 'w \<Rightarrow> 'w"
  hstdout :: "'w \<Rightarrow> 'h option \<times> 'w"
  hstdout_write_all :: "u8 list \<Rightarrow> 'h \<Rightarrow> 'w \<Rightarrow> 'h \<times> 'w"
  debugger :: host

text \<open>
  What the logger does to the outside, for the order of it: enter and leave the critical section, write
  a chunk to each output, flush RTT, wake the waiting task.
\<close>

datatype 'r log_event =
    Entered 'r
  | To_ring "u8 list"
  | To_rtt "u8 list"
  | To_semihosting "u8 list"
  | Rtt_flushed
  | Left 'r
  | Woke

text \<open>
  The statics: \<open>LOGGER_STATE\<close> (the producer is a handle to the ring \<open>persist\<close>, so what matters
  of it is whether it was written), the RTT channel, \<open>STDOUT\<close> and \<open>WAKER\<close>; \<open>rtt_loads\<close> counts
  the loads of the RTT read index and \<open>woken\<close> lists the tasks woken. \<open>trace\<close> is no static: it records the
  events in the order in which they happen.
\<close>

record ('e, 'r, 'h, 'w) logger =
  producer_written :: bool
  cs_state :: 'r
  encoder :: 'e
  initialized :: bool
  depth :: usize
  persist :: ring
  rtt_channel :: rtt
  rtt_loads :: nat
  stdout :: "'h option"
  waker_slot :: AtomicWaker
  woken :: "waker list"
  world :: 'w
  trace :: "'r log_event list"

definition happened :: "'r log_event \<Rightarrow> ('e, 'r, 'h, 'w) logger \<Rightarrow> ('e, 'r, 'h, 'w) logger" where
  "happened e s = s\<lparr>trace := trace s @ [e]\<rparr>"

definition LoggerState_initialize :: "('e, 'r, 'h, 'w) logger \<Rightarrow> ('e, 'r, 'h, 'w) logger" where
  "LoggerState_initialize s = s\<lparr>producer_written := True\<rparr>\<lparr>initialized := True\<rparr>"

definition LoggerState_write ::
    "features \<Rightarrow> u8 list \<Rightarrow> ('e, 'r, 'h, 'w) logger \<Rightarrow> ('e, 'r, 'h, 'w) logger res" where
  "LoggerState_write ft bytes s =
     (if initialized s then
        if producer_written s then
          res_bind (Producer_write ft bytes (persist s)) (\<lambda>v. Inr (happened (To_ring bytes) (s\<lparr>persist := v\<rparr>)))
        else Inl Uninit
      else Inr s)"

text \<open>The outputs besides the ring.\<close>

definition rtt_write ::
    "('e, 'r, 'h, 'w) platform \<Rightarrow> u8 list \<Rightarrow> ('e, 'r, 'h, 'w) logger \<Rightarrow> ('e, 'r, 'h, 'w) logger res option" where
  "rtt_write pf bytes s =
     run_bind (Channel_write_all (debugger pf) (rtt_loads s) (rtt_channel s) bytes)
       (\<lambda>(t, ch). Some (Inr (happened (To_rtt bytes) (s\<lparr>rtt_loads := t, rtt_channel := ch\<rparr>))))"

definition rtt_flush_output ::
    "('e, 'r, 'h, 'w) platform \<Rightarrow> ('e, 'r, 'h, 'w) logger \<Rightarrow> ('e, 'r, 'h, 'w) logger res option" where
  "rtt_flush_output pf s =
     (case Channel_flush (debugger pf) (rtt_loads s) (rtt_channel s) of
        None \<Rightarrow> None
      | Some (t, ch) \<Rightarrow> Some (Inr (happened Rtt_flushed (s\<lparr>rtt_loads := t, rtt_channel := ch\<rparr>))))"

definition semihosting_write ::
    "('e, 'r, 'h, 'w) platform \<Rightarrow> u8 list \<Rightarrow> 'h option \<times> 'w \<Rightarrow> 'h option \<times> 'w" where
  "semihosting_write pf bytes st =
     (let (handle, w) = (if fst st = None then hstdout pf (snd st) else st)
      in case handle of
           None \<Rightarrow> (None, w)
         | Some h \<Rightarrow> let (h', w') = hstdout_write_all pf bytes h w in (Some h', w'))"

definition write_all ::
    "features \<Rightarrow> ('e, 'r, 'h, 'w) platform \<Rightarrow> u8 list \<Rightarrow> ('e, 'r, 'h, 'w) logger \<Rightarrow> ('e, 'r, 'h, 'w) logger res option" where
  "write_all ft pf data s =
     run_bind (Some (LoggerState_write ft data s)) (\<lambda>s1.
     run_bind (if feat_rtt ft then rtt_write pf data s1 else Some (Inr s1)) (\<lambda>s2.
       Some (Inr (if feat_qemu_test ft then
                    let (h, w) = semihosting_write pf data (stdout s2, world s2)
                    in happened (To_semihosting data) (s2\<lparr>stdout := h, world := w\<rparr>)
                  else s2))))"

text \<open>The encoder calls the callback once per chunk.\<close>

fun write_chunks ::
    "features \<Rightarrow> ('e, 'r, 'h, 'w) platform \<Rightarrow> u8 list list \<Rightarrow> ('e, 'r, 'h, 'w) logger \<Rightarrow> ('e, 'r, 'h, 'w) logger res option" where
  "write_chunks ft pf [] s = Some (Inr s)"
| "write_chunks ft pf (c # cs) s = run_bind (write_all ft pf c s) (write_chunks ft pf cs)"

subsection \<open>The defmt logger\<close>

text \<open>
  \<open>acquire\<close> and \<open>release\<close> each start with one atomic change of \<open>depth\<close> (wrapping, as
  \<open>fetch_add\<close> and \<open>fetch_sub\<close> are); the rest of them runs only in the outermost call.
\<close>

definition depth_enter :: "('e, 'r, 'h, 'w) logger \<Rightarrow> ('e, 'r, 'h, 'w) logger" where
  "depth_enter s = s\<lparr>depth := uwrapping_add (depth s) 1\<rparr>"

definition depth_leave :: "('e, 'r, 'h, 'w) logger \<Rightarrow> ('e, 'r, 'h, 'w) logger" where
  "depth_leave s = s\<lparr>depth := uwrapping_sub (depth s) 1\<rparr>"

definition acquire_outermost ::
    "features \<Rightarrow> ('e, 'r, 'h, 'w) platform \<Rightarrow> ('e, 'r, 'h, 'w) logger \<Rightarrow> ('e, 'r, 'h, 'w) logger res option" where
  "acquire_outermost ft pf s =
     (let (restore, w) = critical_section_acquire pf (world s);
          s1 = (happened (Entered restore) (s\<lparr>world := w\<rparr>))\<lparr>cs_state := restore\<rparr>;
          (chunks, e) = encoder_start_frame pf (encoder s1)
      in write_chunks ft pf chunks (s1\<lparr>encoder := e\<rparr>))"

definition Logger_acquire ::
    "features \<Rightarrow> ('e, 'r, 'h, 'w) platform \<Rightarrow> ('e, 'r, 'h, 'w) logger \<Rightarrow> ('e, 'r, 'h, 'w) logger res option" where
  "Logger_acquire ft pf s =
     (let was_depth = depth s; s1 = depth_enter s in
      if was_depth > 0 then Some (Inr s1) else acquire_outermost ft pf s1)"

definition Logger_flush ::
    "features \<Rightarrow> ('e, 'r, 'h, 'w) platform \<Rightarrow> ('e, 'r, 'h, 'w) logger \<Rightarrow> ('e, 'r, 'h, 'w) logger res option" where
  "Logger_flush ft pf s =
     (if depth s \<noteq> 1 then Some (Inr s)
      else if feat_rtt ft then rtt_flush_output pf s else Some (Inr s))"

definition WAKER_wake :: "features \<Rightarrow> ('e, 'r, 'h, 'w) logger \<Rightarrow> ('e, 'r, 'h, 'w) logger" where
  "WAKER_wake ft s =
     (if feat_async_await ft then
        let (sl, w) = AtomicWaker_wake (waker_slot s)
        in happened Woke (s\<lparr>waker_slot := sl, woken := woken s @ (case w of None \<Rightarrow> [] | Some x \<Rightarrow> [x])\<rparr>)
      else s)"

definition release_outermost ::
    "features \<Rightarrow> ('e, 'r, 'h, 'w) platform \<Rightarrow> ('e, 'r, 'h, 'w) logger \<Rightarrow> ('e, 'r, 'h, 'w) logger res option" where
  "release_outermost ft pf s =
     (let (chunks, e) = encoder_end_frame pf (encoder s) in
      run_bind (write_chunks ft pf chunks (s\<lparr>encoder := e\<rparr>)) (\<lambda>s1.
        Some (Inr (WAKER_wake ft (happened (Left (cs_state s1))
          (s1\<lparr>world := critical_section_release pf (cs_state s1) (world s1)\<rparr>))))))"

definition Logger_release ::
    "features \<Rightarrow> ('e, 'r, 'h, 'w) platform \<Rightarrow> ('e, 'r, 'h, 'w) logger \<Rightarrow> ('e, 'r, 'h, 'w) logger res option" where
  "Logger_release ft pf s =
     (let was_depth = depth s; s1 = depth_leave s in
      if was_depth \<noteq> 1 then Some (Inr s1) else release_outermost ft pf s1)"

definition Logger_write ::
    "features \<Rightarrow> ('e, 'r, 'h, 'w) platform \<Rightarrow> u8 list \<Rightarrow> ('e, 'r, 'h, 'w) logger \<Rightarrow> ('e, 'r, 'h, 'w) logger res option" where
  "Logger_write ft pf bytes s =
     (if depth s \<noteq> 1 then Some (Inr s)
      else let (chunks, e) = encoder_write pf bytes (encoder s)
           in write_chunks ft pf chunks (s\<lparr>encoder := e\<rparr>))"

text \<open>The calls that \<open>defmt\<close> makes.\<close>

datatype log_call = Acquire | Write "u8 list" | Flush | Release

fun log_step ::
    "features \<Rightarrow> ('e, 'r, 'h, 'w) platform \<Rightarrow> log_call \<Rightarrow> ('e, 'r, 'h, 'w) logger \<Rightarrow> ('e, 'r, 'h, 'w) logger res option" where
  "log_step ft pf Acquire s = Logger_acquire ft pf s"
| "log_step ft pf (Write b) s = Logger_write ft pf b s"
| "log_step ft pf Flush s = Logger_flush ft pf s"
| "log_step ft pf Release s = Logger_release ft pf s"

fun log_run ::
    "features \<Rightarrow> ('e, 'r, 'h, 'w) platform \<Rightarrow> log_call list \<Rightarrow> ('e, 'r, 'h, 'w) logger \<Rightarrow> ('e, 'r, 'h, 'w) logger res option" where
  "log_run ft pf [] s = Some (Inr s)"
| "log_run ft pf (c # cs) s = run_bind (log_step ft pf c s) (log_run ft pf cs)"

subsection \<open>What a sequence of chunks does to the outputs\<close>

definition logger_ok :: "('e, 'r, 'h, 'w) logger \<Rightarrow> bool" where
  "logger_ok s \<longleftrightarrow> ring_ok (persist s) \<and> channel_ok (rtt_channel s) \<and> (initialized s \<longrightarrow> producer_written s)"

text \<open>The debugger follows the RTT protocol, and keeps reading if it has asked for blocking mode.\<close>

definition rtt_live :: "features \<Rightarrow> ('e, 'r, 'h, 'w) platform \<Rightarrow> ('e, 'r, 'h, 'w) logger \<Rightarrow> bool" where
  "rtt_live ft pf s \<longleftrightarrow> (feat_rtt ft \<longrightarrow> host_live (debugger pf) (rtt_channel s))"

text \<open>Each output in turn: the ring, the RTT stream, semihosting.\<close>

definition ring_output :: "features \<Rightarrow> u8 list list \<Rightarrow> ('e, 'r, 'h, 'w) logger \<Rightarrow> ('e, 'r, 'h, 'w) logger \<Rightarrow> bool" where
  "ring_output ft cs s t \<longleftrightarrow>
     (if initialized s then push_all (Producer_write ft) cs (persist s) = Inr (persist t) else persist t = persist s)"

definition rtt_output :: "features \<Rightarrow> u8 list list \<Rightarrow> ('e, 'r, 'h, 'w) logger \<Rightarrow> ('e, 'r, 'h, 'w) logger \<Rightarrow> bool" where
  "rtt_output ft cs s t \<longleftrightarrow>
     ch_flags (rtt_channel t) = ch_flags (rtt_channel s) \<and>
     length (ch_buffer (rtt_channel t)) = length (ch_buffer (rtt_channel s)) \<and>
     (\<exists>ds. list_all2 (\<lambda>d c. \<exists>m. d = take m c) ds cs \<and>
        rtt_stream (rtt_channel t) = rtt_stream (rtt_channel s) @ (if feat_rtt ft then concat ds else []) \<and>
        (host_is_connected (rtt_channel s) \<longrightarrow> ds = cs))"

definition semihosting_output ::
    "features \<Rightarrow> ('e, 'r, 'h, 'w) platform \<Rightarrow> u8 list list \<Rightarrow> ('e, 'r, 'h, 'w) logger \<Rightarrow> ('e, 'r, 'h, 'w) logger \<Rightarrow> bool" where
  "semihosting_output ft pf cs s t \<longleftrightarrow>
     (stdout t, world t) = (if feat_qemu_test ft then fold (semihosting_write pf) cs (stdout s, world s)
                            else (stdout s, world s))"

text \<open>The events of a chunk; flushes may be among those of a frame.\<close>

definition chunk_events :: "features \<Rightarrow> bool \<Rightarrow> u8 list \<Rightarrow> 'r log_event list" where
  "chunk_events ft ini c =
     (if ini then [To_ring c] else []) @ (if feat_rtt ft then [To_rtt c] else [])
     @ (if feat_qemu_test ft then [To_semihosting c] else [])"

definition events_of :: "features \<Rightarrow> bool \<Rightarrow> u8 list list \<Rightarrow> 'r log_event list \<Rightarrow> bool" where
  "events_of ft ini cs es \<longleftrightarrow> filter (\<lambda>e. e \<noteq> Rtt_flushed) es = concat (map (chunk_events ft ini) cs)"

definition trace_output :: "features \<Rightarrow> u8 list list \<Rightarrow> ('e, 'r, 'h, 'w) logger \<Rightarrow> ('e, 'r, 'h, 'w) logger \<Rightarrow> bool" where
  "trace_output ft cs s t \<longleftrightarrow> (\<exists>es. trace t = trace s @ es \<and> events_of ft (initialized s) cs es)"

lemma events_of_append: "events_of ft i cs es \<Longrightarrow> events_of ft i ds fs \<Longrightarrow> events_of ft i (cs @ ds) (es @ fs)"
  by (simp add: events_of_def)

definition same_control :: "('e, 'r, 'h, 'w) logger \<Rightarrow> ('e, 'r, 'h, 'w) logger \<Rightarrow> bool" where
  "same_control s t \<longleftrightarrow> producer_written t = producer_written s \<and> cs_state t = cs_state s \<and>
     initialized t = initialized s \<and> depth t = depth s \<and> waker_slot t = waker_slot s \<and> woken t = woken s"

definition outputs ::
    "features \<Rightarrow> ('e, 'r, 'h, 'w) platform \<Rightarrow> u8 list list \<Rightarrow> ('e, 'r, 'h, 'w) logger \<Rightarrow> ('e, 'r, 'h, 'w) logger \<Rightarrow> bool" where
  "outputs ft pf cs s t \<longleftrightarrow> logger_ok t \<and> rtt_live ft pf t \<and> same_control s t \<and>
     ring_output ft cs s t \<and> rtt_output ft cs s t \<and> semihosting_output ft pf cs s t \<and> trace_output ft cs s t"

lemma outputs_trans:
  assumes "outputs ft pf cs s t" "outputs ft pf ds t u"
  shows "outputs ft pf (cs @ ds) s u"
proof -
  have ring: "ring_output ft (cs @ ds) s u"
    using assms by (auto simp: outputs_def ring_output_def same_control_def)
  obtain x y where x: "list_all2 (\<lambda>d c. \<exists>m. d = take m c) x cs"
      "rtt_stream (rtt_channel t) = rtt_stream (rtt_channel s) @ (if feat_rtt ft then concat x else [])"
      "host_is_connected (rtt_channel s) \<longrightarrow> x = cs"
    and y: "list_all2 (\<lambda>d c. \<exists>m. d = take m c) y ds"
      "rtt_stream (rtt_channel u) = rtt_stream (rtt_channel t) @ (if feat_rtt ft then concat y else [])"
      "host_is_connected (rtt_channel t) \<longrightarrow> y = ds"
    using assms unfolding outputs_def rtt_output_def by blast
  have fl: "ch_flags (rtt_channel t) = ch_flags (rtt_channel s)"
    using assms(1) unfolding outputs_def rtt_output_def by blast
  have "rtt_output ft (cs @ ds) s u"
    unfolding rtt_output_def
  proof (intro conjI exI [of _ "x @ y"])
    show "ch_flags (rtt_channel u) = ch_flags (rtt_channel s)"
      "length (ch_buffer (rtt_channel u)) = length (ch_buffer (rtt_channel s))"
      using assms unfolding outputs_def rtt_output_def by simp_all
    show "host_is_connected (rtt_channel s) \<longrightarrow> x @ y = cs @ ds"
      using x(3) y(3) fl by (simp add: host_is_connected_def)
  qed (use x y in \<open>auto intro: list_all2_appendI\<close>)
  moreover have "semihosting_output ft pf (cs @ ds) s u"
    using assms by (simp add: outputs_def semihosting_output_def)
  moreover have "trace_output ft (cs @ ds) s u"
    using assms events_of_append by (fastforce simp: outputs_def trace_output_def same_control_def)
  ultimately show ?thesis using assms ring by (simp add: outputs_def same_control_def)
qed

lemma outputs_refl: "logger_ok s \<Longrightarrow> rtt_live ft pf s \<Longrightarrow> outputs ft pf [] s s"
  by (simp add: outputs_def ring_output_def rtt_output_def semihosting_output_def same_control_def
      trace_output_def events_of_def)

text \<open>What one chunk does to the ring, and what it does to the RTT channel.\<close>

lemma LoggerState_write_result:
  assumes "logger_ok s"
  shows "\<exists>v. LoggerState_write ft c s =
       Inr (s\<lparr>persist := v, trace := trace s @ (if initialized s then [To_ring c] else [])\<rparr>) \<and> ring_ok v \<and>
     (if initialized s then Producer_write ft c (persist s) = Inr v else v = persist s)"
proof (cases "initialized s")
  case True
  obtain v where v: "Producer_write ft c (persist s) = Inr v"
    using ring_queue.push_total assms unfolding logger_ok_def by blast
  then have "ring_ok v" using ring_queue.push_valid assms unfolding logger_ok_def by blast
  then show ?thesis using True v assms by (simp add: LoggerState_write_def logger_ok_def happened_def)
next
  case False
  then show ?thesis using assms by (simp add: LoggerState_write_def logger_ok_def)
qed

lemma rtt_write_result:
  assumes ok: "logger_ok s" and live: "rtt_live ft pf s"
  shows "\<exists>t' ch' m. (if feat_rtt ft then rtt_write pf c s else Some (Inr s))
       = Some (Inr (s\<lparr>rtt_loads := t', rtt_channel := ch', trace := trace s @ (if feat_rtt ft then [To_rtt c] else [])\<rparr>)) \<and>
     wrote (rtt_channel s) (if feat_rtt ft then c else []) m ch' \<and>
     (feat_rtt ft \<and> host_is_connected (rtt_channel s) \<longrightarrow> m = length c)"
proof (cases "feat_rtt ft")
  case True
  then have "host_live (debugger pf) (rtt_channel s)" "channel_ok (rtt_channel s)"
    using live ok by (simp_all add: rtt_live_def logger_ok_def)
  from Channel_write_all_returns [OF this, of "rtt_loads s" c] obtain t' ch' m
    where "Channel_write_all (debugger pf) (rtt_loads s) (rtt_channel s) c = Some (Inr (t', ch'))"
      "wrote (rtt_channel s) c m ch'" "host_is_connected (rtt_channel s) \<longrightarrow> m = length c" by blast
  then show ?thesis
    using True by (intro exI [of _ t'] exI [of _ ch'] exI [of _ m]) (simp add: rtt_write_def happened_def)
next
  case False
  then show ?thesis using ok by (auto simp: logger_ok_def wrote_def intro!: exI [of _ "rtt_loads s"] exI [of _ "rtt_channel s"])
qed

lemma logger_ok_trace [simp]:
  "logger_ok (s\<lparr>trace := es\<rparr>) = logger_ok s" "rtt_live ft pf (s\<lparr>trace := es\<rparr>) = rtt_live ft pf s"
  "logger_ok (happened e s) = logger_ok s" "rtt_live ft pf (happened e s) = rtt_live ft pf s"
  by (simp_all add: logger_ok_def rtt_live_def happened_def)

lemma write_all_outputs:
  assumes ok: "logger_ok s" and live: "rtt_live ft pf s"
  shows "\<exists>t. write_all ft pf c s = Some (Inr t) \<and> outputs ft pf [c] s t \<and> encoder t = encoder s"
proof -
  let ?es = "chunk_events ft (initialized s) c"
  obtain v where v: "LoggerState_write ft c s =
      Inr (s\<lparr>persist := v, trace := trace s @ (if initialized s then [To_ring c] else [])\<rparr>)" (is "_ = Inr ?s1") "ring_ok v"
    "if initialized s then Producer_write ft c (persist s) = Inr v else v = persist s"
    using LoggerState_write_result [OF ok] by blast
  have "logger_ok ?s1" "rtt_live ft pf ?s1" using ok live v(2) by (simp_all add: logger_ok_def rtt_live_def)
  from rtt_write_result [OF this, of c] obtain t' ch' m
    where r: "(if feat_rtt ft then rtt_write pf c ?s1 else Some (Inr ?s1)) = Some (Inr (?s1\<lparr>rtt_loads := t', rtt_channel := ch',
          trace := trace ?s1 @ (if feat_rtt ft then [To_rtt c] else [])\<rparr>))"
      "wrote (rtt_channel s) (if feat_rtt ft then c else []) m ch'"
      "feat_rtt ft \<and> host_is_connected (rtt_channel s) \<longrightarrow> m = length c" by auto
  obtain h w where hw: "(if feat_qemu_test ft then semihosting_write pf c (stdout s, world s) else (stdout s, world s)) = (h, w)"
    by fastforce
  let ?t = "s\<lparr>persist := v, rtt_loads := t', rtt_channel := ch', stdout := h, world := w, trace := trace s @ ?es\<rparr>"
  have run: "write_all ft pf c s = Some (Inr ?t)"
    using hw r(1) by (auto simp: write_all_def v(1) chunk_events_def happened_def split: if_splits)
  have ok': "logger_ok ?t" using ok v r(2) by (auto simp: logger_ok_def wrote_def)
  have live': "rtt_live ft pf ?t" using live wrote_live [OF r(2)] by (simp add: rtt_live_def)
  have ring: "ring_output ft [c] s ?t" using v(3) by (simp add: ring_output_def split: if_splits)
  have "rtt_output ft [c] s ?t"
    unfolding rtt_output_def
  proof (intro conjI exI [of _ "[if feat_rtt ft then take m c else c]"])
    have "\<exists>m. c = take m c" by (rule exI [of _ "length c"]) simp
    then show "list_all2 (\<lambda>d c. \<exists>m. d = take m c) [if feat_rtt ft then take m c else c] [c]" by auto
  qed (use r(2,3) in \<open>auto simp: wrote_def\<close>)
  moreover have "semihosting_output ft pf [c] s ?t"
    using hw by (simp add: semihosting_output_def split: if_splits)
  moreover have "trace_output ft [c] s ?t" by (simp add: trace_output_def events_of_def chunk_events_def)
  ultimately have "outputs ft pf [c] s ?t"
    using ok' live' ring by (simp add: outputs_def same_control_def)
  then show ?thesis using run by auto
qed

lemma write_chunks_outputs:
  "logger_ok s \<Longrightarrow> rtt_live ft pf s \<Longrightarrow>
   \<exists>t. write_chunks ft pf cs s = Some (Inr t) \<and> outputs ft pf cs s t \<and> encoder t = encoder s"
proof (induction cs arbitrary: s)
  case (Cons c cs)
  obtain t where t: "write_all ft pf c s = Some (Inr t)" "outputs ft pf [c] s t" "encoder t = encoder s"
    using write_all_outputs [OF Cons.prems] by blast
  then have "logger_ok t" "rtt_live ft pf t" by (simp_all add: outputs_def)
  from Cons.IH [OF this] obtain u where u: "write_chunks ft pf cs t = Some (Inr u)" "outputs ft pf cs t u"
    "encoder u = encoder t" by blast
  have "outputs ft pf (c # cs) s u" using outputs_trans [OF t(2) u(2)] by simp
  then show ?case using t u by simp
qed (simp add: outputs_refl)

text \<open>Changes that the outputs do not see.\<close>

lemma outputs_encoder [simp]:
  "logger_ok (s\<lparr>encoder := e\<rparr>) = logger_ok s" "rtt_live ft pf (s\<lparr>encoder := e\<rparr>) = rtt_live ft pf s"
  "outputs ft pf cs (s\<lparr>encoder := e\<rparr>) t = outputs ft pf cs s t"
  by (simp_all add: logger_ok_def rtt_live_def outputs_def ring_output_def rtt_output_def
      semihosting_output_def same_control_def trace_output_def)

lemma Logger_flush_outputs:
  assumes ok: "logger_ok s" and live: "rtt_live ft pf s"
  shows "\<exists>t. Logger_flush ft pf s = Some (Inr t) \<and> outputs ft pf [] s t \<and> encoder t = encoder s"
proof (cases "depth s = 1 \<and> feat_rtt ft")
  case True
  then have "host_live (debugger pf) (rtt_channel s)" "channel_ok (rtt_channel s)"
    using live ok by (simp_all add: rtt_live_def logger_ok_def)
  from Channel_flush_returns [OF this, of "rtt_loads s"] obtain t' ch'
    where f: "Channel_flush (debugger pf) (rtt_loads s) (rtt_channel s) = Some (t', ch')"
      "wrote (rtt_channel s) [] 0 ch'" by blast
  let ?t = "s\<lparr>rtt_loads := t', rtt_channel := ch', trace := trace s @ [Rtt_flushed]\<rparr>"
  have "Logger_flush ft pf s = Some (Inr ?t)" using True f(1) by (simp add: Logger_flush_def rtt_flush_output_def happened_def)
  moreover have "outputs ft pf [] s ?t"
    using f(2) ok live wrote_live [OF f(2)]
    by (simp add: outputs_def logger_ok_def rtt_live_def ring_output_def rtt_output_def
        semihosting_output_def same_control_def wrote_def trace_output_def events_of_def)
  ultimately show ?thesis by auto
next
  case False
  then show ?thesis using outputs_refl [OF ok live] by (auto simp: Logger_flush_def)
qed

subsection \<open>Log calls and frames\<close>

text \<open>
  \<open>body cs ws\<close>: the calls \<open>cs\<close> can stand between an \<open>acquire\<close> and its \<open>release\<close>, and \<open>ws\<close> are
  the byte strings written at this level. Complete log calls may be nested in it: those of
  an NMI, a fault or a panic handler that logs in the middle of a log call.
\<close>

inductive body :: "log_call list \<Rightarrow> u8 list list \<Rightarrow> bool" where
  body_end: "body [] []"
| body_write: "body cs ws \<Longrightarrow> body (Write b # cs) (b # ws)"
| body_flush: "body cs ws \<Longrightarrow> body (Flush # cs) ws"
| body_nested: "body ns xs \<Longrightarrow> body cs ws \<Longrightarrow> body (Acquire # ns @ Release # cs) ws"

text \<open>The chunks of the writes of one frame, and of the whole frame.\<close>

fun encode_writes :: "('e, 'r, 'h, 'w) platform \<Rightarrow> u8 list list \<Rightarrow> 'e \<Rightarrow> u8 list list \<times> 'e" where
  "encode_writes pf [] e = ([], e)"
| "encode_writes pf (b # bs) e =
     (let (c, e1) = encoder_write pf b e; (cs, e2) = encode_writes pf bs e1 in (c @ cs, e2))"

text \<open>The first two parts of a frame: what \<open>acquire\<close> and the writes pass on.\<close>

definition encode_open :: "('e, 'r, 'h, 'w) platform \<Rightarrow> u8 list list \<Rightarrow> 'e \<Rightarrow> u8 list list \<times> 'e" where
  "encode_open pf ws e =
     (let (c1, e1) = encoder_start_frame pf e; (c2, e2) = encode_writes pf ws e1 in (c1 @ c2, e2))"

definition encode_frame :: "('e, 'r, 'h, 'w) platform \<Rightarrow> u8 list list \<Rightarrow> 'e \<Rightarrow> u8 list list \<times> 'e" where
  "encode_frame pf ws e =
     (let (c1, e1) = encoder_start_frame pf e; (c2, e2) = encode_writes pf ws e1;
          (c3, e3) = encoder_end_frame pf e2 in (c1 @ c2 @ c3, e3))"

lemma encode_frame_open:
  "encode_frame pf ws e =
     (fst (encode_open pf ws e) @ fst (encoder_end_frame pf (snd (encode_open pf ws e))),
      snd (encoder_end_frame pf (snd (encode_open pf ws e))))"
  by (simp add: encode_frame_def encode_open_def Let_def split: prod.splits)

lemma log_run_append: "log_run ft pf (cs @ ds) s = run_bind (log_run ft pf cs s) (log_run ft pf ds)"
proof (induction cs arbitrary: s)
  case (Cons c cs)
  have "log_run ft pf (cs @ ds) = (\<lambda>t. run_bind (log_run ft pf cs t) (log_run ft pf ds))"
    using Cons.IH by (simp add: fun_eq_iff)
  then show ?case by (simp add: run_bind_assoc)
qed simp

text \<open>Nested calls are dropped: they leave every output and the state alone.\<close>

lemma enter_leave:
  "depth s + 1 < usize_limit \<Longrightarrow> depth_leave (depth_enter s) = s" for s :: "('e, 'r, 'h, 'w) logger"
  by (simp add: depth_leave_def depth_enter_def uwrapping_add_def uwrapping_sub_def mod_less)

lemma body_dropped:
  "body cs ws \<Longrightarrow> 2 \<le> depth s \<Longrightarrow> depth s + length cs < usize_limit \<Longrightarrow> log_run ft pf cs s = Some (Inr s)"
proof (induction arbitrary: s rule: body.induct)
  case (body_nested ns xs cs ws)
  have d: "depth (depth_enter s) = depth s + 1"
    using body_nested.prems by (simp add: depth_enter_def uwrapping_add_def)
  have "log_run ft pf ns (depth_enter s) = Some (Inr (depth_enter s))"
    using body_nested.IH(1) [of "depth_enter s"] body_nested.prems d by simp
  then show ?case
    using body_nested.IH(2) [of s] body_nested.prems d enter_leave [of s]
    by (simp add: log_run_append Logger_acquire_def Logger_release_def)
qed (simp_all add: Logger_write_def Logger_flush_def)

lemma nested_dropped:
  assumes "body cs ws" "1 \<le> depth s" "depth s + length cs + 1 < usize_limit"
  shows "log_run ft pf (Acquire # cs @ [Release]) s = Some (Inr s)"
proof -
  have d: "depth (depth_enter s) = depth s + 1"
    using assms by (simp add: depth_enter_def uwrapping_add_def)
  have "log_run ft pf cs (depth_enter s) = Some (Inr (depth_enter s))"
    using body_dropped [OF assms(1), of "depth_enter s"] assms d by simp
  then show ?thesis
    using assms d enter_leave [of s] by (simp add: log_run_append Logger_acquire_def Logger_release_def)
qed

text \<open>The body of the outermost log call writes its chunks.\<close>

lemma body_outputs:
  "body cs ws \<Longrightarrow> depth s = 1 \<Longrightarrow> length cs + 2 < usize_limit \<Longrightarrow> logger_ok s \<Longrightarrow> rtt_live ft pf s \<Longrightarrow>
   \<exists>t. log_run ft pf cs s = Some (Inr t) \<and> outputs ft pf (fst (encode_writes pf ws (encoder s))) s t \<and>
     encoder t = snd (encode_writes pf ws (encoder s))"
proof (induction arbitrary: s rule: body.induct)
  case body_end
  then show ?case by (simp add: outputs_refl)
next
  case (body_write cs ws b)
  obtain c e where ce: "encoder_write pf b (encoder s) = (c, e)" by fastforce
  obtain t where t: "write_chunks ft pf c (s\<lparr>encoder := e\<rparr>) = Some (Inr t)"
    "outputs ft pf c (s\<lparr>encoder := e\<rparr>) t" "encoder t = e"
    using write_chunks_outputs [of "s\<lparr>encoder := e\<rparr>" ft pf c] body_write.prems by auto
  then have "depth t = 1" "logger_ok t" "rtt_live ft pf t"
    using body_write.prems by (simp_all add: outputs_def same_control_def)
  then obtain u where u: "log_run ft pf cs t = Some (Inr u)"
    "outputs ft pf (fst (encode_writes pf ws e)) t u" "encoder u = snd (encode_writes pf ws e)"
    using body_write.IH [of t] body_write.prems t(3) by auto
  have "outputs ft pf (c @ fst (encode_writes pf ws e)) s u" using outputs_trans [OF _ u(2)] t(2) by simp
  then show ?case using ce t u body_write.prems by (auto simp: Logger_write_def split: prod.splits)
next
  case (body_flush cs ws)
  obtain t where t: "Logger_flush ft pf s = Some (Inr t)" "outputs ft pf [] s t" "encoder t = encoder s"
    using Logger_flush_outputs body_flush.prems by blast
  then have "depth t = 1" "logger_ok t" "rtt_live ft pf t"
    using body_flush.prems by (simp_all add: outputs_def same_control_def)
  then obtain u where u: "log_run ft pf cs t = Some (Inr u)"
    "outputs ft pf (fst (encode_writes pf ws (encoder s))) t u" "encoder u = snd (encode_writes pf ws (encoder s))"
    using body_flush.IH [of t] body_flush.prems t(3) by auto
  then show ?case using outputs_trans [OF t(2) u(2)] t(1) by simp
next
  case (body_nested ns xs cs ws)
  have "log_run ft pf (Acquire # ns @ [Release]) s = Some (Inr s)"
    using nested_dropped [OF body_nested.hyps(1), of s] body_nested.prems by simp
  then have "log_run ft pf ((Acquire # ns @ [Release]) @ cs) s = log_run ft pf cs s"
    unfolding log_run_append by simp
  then show ?case using body_nested.IH(2) [of s] body_nested.prems by simp
qed

text \<open>
  A complete log call from the outside: the chunks went to the outputs, the critical section
  was entered before them and left after them with the state it was entered with, the depth
  is back at 0, and the waiting task has been woken.
\<close>

definition woke :: "features \<Rightarrow> 'r log_event list" where
  "woke ft = (if feat_async_await ft then [Woke] else [])"

definition frame_done ::
    "features \<Rightarrow> ('e, 'r, 'h, 'w) platform \<Rightarrow> u8 list list \<Rightarrow> ('e, 'r, 'h, 'w) logger \<Rightarrow> ('e, 'r, 'h, 'w) logger \<Rightarrow> bool" where
  "frame_done ft pf cs s t \<longleftrightarrow>
     depth t = 0 \<and> initialized t = initialized s \<and> ring_output ft cs s t \<and> rtt_output ft cs s t \<and>
     (let (r, w1) = critical_section_acquire pf (world s);
          (h, w2) = (if feat_qemu_test ft then fold (semihosting_write pf) cs (stdout s, w1) else (stdout s, w1))
      in stdout t = h \<and> world t = critical_section_release pf r w2 \<and> cs_state t = r \<and>
         (\<exists>es. trace t = trace s @ Entered r # es @ Left r # woke ft \<and> events_of ft (initialized s) cs es)) \<and>
     (if feat_async_await ft
      then waker_slot t = None \<and> woken t = woken s @ (case waker_slot s of None \<Rightarrow> [] | Some x \<Rightarrow> [x])
      else waker_slot t = waker_slot s \<and> woken t = woken s)"

lemma outputs_depth:
  "outputs ft pf cs (s\<lparr>depth := d\<rparr>) t \<Longrightarrow> outputs ft pf cs s (t\<lparr>depth := depth s\<rparr>)"
  by (simp add: logger_ok_def rtt_live_def outputs_def ring_output_def rtt_output_def
      semihosting_output_def same_control_def trace_output_def cong: if_cong) blast

lemma logger_ok_control [simp]:
  "logger_ok (s\<lparr>depth := d\<rparr>) = logger_ok s" "rtt_live ft pf (s\<lparr>depth := d\<rparr>) = rtt_live ft pf s"
  "logger_ok (s\<lparr>world := w\<rparr>) = logger_ok s" "rtt_live ft pf (s\<lparr>world := w\<rparr>) = rtt_live ft pf s"
  "logger_ok (s\<lparr>cs_state := r\<rparr>) = logger_ok s" "rtt_live ft pf (s\<lparr>cs_state := r\<rparr>) = rtt_live ft pf s"
  by (simp_all add: logger_ok_def rtt_live_def)

lemma logger_ok_wake [simp]:
  "logger_ok (WAKER_wake ft s) = logger_ok s" "rtt_live ft pf (WAKER_wake ft s) = rtt_live ft pf s"
  by (simp_all add: WAKER_wake_def Let_def AtomicWaker_wake_def logger_ok_def rtt_live_def happened_def)

text \<open>The three parts: from \<open>acquire\<close> to the last write; \<open>release\<close> after the depth is counted down; both.\<close>

definition in_section :: "('e, 'r, 'h, 'w) platform \<Rightarrow> ('e, 'r, 'h, 'w) logger \<Rightarrow> ('e, 'r, 'h, 'w) logger" where
  "in_section pf s =
     (let (r, w) = critical_section_acquire pf (world s)
      in s\<lparr>depth := 1, world := w, trace := trace s @ [Entered r], cs_state := r\<rparr>)"

lemma frame_opens:
  assumes b: "body cs ws" "length cs + 2 < usize_limit" and d: "depth s = 0"
    and ok: "logger_ok s" and live: "rtt_live ft pf s"
  shows "\<exists>m. log_run ft pf (Acquire # cs) s = Some (Inr m) \<and>
    outputs ft pf (fst (encode_open pf ws (encoder s))) (in_section pf s) m \<and>
    encoder m = snd (encode_open pf ws (encoder s))"
proof -
  obtain r w1 where acq: "critical_section_acquire pf (world s) = (r, w1)" by fastforce
  obtain c1 e1 where st: "encoder_start_frame pf (encoder s) = (c1, e1)" by fastforce
  obtain c2 e2 where wr: "encode_writes pf ws e1 = (c2, e2)" by fastforce
  have s0: "in_section pf s = s\<lparr>depth := 1, world := w1, trace := trace s @ [Entered r], cs_state := r\<rparr>"
    by (simp add: in_section_def acq)
  have enter: "depth_enter s = s\<lparr>depth := 1\<rparr>"
    using d by (simp add: depth_enter_def uwrapping_add_def usize_limit_def)
  obtain t1 where t1: "write_chunks ft pf c1 ((in_section pf s)\<lparr>encoder := e1\<rparr>) = Some (Inr t1)"
    "outputs ft pf c1 (in_section pf s) t1" "encoder t1 = e1"
    using write_chunks_outputs [of "(in_section pf s)\<lparr>encoder := e1\<rparr>" ft pf c1] ok live by (auto simp: s0)
  have "log_step ft pf Acquire s = Some (Inr t1)"
    using t1(1) acq st enter d by (simp add: Logger_acquire_def acquire_outermost_def happened_def Let_def s0)
  moreover have "depth t1 = 1" "logger_ok t1" "rtt_live ft pf t1"
    using t1(2) by (simp_all add: outputs_def same_control_def s0)
  then obtain t2 where t2: "log_run ft pf cs t1 = Some (Inr t2)" "outputs ft pf c2 t1 t2" "encoder t2 = e2"
    using body_outputs [OF b(1) _ b(2), of t1 ft pf] t1(3) wr by auto
  ultimately show ?thesis
    using outputs_trans [OF t1(2) t2(2)] t2 by (simp add: encode_open_def st wr)
qed

lemma frame_closes:
  assumes "logger_ok m" "rtt_live ft pf m"
  shows "\<exists>u. release_outermost ft pf m = Some (Inr (WAKER_wake ft (happened (Left (cs_state m))
       (u\<lparr>world := critical_section_release pf (cs_state m) (world u)\<rparr>)))) \<and>
    outputs ft pf (fst (encoder_end_frame pf (encoder m))) m u \<and> encoder u = snd (encoder_end_frame pf (encoder m))"
proof -
  obtain c e where en: "encoder_end_frame pf (encoder m) = (c, e)" by fastforce
  obtain u where u: "write_chunks ft pf c (m\<lparr>encoder := e\<rparr>) = Some (Inr u)" "outputs ft pf c m u" "encoder u = e"
    using write_chunks_outputs [of "m\<lparr>encoder := e\<rparr>" ft pf c] assms by auto
  then have "cs_state u = cs_state m" by (simp add: outputs_def same_control_def)
  then show ?thesis using u en by (auto simp: release_outermost_def Let_def)
qed

lemma frame_runs:
  assumes b: "body cs ws" "length cs + 2 < usize_limit" and d: "depth s = 0"
    and ok: "logger_ok s" and live: "rtt_live ft pf s"
  shows "\<exists>t. log_run ft pf (Acquire # cs @ [Release]) s = Some (Inr t) \<and> logger_ok t \<and> rtt_live ft pf t \<and>
    encoder t = snd (encode_frame pf ws (encoder s)) \<and>
    frame_done ft pf (fst (encode_frame pf ws (encoder s))) s t"
proof -
  obtain r w1 where acq: "critical_section_acquire pf (world s) = (r, w1)" by fastforce
  obtain c12 e2 where op: "encode_open pf ws (encoder s) = (c12, e2)" by fastforce
  obtain c3 e3 where en: "encoder_end_frame pf e2 = (c3, e3)" by fastforce
  obtain m where m: "log_run ft pf (Acquire # cs) s = Some (Inr m)" "outputs ft pf c12 (in_section pf s) m" "encoder m = e2"
    using frame_opens [OF assms] op by auto
  have okm: "logger_ok m" "rtt_live ft pf m" "depth m = 1" "cs_state m = r"
    using m(2) acq by (simp_all add: outputs_def same_control_def in_section_def)
  have leave: "depth_leave m = m\<lparr>depth := 0\<rparr>" using okm(3) by (simp add: depth_leave_def uwrapping_sub_def usize_limit_def)
  obtain u where u: "release_outermost ft pf (m\<lparr>depth := 0\<rparr>) = Some (Inr (WAKER_wake ft (happened (Left r)
       (u\<lparr>world := critical_section_release pf r (world u)\<rparr>))))" (is "_ = Some (Inr ?t)")
    "outputs ft pf c3 (m\<lparr>depth := 0\<rparr>) u" "encoder u = e3"
    using frame_closes [of "m\<lparr>depth := 0\<rparr>" ft pf] okm m(3) en by auto
  have "log_run ft pf [Release] m = Some (Inr ?t)" using okm(3) leave u(1) by (simp add: Logger_release_def Let_def)
  then have run: "log_run ft pf (Acquire # cs @ [Release]) s = Some (Inr ?t)"
    using m(1) log_run_append [of ft pf "Acquire # cs" "[Release]" s] by simp
  have "outputs ft pf c3 m (u\<lparr>depth := 1\<rparr>)" using outputs_depth [OF u(2)] okm(3) by simp
  from outputs_trans [OF m(2) this]
  have out: "outputs ft pf (c12 @ c3) (in_section pf s) (u\<lparr>depth := 1\<rparr>)" .
  have du: "depth u = 0" "logger_ok u" "rtt_live ft pf u" using u(2) by (simp_all add: outputs_def same_control_def)
  have "frame_done ft pf (c12 @ c3) s ?t"
    using out du(1) acq by (cases "feat_qemu_test ft")
      (auto simp: frame_done_def outputs_def ring_output_def rtt_output_def semihosting_output_def trace_output_def in_section_def
        same_control_def WAKER_wake_def Let_def AtomicWaker_wake_def happened_def woke_def split: prod.splits)
  moreover have "encoder ?t = e3" using u(3) by (simp add: WAKER_wake_def Let_def AtomicWaker_wake_def happened_def)
  ultimately show ?thesis using run du op en by (simp add: encode_frame_open)
qed

text \<open>The ring part in terms of the content.\<close>

lemma ring_output_content:
  "logger_ok s \<Longrightarrow> initialized s \<Longrightarrow> ring_output ft cs s t \<Longrightarrow>
   content (persist t) = content (persist s) @ take (space (persist s)) (concat cs)"
  "logger_ok s \<Longrightarrow> initialized s \<Longrightarrow> ring_output ft cs s t \<Longrightarrow>
   space (persist t) = space (persist s) - length (concat cs)"
  by (simp_all add: logger_ok_def ring_output_def ring_queue.push_all_content ring_queue.push_all_room)

lemma rtt_output_stream:
  "rtt_output ft cs s t \<Longrightarrow> feat_rtt ft \<Longrightarrow> host_is_connected (rtt_channel s) \<Longrightarrow>
   rtt_stream (rtt_channel t) = rtt_stream (rtt_channel s) @ concat cs"
  by (auto simp: rtt_output_def)

text \<open>What no output changes about the ring: its header, its size, an absent flush field.\<close>

definition same_region :: "features \<Rightarrow> ring \<Rightarrow> ring \<Rightarrow> bool" where
  "same_region ft v w \<longleftrightarrow> rb_header w = rb_header v \<and> length (buf w) = length (buf v) \<and>
     (feat_ecc ft \<or> rb_ecc_flush w = rb_ecc_flush v)"

lemma same_region_push:
  "ring_ok v \<Longrightarrow> push_all (Producer_write ft) cs v = Inr w \<Longrightarrow> same_region ft v w"
proof (induction cs arbitrary: v)
  case (Cons c cs)
  then obtain u where u: "Producer_write ft c v = Inr u" "push_all (Producer_write ft) cs u = Inr w"
    by (auto simp: res_bind_eq_Inr)
  have "feat_ecc ft \<or> rb_ecc_flush u = rb_ecc_flush v"
    using u(1) Producer_write_eq [OF Cons.prems(1), of ft c]
    by (auto simp: written_def Let_def flush_ecc_def split: if_splits)
  then show ?case
    using Cons.IH [OF _ u(2)] Producer_write_cases [OF Cons.prems(1) u(1)] by (auto simp: same_region_def)
qed (simp add: same_region_def)

lemma ring_output_region:
  "logger_ok s \<Longrightarrow> ring_output ft cs s t \<Longrightarrow> same_region ft (persist s) (persist t)"
  by (cases "initialized s") (auto simp: logger_ok_def ring_output_def same_region_push, simp add: same_region_def)

text \<open>Several complete log calls in a row; each is a body with what it writes.\<close>

fun log_calls :: "log_call list list \<Rightarrow> log_call list" where
  "log_calls [] = []"
| "log_calls (cs # css) = Acquire # cs @ [Release] @ log_calls css"

fun encode_frames :: "('e, 'r, 'h, 'w) platform \<Rightarrow> u8 list list list \<Rightarrow> 'e \<Rightarrow> u8 list list" where
  "encode_frames pf [] e = []"
| "encode_frames pf (ws # wss) e =
     (let (cs, e1) = encode_frame pf ws e in concat cs # encode_frames pf wss e1)"

lemma log_calls_run:
  "list_all2 body css wss \<Longrightarrow> \<forall>cs\<in>set css. length cs + 2 < usize_limit \<Longrightarrow> depth s = 0 \<Longrightarrow>
   logger_ok s \<Longrightarrow> rtt_live ft pf s \<Longrightarrow> initialized s \<Longrightarrow>
   \<exists>t. log_run ft pf (log_calls css) s = Some (Inr t) \<and> depth t = 0 \<and> logger_ok t \<and>
     same_region ft (persist s) (persist t) \<and>
     content (persist t) = content (persist s) @ take (space (persist s)) (concat (encode_frames pf wss (encoder s)))"
proof (induction arbitrary: s rule: list_all2_induct)
  case (Cons cs css ws wss)
  obtain c e where ce: "encode_frame pf ws (encoder s) = (c, e)" by fastforce
  obtain t where t: "log_run ft pf (Acquire # cs @ [Release]) s = Some (Inr t)" "logger_ok t" "rtt_live ft pf t"
    "encoder t = e" "frame_done ft pf c s t"
    using frame_runs [OF Cons.hyps(1) _ Cons.prems(2,3,4)] Cons.prems(1) ce by fastforce
  have f: "depth t = 0" "initialized t" "ring_output ft c s t"
    using t(5) Cons.prems(5) by (simp_all add: frame_done_def)
  note c = ring_output_content [OF Cons.prems(3,5) f(3)]
  obtain u where u: "log_run ft pf (log_calls css) t = Some (Inr u)" "depth u = 0" "logger_ok u"
    "same_region ft (persist t) (persist u)"
    "content (persist u) = content (persist t) @ take (space (persist t)) (concat (encode_frames pf wss e))"
    using Cons.IH [OF _ f(1) t(2,3) f(2)] Cons.prems(1) t(4) by auto
  have "log_run ft pf ((Acquire # cs @ [Release]) @ log_calls css) s = Some (Inr u)"
    unfolding log_run_append t(1) by (simp add: u(1))
  moreover have "content (persist u) = content (persist s) @
      take (space (persist s)) (concat (encode_frames pf (ws # wss) (encoder s)))"
    using u(5) c ce by simp
  moreover have "same_region ft (persist s) (persist u)"
    using ring_output_region [OF Cons.prems(3) f(3)] u(4) by (auto simp: same_region_def)
  ultimately show ?case using u(2,3) by simp
qed (simp add: same_region_def)

subsection \<open>A platform and a state for the witnesses\<close>

text \<open>
  An encoder that ends each frame with a zero byte, interrupts that are on or off, no
  semihosting, and no debugger.
\<close>

definition bare_platform :: "(unit, bool, unit, bool) platform" where
  "bare_platform =
     \<lparr>encoder_start_frame = (\<lambda>e. ([], e)), encoder_write = (\<lambda>b e. ([b], e)), encoder_end_frame = (\<lambda>e. ([[0]], e)),
      critical_section_acquire = (\<lambda>w. (w, False)), critical_section_release = (\<lambda>r w. r),
      hstdout = (\<lambda>w. (None, w)), hstdout_write_all = (\<lambda>b h w. (h, w)), debugger = detached\<rparr>"

definition booted :: "(unit, bool, unit, bool) logger" where
  "booted =
     \<lparr>producer_written = True, cs_state = False, encoder = (), initialized = True, depth = 0,
      persist = RingBuffer_new default_features 0 0 [0, 0, 0, 0, 0], rtt_channel = rtt_start [0, 0, 0, 0],
      rtt_loads = 0, stdout = None, waker_slot = Some 3, woken = [], world = True, trace = []\<rparr>"

lemma booted_ok:
  "logger_ok booted" "rtt_live ft bare_platform booted" "depth booted = 0" "initialized booted"
  "content (persist booted) = []" "space (persist booted) = 4" "world booted" "waker_slot booted = Some 3"
  "woken booted = []" "encoder booted = ()"
proof -
  have "channel_ok (rtt_start [0, 0, 0, 0])" by (rule rtt_start_ok) (simp_all add: usize_limit_def)
  then show "logger_ok booted" by (simp add: logger_ok_def booted_def ring_eval)
  show "rtt_live ft bare_platform booted"
    using detached_conforms rtt_start_ok(4) by (simp add: rtt_live_def host_live_def booted_def bare_platform_def)
  show "depth booted = 0" "initialized booted" "content (persist booted) = []" "world booted"
    "waker_slot booted = Some 3" "woken booted = []" "encoder booted = ()"
    by (simp_all add: booted_def ring_eval)
  have "length (buf (persist booted)) = 5" by (simp add: booted_def RingBuffer_new_def)
  then show "space (persist booted) = 4"
    using \<open>content (persist booted) = []\<close> by (simp add: space_def)
qed

lemma bare_frame:
  "encode_frame bare_platform [[7], [8, 9]] () = ([[7], [8, 9], [0]], ())"
  by (simp add: encode_frame_def bare_platform_def)

lemma demo_body: "body [Write [7], Acquire, Write [5], Release, Write [8, 9]] [[7], [8, 9]]"
proof -
  have "body [Write [5]] [[5]]" by (intro body.intros)
  then have "body (Acquire # [Write [5]] @ Release # [Write [8, 9]]) [[8, 9]]"
    by (rule body_nested) (intro body.intros)
  then show ?thesis using body_write [of "[Acquire, Write [5], Release, Write [8, 9]]" "[[8, 9]]" "[7]"] by simp
qed

subsection \<open>Properties\<close>

text \<open>
  C9: a log call, with any writes, flushes and nested (interrupting) log calls between
  \<open>acquire\<close> and \<open>release\<close>, always returns, and delivers the one frame that the encoder makes of
  its own writes: an initialised ring gets it appended as if pushed at once, cut off where the
  ring is full; before \<open>init\<close> the ring is left alone; a debugger in blocking mode gets all of it.
\<close>

theorem log_call_delivers_frame:
  assumes "body cs ws" and "length cs + 2 < usize_limit" and "depth s = 0"
    and "logger_ok s" and "rtt_live ft pf s"
  shows "\<exists>t. log_run ft pf (Acquire # cs @ [Release]) s = Some (Inr t) \<and> logger_ok t \<and> depth t = 0 \<and>
     (if initialized s
      then content (persist t) = content (persist s)
             @ take (space (persist s)) (concat (fst (encode_frame pf ws (encoder s))))
      else persist t = persist s) \<and>
     (feat_rtt ft \<longrightarrow> host_is_connected (rtt_channel s) \<longrightarrow>
        rtt_stream (rtt_channel t) = rtt_stream (rtt_channel s) @ concat (fst (encode_frame pf ws (encoder s))))"
  using frame_runs [OF assms] ring_output_content(1) [OF assms(4)] rtt_output_stream
  unfolding frame_done_def by (fastforce simp: ring_output_def)

theorem log_call_delivers_frame_witness:
  "\<exists>t. log_run default_features bare_platform [Acquire, Write [7], Acquire, Write [5], Release, Write [8, 9], Release]
         booted = Some (Inr t) \<and> content (persist t) = [7, 8, 9, 0]"
proof -
  have "length [Write [7], Acquire, Write [5], Release, Write [8, 9]] + 2 < usize_limit"
    by (simp add: usize_limit_def)
  from log_call_delivers_frame [OF demo_body this booted_ok(3,1,2), of default_features]
  show ?thesis by (auto simp: booted_ok bare_frame)
qed

text \<open>
  C24: the order of what a log call does to the outside. It enters the critical section; then each chunk of the
  frame goes to the ring, to RTT and to semihosting, in this order, as far as they are there, with flushes of RTT in between and
  nothing else; then it leaves the critical section, with exactly the state that the entry returned; and only then
  the task registered with \<open>wait_for_data\<close> is woken, once, when the \<open>async-await\<close> feature is on. So no output of a frame
  is made outside the critical section, and the task is woken when the frame is complete.
\<close>

theorem log_call_critical_section:
  assumes "body cs ws" and "length cs + 2 < usize_limit" and "depth s = 0"
    and "logger_ok s" and "rtt_live ft pf s"
  shows "\<exists>t. log_run ft pf (Acquire # cs @ [Release]) s = Some (Inr t) \<and>
     (let (r, w1) = critical_section_acquire pf (world s);
          chunks = fst (encode_frame pf ws (encoder s));
          (h, w2) = (if feat_qemu_test ft then fold (semihosting_write pf) chunks (stdout s, w1) else (stdout s, w1))
      in (\<exists>es. trace t = trace s @ Entered r # es @ Left r # (if feat_async_await ft then [Woke] else []) \<and>
            filter (\<lambda>e. e \<noteq> Rtt_flushed) es = concat (map (chunk_events ft (initialized s)) chunks)) \<and>
         stdout t = h \<and> world t = critical_section_release pf r w2) \<and>
     (if feat_async_await ft
      then waker_slot t = None \<and> woken t = woken s @ (case waker_slot s of None \<Rightarrow> [] | Some x \<Rightarrow> [x])
      else waker_slot t = waker_slot s \<and> woken t = woken s)"
  using frame_runs [OF assms] unfolding frame_done_def events_of_def woke_def Let_def
  by (fastforce split: prod.splits)

theorem log_call_critical_section_witness:
  "\<exists>t. log_run default_features bare_platform [Acquire, Write [7], Acquire, Write [5], Release, Write [8, 9], Release]
         booted = Some (Inr t) \<and> world t \<and> woken t = [3] \<and>
     filter (\<lambda>e. e \<noteq> Rtt_flushed) (trace t) = [Entered True, To_ring [7], To_rtt [7], To_ring [8, 9], To_rtt [8, 9],
       To_ring [0], To_rtt [0], Left True, Woke]"
proof -
  have "length [Write [7], Acquire, Write [5], Release, Write [8, 9]] + 2 < usize_limit"
    by (simp add: usize_limit_def)
  from log_call_critical_section [OF demo_body this booted_ok(3,1,2), of default_features]
  show ?thesis
    by (auto simp: booted_ok bare_frame chunk_events_def) (auto simp: bare_platform_def default_features_def booted_def)
qed

text \<open>
  C25: reentrant log calls, of whatever nesting, are dropped: made while \<open>depth\<close> is at least 1, they return at once with
  the whole state as it was. And \<open>depth\<close> is 1 in a log call from the count in \<open>acquire\<close> through all its writes and
  flushes up to the count in \<open>release\<close>. In the rest of \<open>release\<close> it is 0 and this does not hold: see the
  theorem \<open>nmi_in_release_window\<close>.
\<close>

theorem reentrant_log_calls_dropped:
  assumes "body cs ws" and "body ns xs" and "length cs + 2 < usize_limit" and "length ns + 2 < usize_limit"
    and "depth s = 0" and "logger_ok s" and "rtt_live ft pf s"
  shows "\<exists>m. log_run ft pf (Acquire # cs) s = Some (Inr m) \<and> depth m = 1 \<and>
     log_run ft pf (Acquire # ns @ [Release]) m = Some (Inr m) \<and>
     (\<forall>u. 1 \<le> depth u \<and> depth u + length ns + 1 < usize_limit \<longrightarrow>
        log_run ft pf (Acquire # ns @ [Release]) u = Some (Inr u))"
proof -
  obtain m where m: "log_run ft pf (Acquire # cs) s = Some (Inr m)"
    "outputs ft pf (fst (encode_open pf ws (encoder s))) (in_section pf s) m"
    using frame_opens [OF assms(1,3,5,6,7)] by blast
  have "depth m = 1" using m(2) by (simp add: outputs_def same_control_def in_section_def split: prod.splits)
  then show ?thesis
    using m(1) assms(4) by (intro exI [of _ m] conjI allI impI nested_dropped [OF assms(2)]) simp_all
qed

theorem reentrant_log_calls_dropped_witness:
  "\<exists>m. log_run default_features bare_platform [Acquire, Write [7]] booted = Some (Inr m) \<and>
     log_run default_features bare_platform
       [Acquire, Write [7], Acquire, Write [5], Release, Write [8, 9], Release] m = Some (Inr m)"
proof -
  have b: "body [Write [7]] [[7]]" by (intro body.intros)
  have l: "length [Write [7]] + 2 < usize_limit"
    "length [Write [7], Acquire, Write [5], Release, Write [8, 9]] + 2 < usize_limit" by (simp_all add: usize_limit_def)
  from reentrant_log_calls_dropped [OF b demo_body l booted_ok(3,1,2), of default_features]
  show ?thesis by auto
qed

text \<open>
  C26: \<open>release\<close> counts the depth down before it passes on the end of the frame and leaves the critical section. A handler
  that fires in between (an NMI or a fault; the critical section keeps ordinary interrupts out) and logs is not
  dropped: its frame lands in the middle of the interrupted one, and its \<open>acquire\<close> overwrites the saved state
  of the critical section. The interrupted call then leaves the critical section with the state that the handler's
  entry returned, \<open>r2\<close>, instead of its own, \<open>r\<close>: interrupts that were on before the log call stay off.
\<close>

theorem nmi_in_release_window:
  assumes "body cs ws" and "body ns xs" and "length cs + 2 < usize_limit" and "length ns + 2 < usize_limit"
    and "depth s = 0" and "logger_ok s" and "rtt_live ft pf s"
  shows "\<exists>m t. log_run ft pf (Acquire # cs) s = Some (Inr m) \<and>
     run_bind (log_run ft pf (Acquire # ns @ [Release]) (depth_leave m)) (release_outermost ft pf) = Some (Inr t) \<and>
     (let r = fst (critical_section_acquire pf (world s)); r2 = fst (critical_section_acquire pf (world m));
          (c1, e1) = encode_open pf ws (encoder s); (c2, e2) = encode_frame pf xs e1; c3 = fst (encoder_end_frame pf e2)
      in cs_state m = r \<and>
         (\<exists>es fs. trace t = trace m @ Entered r2 # es @ Left r2 # woke ft @ fs @ Left r2 # woke ft \<and>
            events_of ft (initialized s) c2 es \<and> events_of ft (initialized s) c3 fs) \<and>
         (\<exists>w. world t = critical_section_release pf r2 w) \<and>
         (\<not> feat_qemu_test ft \<longrightarrow> world m = snd (critical_section_acquire pf (world s))) \<and>
         (initialized s \<longrightarrow> content (persist t) =
            content (persist s) @ take (space (persist s)) (concat c1 @ concat c2 @ concat c3)))"
proof -
  obtain r w1 where acq: "critical_section_acquire pf (world s) = (r, w1)" by fastforce
  obtain c1 e1 where op: "encode_open pf ws (encoder s) = (c1, e1)" by fastforce
  obtain c2 e2 where fr: "encode_frame pf xs e1 = (c2, e2)" by fastforce
  obtain c3 e3 where en: "encoder_end_frame pf e2 = (c3, e3)" by fastforce
  obtain m where m: "log_run ft pf (Acquire # cs) s = Some (Inr m)" "outputs ft pf c1 (in_section pf s) m" "encoder m = e1"
    using frame_opens [OF assms(1,3,5,6,7)] op by auto
  have mf: "logger_ok m" "rtt_live ft pf m" "depth m = 1" "cs_state m = r" "initialized m = initialized s"
    "ring_output ft c1 s m" "\<not> feat_qemu_test ft \<longrightarrow> world m = w1"
    using m(2) acq by (auto simp: outputs_def same_control_def in_section_def ring_output_def semihosting_output_def)
  have leave: "depth_leave m = m\<lparr>depth := 0\<rparr>" using mf(3) by (simp add: depth_leave_def uwrapping_sub_def usize_limit_def)
  obtain n where n: "log_run ft pf (Acquire # ns @ [Release]) (depth_leave m) = Some (Inr n)" "logger_ok n" "rtt_live ft pf n"
    "encoder n = e2" "frame_done ft pf c2 (m\<lparr>depth := 0\<rparr>) n"
    using frame_runs [OF assms(2,4), of "m\<lparr>depth := 0\<rparr>" ft pf] mf(1,2) m(3) fr unfolding leave by auto
  obtain r2 w2 where acq2: "critical_section_acquire pf (world m) = (r2, w2)" by fastforce
  obtain es where nf: "cs_state n = r2" "initialized n = initialized s" "ring_output ft c2 m n"
    "trace n = trace m @ Entered r2 # es @ Left r2 # woke ft" "events_of ft (initialized s) c2 es"
    using n(5) mf(5) acq2 by (auto simp: frame_done_def ring_output_def split: prod.splits)
  obtain u where u: "release_outermost ft pf n = Some (Inr (WAKER_wake ft (happened (Left r2)
       (u\<lparr>world := critical_section_release pf r2 (world u)\<rparr>))))" (is "_ = Some (Inr ?t)") "outputs ft pf c3 n u"
    using frame_closes [OF n(2,3)] n(4) en nf(1) by auto
  obtain fs where uf: "ring_output ft c3 n u" "trace u = trace n @ fs" "events_of ft (initialized s) c3 fs"
    using u(2) nf(2) by (auto simp: outputs_def trace_output_def)
  have t: "persist ?t = persist u" "trace ?t = trace u @ Left r2 # woke ft" "world ?t = critical_section_release pf r2 (world u)"
    by (simp_all add: WAKER_wake_def Let_def AtomicWaker_wake_def happened_def woke_def)
  have "content (persist u) = content (persist s) @ take (space (persist s)) (concat c1 @ concat c2 @ concat c3)" if "initialized s"
    using that ring_output_content [OF assms(6) that mf(6)] ring_output_content [OF mf(1) _ nf(3)]
      ring_output_content [OF n(2) _ uf(1)] mf(5) nf(2) by simp
  then show ?thesis
    using m(1) n(1) u(1) t mf(4,7) acq acq2 op fr en nf(4,5) uf(2,3)
    by (intro exI [of _ m] exI [of _ ?t]) auto
qed

theorem nmi_in_release_window_witness:
  "\<exists>m t. log_run default_features bare_platform [Acquire, Write [7]] booted = Some (Inr m) \<and>
     run_bind (log_run default_features bare_platform [Acquire, Write [5], Release] (depth_leave m))
       (release_outermost default_features bare_platform) = Some (Inr t) \<and>
     world booted \<and> \<not> world t \<and> content (persist t) = [7, 5, 0, 0]"
proof -
  have b: "body [Write [7]] [[7]]" "body [Write [5]] [[5]]" by (intro body.intros)+
  have l: "length [Write [7]] + 2 < usize_limit" "length [Write [5]] + 2 < usize_limit" by (simp_all add: usize_limit_def)
  have f: "encode_open bare_platform [[7]] () = ([[7]], ())" "encode_frame bare_platform [[5]] () = ([[5], [0]], ())"
    "fst (encoder_end_frame bare_platform ()) = [[0]]"
    by (simp_all add: encode_open_def encode_frame_def bare_platform_def)
  from nmi_in_release_window [OF b l booted_ok(3,1,2), of default_features]
  show ?thesis unfolding booted_ok f Let_def prod.case
    by (auto simp: booted_ok) (auto simp: bare_platform_def default_features_def)
qed

text \<open>
  C38: the depth is counted before the critical section is entered, so an ordinary interrupt
  that fires between the two and makes a complete log call loses its message: the state is
  as if it had never logged. The comments say that only calls from an NMI, a fault or a panic
  during logging are dropped.
\<close>

theorem interrupt_in_acquire_window_dropped:
  assumes "body cs ws" and "depth s = 0" and "length cs + 2 < usize_limit"
  shows "run_bind (log_run ft pf (Acquire # cs @ [Release]) (depth_enter s)) (acquire_outermost ft pf)
     = Logger_acquire ft pf s"
proof -
  have d: "depth (depth_enter s) = 1"
    using assms by (simp add: depth_enter_def uwrapping_add_def usize_limit_def)
  have "log_run ft pf (Acquire # cs @ [Release]) (depth_enter s) = Some (Inr (depth_enter s))"
    using nested_dropped [OF assms(1), of "depth_enter s"] d assms(3) by simp
  then show ?thesis using assms(2) by (simp add: Logger_acquire_def Let_def)
qed

theorem interrupt_in_acquire_window_dropped_witness:
  "run_bind (log_run default_features bare_platform [Acquire, Write [5], Release] (depth_enter booted))
     (acquire_outermost default_features bare_platform)
   = Logger_acquire default_features bare_platform booted"
proof -
  have b: "body [Write [5]] [[5]]" by (intro body.intros)
  have "length [Write [5]] + 2 < usize_limit" by (simp add: usize_limit_def)
  from interrupt_in_acquire_window_dropped [OF b booted_ok(3) this] show ?thesis by simp
qed

text \<open>
  Successive log calls leave their frames in the ring in order, one after the other; when
  the ring fills up the rest of the current frame is cut off and all later frames are lost,
  until the consumer makes room.
\<close>

lemma log_calls_fill_ring_in_order:
  assumes "list_all2 body css wss" and "\<forall>cs\<in>set css. length cs + 2 < usize_limit"
    and "depth s = 0" and "logger_ok s" and "rtt_live ft pf s" and "initialized s"
  shows "\<exists>t. log_run ft pf (log_calls css) s = Some (Inr t) \<and> depth t = 0 \<and>
     content (persist t) = content (persist s) @ take (space (persist s)) (concat (encode_frames pf wss (encoder s)))"
  using log_calls_run [OF assms] by blast

end
