(* ===== verification/Region.thy ===== *)
theory Region
  imports RingBuffer
begin

text \<open>
  The persist region as bytes: the \<open>repr(C)\<close> layout of \<open>RingBuffer\<close>, the field offsets
  that \<open>ring_buffer::offsets\<close> exports, the view of a byte region as a ring (what the
  pointer casts of \<open>recover_or_reinitialize\<close> do on a little-endian target), the memory image of a ring,
  and \<open>recover_or_reinitialize\<close> with its address arithmetic.

  The alignments of \<open>u128\<close> and \<open>u64\<close> differ between the target and the host that \<open>xtask\<close>
  runs on; they are the fields of \<open>abi\<close>.
\<close>

subsection \<open>repr(C) layout\<close>

record abi =
  align_u128 :: nat
  align_u64 :: nat

definition abi_ok :: "abi \<Rightarrow> bool" where
  "abi_ok a \<longleftrightarrow> align_u128 a \<in> {4, 8, 16} \<and> align_u64 a \<in> {4, 8}"

text \<open>32-bit Arm aligns both to 8 bytes; an x86-64 host aligns \<open>u128\<close> to 16.\<close>

definition thumb_abi :: abi where
  "thumb_abi = \<lparr>align_u128 = 8, align_u64 = 8\<rparr>"

definition host_abi :: abi where
  "host_abi = \<lparr>align_u128 = 16, align_u64 = 8\<rparr>"

definition align_up :: "nat \<Rightarrow> nat \<Rightarrow> nat" where
  "align_up n a = ((n + a - 1) div a) * a"

text \<open>Size and alignment of the fields of \<open>RingBuffer\<close>, in declaration order.\<close>

definition RingBuffer_fields :: "features \<Rightarrow> abi \<Rightarrow> (nat \<times> nat) list" where
  "RingBuffer_fields ft a =
     [(16, align_u128 a), (4, 4), (4, 4)] @ (if feat_ecc ft then [(8, align_u64 a)] else [])"

fun repr_c_offsets :: "nat \<Rightarrow> (nat \<times> nat) list \<Rightarrow> nat list" where
  "repr_c_offsets off [] = []"
| "repr_c_offsets off ((sz, al) # fs) =
     align_up off al # repr_c_offsets (align_up off al + sz) fs"

fun repr_c_end :: "nat \<Rightarrow> (nat \<times> nat) list \<Rightarrow> nat" where
  "repr_c_end off [] = off"
| "repr_c_end off ((sz, al) # fs) = repr_c_end (align_up off al + sz) fs"

definition align_of_RingBuffer :: "features \<Rightarrow> abi \<Rightarrow> nat" where
  "align_of_RingBuffer ft a = fold max (map snd (RingBuffer_fields ft a)) 1"

definition size_of_RingBuffer :: "features \<Rightarrow> abi \<Rightarrow> nat" where
  "size_of_RingBuffer ft a = align_up (repr_c_end 0 (RingBuffer_fields ft a)) (align_of_RingBuffer ft a)"

definition HEADER :: "features \<Rightarrow> abi \<Rightarrow> nat" where
  "HEADER ft a = repr_c_offsets 0 (RingBuffer_fields ft a) ! 0"

definition READ :: "features \<Rightarrow> abi \<Rightarrow> nat" where
  "READ ft a = repr_c_offsets 0 (RingBuffer_fields ft a) ! 1"

definition WRITE :: "features \<Rightarrow> abi \<Rightarrow> nat" where
  "WRITE ft a = repr_c_offsets 0 (RingBuffer_fields ft a) ! 2"

definition INDEX_SIZE :: nat where
  "INDEX_SIZE = 4"

definition ECC_FLUSH :: "features \<Rightarrow> abi \<Rightarrow> nat" where
  "ECC_FLUSH ft a = repr_c_offsets 0 (RingBuffer_fields ft a) ! 3"

lemmas layout_defs = RingBuffer_fields_def HEADER_def READ_def WRITE_def ECC_FLUSH_def
  size_of_RingBuffer_def align_of_RingBuffer_def align_up_def

lemma layout_offsets:
  assumes "abi_ok a"
  shows "HEADER ft a = 0" "READ ft a = 16" "WRITE ft a = 20"
    "feat_ecc ft \<Longrightarrow> ECC_FLUSH ft a = 24"
  using assms by (auto simp: layout_defs abi_ok_def)

lemma layout_size:
  assumes "abi_ok a"
  shows "24 \<le> size_of_RingBuffer ft a" "feat_ecc ft \<Longrightarrow> 32 \<le> size_of_RingBuffer ft a"
    "size_of_RingBuffer ft a \<le> 32"
  using assms by (auto simp: layout_defs abi_ok_def)

subsection \<open>Little-endian fields in a byte region\<close>

fun le_nat :: "u8 list \<Rightarrow> nat" where
  "le_nat [] = 0"
| "le_nat (b # bs) = unat b + 256 * le_nat bs"

fun le_bytes :: "nat \<Rightarrow> nat \<Rightarrow> u8 list" where
  "le_bytes 0 x = []"
| "le_bytes (Suc n) x = of_nat x # le_bytes n (x div 256)"

lemma length_le_bytes [simp]: "length (le_bytes n x) = n"
  by (induction n arbitrary: x) auto

lemma le_nat_le_bytes: "le_nat (le_bytes n x) = x mod 256 ^ n"
proof (induction n arbitrary: x)
  case (Suc n)
  have "unat (of_nat x :: u8) = x mod 256" by (simp add: unat_of_nat)
  then show ?case using Suc by (simp add: mod_mult2_eq)
qed simp

lemma le_bytes_le_nat: "le_bytes (length bs) (le_nat bs) = bs"
proof (induction bs)
  case (Cons b bs)
  have "unat b < 256" using unsigned_less [of b] by simp
  then have "(unat b + 256 * le_nat bs) div 256 = le_nat bs" by simp
  moreover have "(of_nat (unat b + 256 * le_nat bs) :: u8) = b"
    using \<open>unat b < 256\<close> by (simp add: word_unat_eq_iff unat_of_nat del: of_nat_add of_nat_mult)
  ultimately show ?case using Cons by simp
qed simp

lemma le_nat_less: "le_nat bs < 256 ^ length bs"
proof (induction bs)
  case (Cons b bs)
  have "unat b < 256" using unsigned_less [of b] by simp
  then show ?case using Cons by simp
qed simp

definition load_at :: "nat \<Rightarrow> nat \<Rightarrow> u8 list \<Rightarrow> u8 list" where
  "load_at off n bytes = take n (drop off bytes)"

definition store_at :: "nat \<Rightarrow> u8 list \<Rightarrow> u8 list \<Rightarrow> u8 list" where
  "store_at off d bytes = take off bytes @ d @ drop (off + length d) bytes"

lemma length_load_at [simp]: "off + n \<le> length bytes \<Longrightarrow> length (load_at off n bytes) = n"
  by (simp add: load_at_def)

lemma length_store_at [simp]:
  "off + length d \<le> length bytes \<Longrightarrow> length (store_at off d bytes) = length bytes"
  by (simp add: store_at_def)

lemma load_at_store_at [simp]:
  "off + length d \<le> length bytes \<Longrightarrow> n = length d \<Longrightarrow> load_at off n (store_at off d bytes) = d"
  by (simp add: load_at_def store_at_def)

lemma load_at_store_at_other:
  assumes "off + length d \<le> length bytes" "m + n \<le> off \<or> off + length d \<le> m"
  shows "load_at m n (store_at off d bytes) = load_at m n bytes"
  using assms by (auto simp: load_at_def store_at_def drop_take min_def)

lemma store_at_load_at [simp]: "off + n \<le> length bytes \<Longrightarrow> store_at off (load_at off n bytes) bytes = bytes"
  by (simp add: store_at_def load_at_def) (metis append_take_drop_id drop_drop add.commute)

subsection \<open>The region viewed as a ring\<close>

definition region_view :: "features \<Rightarrow> abi \<Rightarrow> usize \<Rightarrow> u8 list \<Rightarrow> ring" where
  "region_view ft a buf_len bytes =
     \<lparr>rb_header = of_nat (le_nat (load_at (HEADER ft a) 16 bytes)),
      rb_read = of_nat (le_nat (load_at (READ ft a) 4 bytes)),
      rb_write = of_nat (le_nat (load_at (WRITE ft a) 4 bytes)),
      rb_ecc_flush = (if feat_ecc ft then of_nat (le_nat (load_at (ECC_FLUSH ft a) 8 bytes)) else 0),
      buf = load_at (size_of_RingBuffer ft a) buf_len bytes\<rparr>"

text \<open>
  No function of the program: the bytes that a reset, a dump or a debugger finds in the region
  while the program has the ring \<open>v\<close> in it. \<open>bytes\<close> are the bytes before, of which only padding is left. The
  lemma \<open>region_image_unique\<close> says that no other bytes are read as \<open>v\<close>.
\<close>

definition region_store :: "features \<Rightarrow> abi \<Rightarrow> ring \<Rightarrow> u8 list \<Rightarrow> u8 list" where
  "region_store ft a v bytes =
     store_at (size_of_RingBuffer ft a) (buf v)
       ((if feat_ecc ft then store_at (ECC_FLUSH ft a) (le_bytes 8 (unat (rb_ecc_flush v))) else id)
         (store_at (WRITE ft a) (le_bytes 4 (unat (rb_write v)))
           (store_at (READ ft a) (le_bytes 4 (unat (rb_read v)))
             (store_at (HEADER ft a) (le_bytes 16 (unat (rb_header v))) bytes))))"

text \<open>\<open>Range::len\<close> of a half-open range of addresses.\<close>

definition range_len :: "usize \<Rightarrow> usize \<Rightarrow> usize" where
  "range_len start end = (if start < end then end - start else 0)"

text \<open>
  \<open>bytes\<close> is what the memory holds from \<open>start\<close> on. The result is the ring behind the
  producer and consumer handles.
\<close>

definition recover_or_reinitialize ::
    "features \<Rightarrow> abi \<Rightarrow> usize \<Rightarrow> usize \<Rightarrow> u8 list \<Rightarrow> ring res" where
  "recover_or_reinitialize ft a start end bytes =
     res_bind (usub (range_len start end) (size_of_RingBuffer ft a)) (\<lambda>buf_len.
     let v = recover ft (region_view ft a buf_len bytes) in
     res_bind (uadd start (size_of_RingBuffer ft a)) (\<lambda>buf_start. Inr v))"

lemma of_nat_le_nat_bytes:
  "unat (x :: 'a::len word) < 256 ^ n \<Longrightarrow> of_nat (le_nat (le_bytes n (unat x))) = x"
  by (simp add: le_nat_le_bytes)

lemma unat_of_nat_le_nat:
  "(256::nat) ^ length bs = 2 ^ LENGTH('a) \<Longrightarrow> unat (of_nat (le_nat bs) :: 'a::len word) = le_nat bs"
  using le_nat_less [of bs] by (simp add: unat_of_nat)

text \<open>Reading a region that a ring was stored to gives the ring back, and storing it changes nothing.\<close>

lemma region_view_store:
  assumes "abi_ok a" "length bytes = size_of_RingBuffer ft a + length (buf v)"
    "\<not> feat_ecc ft \<Longrightarrow> rb_ecc_flush v = 0"
  shows "region_view ft a (length (buf v)) (region_store ft a v bytes) = v"
proof -
  note lay = layout_offsets [OF assms(1), of ft] layout_size [OF assms(1), of ft]
  have w: "unat (rb_header v) < 256 ^ 16" "unat (rb_read v) < 256 ^ 4" "unat (rb_write v) < 256 ^ 4"
    "unat (rb_ecc_flush v) < 256 ^ 8"
    using unsigned_less [of "rb_header v"] unsigned_less [of "rb_read v"]
      unsigned_less [of "rb_write v"] unsigned_less [of "rb_ecc_flush v"] by simp_all
  show ?thesis
    using lay assms(2,3)
    by (cases "feat_ecc ft")
      (simp_all add: region_view_def region_store_def load_at_store_at_other
        of_nat_le_nat_bytes [OF w(1)] of_nat_le_nat_bytes [OF w(2)] of_nat_le_nat_bytes [OF w(3)]
        of_nat_le_nat_bytes [OF w(4)])
qed

lemma le_bytes_load_at:
  assumes "off + n \<le> length bytes" "(256::nat) ^ n = 2 ^ LENGTH('a)"
  shows "le_bytes n (unat (of_nat (le_nat (load_at off n bytes)) :: 'a::len word)) = load_at off n bytes"
proof -
  have "length (load_at off n bytes) = n" using assms(1) by simp
  then show ?thesis
    using unat_of_nat_le_nat [of "load_at off n bytes", where 'a = 'a] assms(2)
      le_bytes_le_nat [of "load_at off n bytes"] by simp
qed

lemma region_store_view:
  assumes "abi_ok a" "length bytes = size_of_RingBuffer ft a + n"
  shows "region_store ft a (region_view ft a n bytes) bytes = bytes"
proof -
  note lay = layout_offsets [OF assms(1), of ft] layout_size [OF assms(1), of ft]
  show ?thesis
    using lay assms(2)
    by (cases "feat_ecc ft") (simp_all add: region_view_def region_store_def le_bytes_load_at)
qed

text \<open>So every byte region that is read as \<open>v\<close> is \<open>region_store\<close> of \<open>v\<close> over itself.\<close>

lemma region_image_unique:
  "abi_ok a \<Longrightarrow> length img = size_of_RingBuffer ft a + n \<Longrightarrow> region_view ft a n img = v \<Longrightarrow>
   img = region_store ft a v img"
  using region_store_view by metis

text \<open>A valid memory range: what \<open>init\<close> has checked before the call.\<close>

definition region_ok :: "features \<Rightarrow> abi \<Rightarrow> usize \<Rightarrow> usize \<Rightarrow> u8 list \<Rightarrow> bool" where
  "region_ok ft a start end bytes \<longleftrightarrow>
     abi_ok a \<and> end < usize_limit \<and> start < end \<and> length bytes = end - start \<and>
     size_of_RingBuffer ft a < end - start \<and>
     end - start - size_of_RingBuffer ft a < max_buf_len"

lemma recover_or_reinitialize_eq:
  assumes "region_ok ft a start end bytes"
  defines "n \<equiv> end - start - size_of_RingBuffer ft a"
  shows "recover_or_reinitialize ft a start end bytes = Inr (recover ft (region_view ft a n bytes))"
    "length (buf (region_view ft a n bytes)) = n" "0 < n" "n < max_buf_len"
proof -
  have "start + size_of_RingBuffer ft a < usize_limit"
    using assms(1) unfolding region_ok_def by linarith
  then show "recover_or_reinitialize ft a start end bytes = Inr (recover ft (region_view ft a n bytes))"
    using assms by (simp add: recover_or_reinitialize_def region_ok_def range_len_def checked)
  show "length (buf (region_view ft a n bytes)) = n" "0 < n" "n < max_buf_len"
    using assms by (auto simp: region_ok_def region_view_def)
qed

text \<open>A valid ring stored in the region is found again.\<close>

lemma recover_stored:
  assumes "ring_ok v" and "rb_header v = MAGIC ft" and "feat_ecc ft \<or> rb_ecc_flush v = 0"
    and "region_ok ft a start end bytes" and "length (buf v) = end - start - size_of_RingBuffer ft a"
  shows "region_ok ft a start end (region_store ft a v bytes)"
    and "recover_or_reinitialize ft a start end (region_store ft a v bytes) = Inr (flush_ecc ft v)"
proof -
  have len: "length bytes = size_of_RingBuffer ft a + length (buf v)" and a: "abi_ok a"
    using assms(4,5) by (auto simp: region_ok_def)
  note view = region_view_store [OF a len]
  have "length (region_store ft a v bytes) = length bytes"
    using layout_offsets [OF a, of ft] layout_size [OF a, of ft] len by (simp add: region_store_def)
  then show r: "region_ok ft a start end (region_store ft a v bytes)"
    using assms(4) by (simp add: region_ok_def)
  have "recover_or_reinitialize ft a start end (region_store ft a v bytes) = Inr (recover ft v)"
    using r recover_or_reinitialize_eq(1) view assms(3,5) by fastforce
  moreover have "recover ft v = flush_ecc ft v"
    using assms(1,2) by (simp add: recover_valid indices_ok_def ring_ok_def)
  ultimately show "recover_or_reinitialize ft a start end (region_store ft a v bytes) = Inr (flush_ecc ft v)"
    by simp
qed

subsection \<open>Properties\<close>

text \<open>
  C37: the field offsets exported for corruption testing are the same for every supported
  alignment of \<open>u128\<close> and \<open>u64\<close> and with and without the \<open>ecc\<close> field, so \<open>xtask\<close>, compiled
  for the host, corrupts the fields that the target reads; the index fields do not overlap
  each other, the header or the data.
\<close>

theorem offsets_portable:
  assumes "abi_ok a"
  shows "HEADER ft a = 0 \<and> READ ft a = 16 \<and> WRITE ft a = 20 \<and>
     HEADER ft a + 16 \<le> READ ft a \<and> READ ft a + INDEX_SIZE \<le> WRITE ft a \<and>
     WRITE ft a + INDEX_SIZE \<le> size_of_RingBuffer ft a"
  using layout_offsets [OF assms, of ft] layout_size [OF assms, of ft] by (simp add: INDEX_SIZE_def)

theorem offsets_portable_witness:
  "READ default_features thumb_abi = READ default_features host_abi"
proof -
  have "abi_ok thumb_abi" "abi_ok host_abi" by (simp_all add: abi_ok_def thumb_abi_def host_abi_def)
  then show ?thesis using offsets_portable by metis
qed

text \<open>
  C22: on every memory range that passes the checks of \<open>init\<close>, and whatever bytes it holds,
  \<open>recover_or_reinitialize\<close> does not overflow and returns a valid, initialised ring over all
  the bytes behind the header.
\<close>

theorem recover_or_reinitialize_total:
  assumes "region_ok ft a start end bytes"
  shows "\<exists>v. recover_or_reinitialize ft a start end bytes = Inr v \<and> ring_ok v \<and>
     rb_header v = MAGIC ft \<and> length (buf v) = end - start - size_of_RingBuffer ft a"
proof -
  let ?n = "end - start - size_of_RingBuffer ft a"
  note eq = recover_or_reinitialize_eq [OF assms]
  have "ring_ok (recover ft (region_view ft a ?n bytes))"
    using recover_ok [of "region_view ft a ?n bytes" ft] eq(3,4) unfolding eq(2) by blast
  then show ?thesis using eq(1,2) by simp
qed

theorem recover_or_reinitialize_total_witness:
  "\<exists>v. recover_or_reinitialize default_features thumb_abi 0x2000FC00 0x20010000 (replicate 1024 0) = Inr v \<and>
     ring_ok v \<and> length (buf v) = 992"
proof -
  have r: "region_ok default_features thumb_abi 0x2000FC00 0x20010000 (replicate 1024 0)"
    by (simp add: region_ok_def abi_ok_def layout_defs default_features_def thumb_abi_def usize_limit_def
        max_buf_len_def)
  have sz: "size_of_RingBuffer default_features thumb_abi = 32"
    by (simp add: layout_defs default_features_def thumb_abi_def)
  show ?thesis using recover_or_reinitialize_total [OF r] unfolding sz by auto
qed

text \<open>
  C16: the log survives a reset: the bytes that a valid, initialised ring occupies in the
  region, found again after a reset, recover to a ring with the same queued bytes.
\<close>

theorem log_survives_reset:
  assumes "ring_ok v" and "rb_header v = MAGIC ft" and "feat_ecc ft \<or> rb_ecc_flush v = 0"
    and "region_ok ft a start end bytes" and "length (buf v) = end - start - size_of_RingBuffer ft a"
  shows "\<exists>w. recover_or_reinitialize ft a start end (region_store ft a v bytes) = Inr w \<and>
     ring_ok w \<and> content w = content v"
  using recover_stored(2) [OF assms] assms(1) by simp

theorem log_survives_reset_witness:
  "\<exists>w. recover_or_reinitialize default_features thumb_abi 0x20000000 0x20000024
      (region_store default_features thumb_abi (RingBuffer_new default_features 3 1 [7, 0, 0, 6]) (replicate 36 0)) = Inr w \<and>
     content w = [6, 7]"
proof -
  let ?v = "RingBuffer_new default_features 3 1 [7, 0, 0, 6]"
  have ok: "ring_ok ?v" and c: "content ?v = [6, 7]" by (simp_all add: ring_eval)
  have r: "region_ok default_features thumb_abi 0x20000000 0x20000024 (replicate 36 0)"
    and l: "length (buf ?v) = 0x20000024 - 0x20000000 - size_of_RingBuffer default_features thumb_abi"
    and e: "feat_ecc default_features \<or> rb_ecc_flush ?v = 0"
    by (simp_all add: region_ok_def abi_ok_def layout_defs default_features_def thumb_abi_def usize_limit_def
        max_buf_len_def)
  show ?thesis
    using log_survives_reset [OF ok RingBuffer_new_fields(4) e r l] unfolding c by blast
qed

end
