(* ===== verification/Init.thy ===== *)
theory Init
  imports Logger Region
begin

text \<open>
  The entry point \<open>init\<close> of \<open>src/lib.rs\<close>: the one-time guard, the checks of the memory range that
  the linker script provides, recovery, the hand-over of the producer to the logger and the
  measuring of the recovered logs.
\<close>

subsection \<open>Data and code\<close>

datatype InitError = AlreadyInitialized | BadAlignment | TooSmall | TooLarge

text \<open>Errors are ordered by the order of the checks.\<close>

primrec check_number :: "InitError \<Rightarrow> nat" where
  "check_number AlreadyInitialized = 0"
| "check_number BadAlignment = 1"
| "check_number TooSmall = 2"
| "check_number TooLarge = 3"

lemma check_number_inject [simp]: "check_number e = check_number f \<longleftrightarrow> e = f"
  by (cases e; cases f) simp_all

instantiation InitError :: linorder
begin

definition less_eq_InitError :: "InitError \<Rightarrow> InitError \<Rightarrow> bool" where
  "e \<le> f \<longleftrightarrow> check_number e \<le> check_number f"

definition less_InitError :: "InitError \<Rightarrow> InitError \<Rightarrow> bool" where
  "e < f \<longleftrightarrow> check_number e < check_number f"

instance
  by standard (auto simp: less_eq_InitError_def less_InitError_def)

end

record ConsumerAndMetadata =
  consumer_ring :: ring      \<comment> \<open>what the consumer handle refers to, at the time of the return\<close>
  recovered_logs_len :: usize

text \<open>The static \<open>INITIALIZED\<close> of \<open>init\<close>, and the statics of the logger.\<close>

record ('e, 'r, 'h, 'w) device =
  INITIALIZED :: bool
  LOGGER_STATE :: "('e, 'r, 'h, 'w) logger"

text \<open>
  \<open>start\<close> and \<open>end\<close> are the addresses of the two linker symbols, \<open>bytes\<close> is what the memory
  between them holds. Interrupts that log may fire at any time; they see the ring once
  \<open>LOGGER_STATE\<close> is initialised, and \<open>irq\<close> is what they do before the consumer's first \<open>read\<close>.
\<close>

definition init_with ::
    "(('e, 'r, 'h, 'w) logger \<Rightarrow> ('e, 'r, 'h, 'w) logger res option) \<Rightarrow>
     features \<Rightarrow> abi \<Rightarrow> usize \<Rightarrow> usize \<Rightarrow> u8 list \<Rightarrow> ('e, 'r, 'h, 'w) device \<Rightarrow>
     ((InitError + ConsumerAndMetadata) \<times> ('e, 'r, 'h, 'w) device) res option" where
  "init_with irq ft a start end bytes d =
     (let already = INITIALIZED d; d1 = d\<lparr>INITIALIZED := True\<rparr> in
      if already then Some (Inr (Inl AlreadyInitialized, d1))
      else if start mod align_of_RingBuffer ft a \<noteq> 0 then Some (Inr (Inl BadAlignment, d1))
      else if range_len start end \<le> size_of_RingBuffer ft a then Some (Inr (Inl TooSmall, d1))
      else
        run_bind (Some (usub (range_len start end) (size_of_RingBuffer ft a))) (\<lambda>buf_len.
        if buf_len \<ge> max_buf_len then Some (Inr (Inl TooLarge, d1))
        else
          run_bind (Some (recover_or_reinitialize ft a start end bytes)) (\<lambda>v.
          let l1 = LoggerState_initialize ((LOGGER_STATE d1)\<lparr>persist := v\<rparr>) in
          run_bind (irq l1) (\<lambda>l2.
          run_bind (Some (Consumer_read (persist l2))) (\<lambda>grant.
          let (buf1, buf2) = GrantR_bufs grant in
          run_bind (Some (uadd (length buf1) (length buf2))) (\<lambda>n.
            Some (Inr (Inr \<lparr>consumer_ring = persist l2, recovered_logs_len = n\<rparr>,
                       d1\<lparr>LOGGER_STATE := l2\<rparr>))))))))"

definition init ::
    "features \<Rightarrow> abi \<Rightarrow> usize \<Rightarrow> usize \<Rightarrow> u8 list \<Rightarrow> ('e, 'r, 'h, 'w) device \<Rightarrow>
     ((InitError + ConsumerAndMetadata) \<times> ('e, 'r, 'h, 'w) device) res option" where
  "init = init_with (\<lambda>l. Some (Inr l))"

subsection \<open>The checks\<close>

text \<open>The first of the four errors that applies, in the order of the code.\<close>

definition init_error :: "features \<Rightarrow> abi \<Rightarrow> usize \<Rightarrow> usize \<Rightarrow> bool \<Rightarrow> InitError option" where
  "init_error ft a start end already =
     (if already then Some AlreadyInitialized
      else if \<not> align_of_RingBuffer ft a dvd start then Some BadAlignment
      else if end \<le> start + size_of_RingBuffer ft a then Some TooSmall
      else if start + size_of_RingBuffer ft a + max_buf_len \<le> end then Some TooLarge
      else None)"

text \<open>When each of the errors applies, on its own.\<close>

definition error_applies :: "features \<Rightarrow> abi \<Rightarrow> usize \<Rightarrow> usize \<Rightarrow> bool \<Rightarrow> InitError \<Rightarrow> bool" where
  "error_applies ft a start end already e =
     (case e of
        AlreadyInitialized \<Rightarrow> already
      | BadAlignment \<Rightarrow> \<not> align_of_RingBuffer ft a dvd start
      | TooSmall \<Rightarrow> end \<le> start + size_of_RingBuffer ft a
      | TooLarge \<Rightarrow> start + size_of_RingBuffer ft a + max_buf_len \<le> end)"

lemma init_error_first:
  "init_error ft a start end already = Some e \<longleftrightarrow>
     error_applies ft a start end already e \<and> (\<forall>f<e. \<not> error_applies ft a start end already f)"
proof -
  have all: "(\<forall>f. P f) \<longleftrightarrow> P AlreadyInitialized \<and> P BadAlignment \<and> P TooSmall \<and> P TooLarge" for P
    by (metis InitError.exhaust)
  show ?thesis
    by (cases e) (auto simp: all init_error_def error_applies_def less_InitError_def)
qed

definition measured :: "ring \<Rightarrow> ConsumerAndMetadata" where
  "measured v = \<lparr>consumer_ring = v, recovered_logs_len = length (content v)\<rparr>"

lemma measure_eq:
  assumes ok: "ring_ok v"
  shows "\<exists>g. Consumer_read v = Inr g \<and> uadd (length (fst (GrantR_bufs g))) (length (snd (GrantR_bufs g)))
    = Inr (length (content v))"
proof -
  obtain g where g: "Consumer_read v = Inr g" "slice1 g @ slice2 g = content v"
    by (rule Consumer_read_grant [OF ok]) blast
  have l: "length (slice1 g) + length (slice2 g) = length (content v)"
    using arg_cong [OF g(2), of length] by simp
  have "length (content v) < usize_limit" using length_content_less [OF ok] ring_ok_limit [OF ok] by linarith
  then show ?thesis using g(1) l by (simp add: GrantR_bufs_def checked)
qed

lemma init_with_error:
  "init_error ft a start end (INITIALIZED d) = Some e \<Longrightarrow>
   init_with irq ft a start end bytes d = Some (Inr (Inl e, d\<lparr>INITIALIZED := True\<rparr>))"
  by (auto simp: init_error_def init_with_def Let_def range_len_def checked dvd_eq_mod_eq_0 split: if_splits)

lemma init_with_success:
  assumes "init_error ft a start end (INITIALIZED d) = None" "region_ok ft a start end bytes"
    and "recover_or_reinitialize ft a start end bytes = Inr v"
    and irq: "irq (LoggerState_initialize ((LOGGER_STATE d)\<lparr>persist := v\<rparr>)) = Some (Inr l2)" "ring_ok (persist l2)"
  shows "init_with irq ft a start end bytes d =
     Some (Inr (Inr (measured (persist l2)), d\<lparr>INITIALIZED := True, LOGGER_STATE := l2\<rparr>))"
proof -
  obtain g where g: "Consumer_read (persist l2) = Inr g"
    "uadd (length (fst (GrantR_bufs g))) (length (snd (GrantR_bufs g))) = Inr (length (content (persist l2)))"
    using measure_eq [OF irq(2)] by blast
  obtain b1 b2 where b: "GrantR_bufs g = (b1, b2)" by fastforce
  have c: "\<not> INITIALIZED d" "start mod align_of_RingBuffer ft a = 0" "start < end"
    "\<not> end - start \<le> size_of_RingBuffer ft a" "\<not> max_buf_len \<le> end - start - size_of_RingBuffer ft a"
    using assms(1,2) by (auto simp: init_error_def region_ok_def dvd_eq_mod_eq_0 split: if_splits)
  show ?thesis
    using c g b assms(3) irq(1) by (simp add: init_with_def Let_def range_len_def checked measured_def del: diff_diff_left)
qed

lemma LoggerState_initialize_fields [simp]:
  "persist (LoggerState_initialize l) = persist l" "rtt_channel (LoggerState_initialize l) = rtt_channel l"
  "initialized (LoggerState_initialize l)" "producer_written (LoggerState_initialize l)"
  "depth (LoggerState_initialize l) = depth l" "encoder (LoggerState_initialize l) = encoder l"
  by (simp_all add: LoggerState_initialize_def)

text \<open>When the checks pass, recovery is defined, and the logger ends up in a valid state.\<close>

lemma init_region:
  assumes "init_error ft a start end (INITIALIZED d) = None"
    and "abi_ok a" "end < usize_limit" "length bytes = end - start"
  shows "region_ok ft a start end bytes"
  using assms by (auto simp: init_error_def region_ok_def split: if_splits)

definition init_view :: "features \<Rightarrow> abi \<Rightarrow> usize \<Rightarrow> usize \<Rightarrow> u8 list \<Rightarrow> ring" where
  "init_view ft a start end bytes = region_view ft a (end - start - size_of_RingBuffer ft a) bytes"

lemma init_recovers:
  assumes "region_ok ft a start end bytes"
  shows "recover_or_reinitialize ft a start end bytes = Inr (recover ft (init_view ft a start end bytes))"
    and "ring_ok (recover ft (init_view ft a start end bytes))"
  using recover_or_reinitialize_eq [OF assms] recover_ok [of "init_view ft a start end bytes" ft]
  by (simp_all add: init_view_def)

lemma init_run:
  assumes "init_error ft a start end (INITIALIZED d) = None" "region_ok ft a start end bytes"
  defines "v \<equiv> recover ft (init_view ft a start end bytes)"
  shows "init ft a start end bytes d = Some (Inr (Inr (measured v),
     d\<lparr>INITIALIZED := True, LOGGER_STATE := LoggerState_initialize ((LOGGER_STATE d)\<lparr>persist := v\<rparr>)\<rparr>))"
  unfolding init_def v_def
  by (subst init_with_success [OF assms(1,2) init_recovers(1) [OF assms(2)] refl])
    (simp_all add: init_recovers(2) [OF assms(2)])

subsection \<open>Properties\<close>

text \<open>
  C27: \<open>init\<close> reports the first error that applies, in the order already initialised, misaligned,
  too small, too large, for any two addresses; it then touches nothing but its guard flag.
\<close>

theorem init_rejects:
  assumes "error_applies ft a start end (INITIALIZED d) e"
    and "\<forall>f<e. \<not> error_applies ft a start end (INITIALIZED d) f"
  shows "init ft a start end bytes d = Some (Inr (Inl e, d\<lparr>INITIALIZED := True\<rparr>))"
  unfolding init_def by (rule init_with_error) (use init_error_first assms in blast)

definition cold_device :: "(unit, bool, unit, bool) device" where
  "cold_device = \<lparr>INITIALIZED = False, LOGGER_STATE = booted\<lparr>producer_written := False, initialized := False\<rparr>\<rparr>"

theorem init_rejects_witness:
  "init default_features thumb_abi 0x20000000 0x20000020 (replicate 32 0) cold_device
     = Some (Inr (Inl TooSmall, cold_device\<lparr>INITIALIZED := True\<rparr>))"
proof -
  have "init_error default_features thumb_abi 0x20000000 0x20000020 (INITIALIZED cold_device) = Some TooSmall"
    by (simp add: init_error_def cold_device_def layout_defs default_features_def thumb_abi_def)
  then show ?thesis unfolding init_error_first by (elim conjE) (rule init_rejects)
qed

text \<open>
  C15: otherwise \<open>init\<close> succeeds, whatever bytes the memory holds: the logger writes to, and the
  consumer reads from, a valid ring over the range; \<open>recovered_logs_len\<close> is the number of its
  queued bytes, which are those found in the memory if the header and the indices are valid
  and none otherwise; and any later call is rejected without effect.
\<close>

theorem init_accepts:
  assumes "init_error ft a start end (INITIALIZED d) = None"
    and "abi_ok a" and "end < usize_limit" and "length bytes = end - start"
    and "channel_ok (rtt_channel (LOGGER_STATE d))"
  shows "\<exists>c d'. init ft a start end bytes d = Some (Inr (Inr c, d')) \<and>
     logger_ok (LOGGER_STATE d') \<and> initialized (LOGGER_STATE d') \<and>
     consumer_ring c = persist (LOGGER_STATE d') \<and> rb_header (consumer_ring c) = MAGIC ft \<and>
     recovered_logs_len c = length (content (consumer_ring c)) \<and>
     content (consumer_ring c) =
       (let v = init_view ft a start end bytes in if rb_header v = MAGIC ft \<and> indices_ok v then content v else []) \<and>
     (\<forall>st en mem. init ft a st en mem d' = Some (Inr (Inl AlreadyInitialized, d')))"
proof -
  have r: "region_ok ft a start end bytes" by (rule init_region [OF assms(1-4)])
  let ?v = "init_view ft a start end bytes"
  let ?d = "d\<lparr>INITIALIZED := True, LOGGER_STATE := LoggerState_initialize ((LOGGER_STATE d)\<lparr>persist := recover ft ?v\<rparr>)\<rparr>"
  have "0 < length (buf ?v)" using recover_or_reinitialize_eq(2,3) [OF r] by (simp add: init_view_def)
  then have c: "content (recover ft ?v) = (if rb_header ?v = MAGIC ft \<and> indices_ok ?v then content ?v else [])"
    by (rule recover_content)
  have again: "init ft a st en mem ?d = Some (Inr (Inl AlreadyInitialized, ?d))" for st en mem
  proof -
    have "init_error ft a st en (INITIALIZED ?d) = Some AlreadyInitialized" by (simp add: init_error_def)
    then show ?thesis using init_with_error [of ft a st en ?d] by (simp add: init_def)
  qed
  show ?thesis
  proof (intro exI conjI allI)
    show "init ft a start end bytes d = Some (Inr (Inr (measured (recover ft ?v)), ?d))"
      by (rule init_run [OF assms(1) r])
    show "init ft a st en mem ?d = Some (Inr (Inl AlreadyInitialized, ?d))" for st en mem by (rule again)
    show "content (consumer_ring (measured (recover ft ?v))) =
       (let v = ?v in if rb_header v = MAGIC ft \<and> indices_ok v then content v else [])"
      by (simp add: measured_def c Let_def)
  qed (use init_recovers(2) [OF r] assms(5) in \<open>simp_all add: measured_def logger_ok_def\<close>)
qed

theorem init_accepts_witness:
  "\<exists>c d'. init default_features thumb_abi 0x20000000 0x20000024 (replicate 36 0) cold_device = Some (Inr (Inr c, d')) \<and>
     initialized (LOGGER_STATE d')"
proof -
  have e: "init_error default_features thumb_abi 0x20000000 0x20000024 (INITIALIZED cold_device) = None"
    by (simp add: init_error_def cold_device_def layout_defs default_features_def thumb_abi_def max_buf_len_def)
  have a: "abi_ok thumb_abi" "(0x20000024::nat) < usize_limit" "length (replicate 36 (0::u8)) = 0x20000024 - 0x20000000"
    by (simp_all add: abi_ok_def thumb_abi_def usize_limit_def)
  have ch: "channel_ok (rtt_channel (LOGGER_STATE cold_device))"
    using booted_ok(1) by (simp add: cold_device_def logger_ok_def)
  from init_accepts [OF e a ch] show ?thesis by blast
qed

text \<open>
  C39: \<open>recovered_logs_len\<close> is measured after the logger has been handed the producer: the bytes
  of a log call made by an interrupt in between are counted as well, although the field is
  documented as the number of bytes that were not from the current run.
\<close>

theorem recovered_logs_len_counts_early_logs:
  fixes d :: "('e, 'r, 'h, 'w) device"
  assumes "init_error ft a start end (INITIALIZED d) = None" and "region_ok ft a start end bytes"
    and "body cs ws" and "length cs + 2 < usize_limit" and "depth (LOGGER_STATE d) = 0"
    and "channel_ok (rtt_channel (LOGGER_STATE d))" and "rtt_live ft pf (LOGGER_STATE d)"
  defines "v \<equiv> recover ft (init_view ft a start end bytes)"
  shows "\<exists>c d'. init_with (log_run ft pf (Acquire # cs @ [Release])) ft a start end bytes d = Some (Inr (Inr c, d')) \<and>
     recovered_logs_len c = length (content v)
       + min (space v) (length (concat (fst (encode_frame pf ws (encoder (LOGGER_STATE d))))))"
proof -
  let ?l = "LoggerState_initialize ((LOGGER_STATE d)\<lparr>persist := v\<rparr>)"
  note rec = init_recovers [OF assms(2), folded v_def]
  have "logger_ok ?l" using rec(2) assms(6) by (simp add: logger_ok_def)
  moreover have "rtt_live ft pf ?l" using assms(7) by (simp add: rtt_live_def)
  ultimately obtain l2 where l2: "log_run ft pf (Acquire # cs @ [Release]) ?l = Some (Inr l2)" "logger_ok l2"
    "frame_done ft pf (fst (encode_frame pf ws (encoder ?l))) ?l l2"
    using frame_runs [OF assms(3,4), of ?l ft pf] assms(5) by auto
  have "ring_output ft (fst (encode_frame pf ws (encoder (LOGGER_STATE d)))) ?l l2"
    using l2(3) by (simp add: frame_done_def)
  from ring_output_content(1) [OF \<open>logger_ok ?l\<close> _ this]
  have "content (persist l2) = content v @ take (space v) (concat (fst (encode_frame pf ws (encoder (LOGGER_STATE d)))))"
    by simp
  then have len: "length (content (persist l2)) = length (content v)
       + min (space v) (length (concat (fst (encode_frame pf ws (encoder (LOGGER_STATE d))))))"
    by (simp only: length_append length_take min.commute)
  have "ring_ok (persist l2)" using l2(2) by (simp add: logger_ok_def)
  from init_with_success [where irq = "log_run ft pf (Acquire # cs @ [Release])", OF assms(1,2) rec(1) l2(1) this]
  show ?thesis using len by (simp add: measured_def)
qed

theorem recovered_logs_len_counts_early_logs_witness:
  "\<exists>c d'. init_with (log_run default_features bare_platform (Acquire # [Write [5]] @ [Release]))
      default_features thumb_abi 0x20000000 0x20000024 (replicate 36 0) cold_device = Some (Inr (Inr c, d')) \<and>
     recovered_logs_len c = 2"
proof -
  have e: "init_error default_features thumb_abi 0x20000000 0x20000024 (INITIALIZED cold_device) = None"
    by (simp add: init_error_def cold_device_def layout_defs default_features_def thumb_abi_def max_buf_len_def)
  have a: "abi_ok thumb_abi" "(0x20000024::nat) < usize_limit" "length (replicate 36 (0::u8)) = 0x20000024 - 0x20000000"
    by (simp_all add: abi_ok_def thumb_abi_def usize_limit_def)
  have r: "region_ok default_features thumb_abi 0x20000000 0x20000024 (replicate 36 0)" by (rule init_region [OF e a])
  have b: "body [Write [5]] [[5]]" by (intro body.intros)
  have n: "length [Write [5]] + 2 < usize_limit" by (simp add: usize_limit_def)
  have d: "depth (LOGGER_STATE cold_device) = 0" "encoder (LOGGER_STATE cold_device) = ()"
    by (simp_all add: cold_device_def booted_ok)
  have ch: "channel_ok (rtt_channel (LOGGER_STATE cold_device))" "rtt_live default_features bare_platform (LOGGER_STATE cold_device)"
    using booted_ok(1,2) by (simp_all add: cold_device_def logger_ok_def rtt_live_def)
  have f: "encode_frame bare_platform [[5]] () = ([[5], [0]], ())" by (simp add: encode_frame_def bare_platform_def)
  let ?u = "init_view default_features thumb_abi 0x20000000 0x20000024 (replicate 36 0)"
  let ?v = "recover default_features ?u"
  have u: "length (buf ?u) = 4"
    using recover_or_reinitialize_eq(2) [OF r] by (simp add: init_view_def layout_defs default_features_def thumb_abi_def)
  have "le_nat (replicate k 0) = 0" for k by (induction k) simp_all
  then have "rb_header ?u \<noteq> MAGIC default_features"
    by (simp add: init_view_def region_view_def load_at_def layout_defs default_features_def thumb_abi_def MAGIC_def)
  then have c: "content ?v = []" using recover_content [of ?u default_features] u by simp
  moreover have "space ?v = 3" using c u by (simp add: space_def)
  ultimately show ?thesis
    using recovered_logs_len_counts_early_logs [OF e r b n d(1) ch] unfolding d(2) f by (simp add: numeral_2_eq_2)
qed

end
