(* ===== verification/Testsuite.thy ===== *)
theory Testsuite
  imports Region
begin

text \<open>
  The library of the test firmware: the UART driver (\<open>testsuite/src/uart.rs\<close>), the drain loop,
  the region dump and the executor (\<open>testsuite/src/lib.rs\<close>). The UART hardware is a parameter:
  the value that each volatile read of a register returns. Volatile writes are recorded in
  order. Every busy-wait and every loop that need not end returns an option.
\<close>

unbundle bit_operations_syntax

subsection \<open>UART driver\<close>

definition UART0_BASE :: usize where
  "UART0_BASE = 0x4000C000"

definition UART1_BASE :: usize where
  "UART1_BASE = 0x4000D000"

definition UART_DR_OFFSET :: usize where
  "UART_DR_OFFSET = 0x000"

definition UART_FR_OFFSET :: usize where
  "UART_FR_OFFSET = 0x018"

definition UART_FR_TXFF :: u32 where
  "UART_FR_TXFF = 0x20"

text \<open>The value of a register at the \<open>t\<close>-th volatile read of the run.\<close>

type_synonym registers = "usize \<Rightarrow> nat \<Rightarrow> u32"

record mmio =
  reads :: nat
  writes :: "(usize \<times> u32) list"

partial_function (option) wait_tx :: "registers \<Rightarrow> usize \<Rightarrow> mmio \<Rightarrow> mmio option" where
  "wait_tx regs fr m =
     (let v = regs fr (reads m); m1 = m\<lparr>reads := reads m + 1\<rparr> in
      if v AND UART_FR_TXFF \<noteq> 0 then wait_tx regs fr m1 else Some m1)"

definition uart_write_byte :: "registers \<Rightarrow> usize \<Rightarrow> u8 \<Rightarrow> mmio \<Rightarrow> mmio option" where
  "uart_write_byte regs base byte m =
     (let dr = base + UART_DR_OFFSET; fr = base + UART_FR_OFFSET in
      case wait_tx regs fr m of
        None \<Rightarrow> None
      | Some m1 \<Rightarrow> Some (m1\<lparr>writes := writes m1 @ [(dr, ucast byte)]\<rparr>))"

fun uart_write_bytes :: "registers \<Rightarrow> usize \<Rightarrow> u8 list \<Rightarrow> mmio \<Rightarrow> mmio option" where
  "uart_write_bytes regs base [] m = Some m"
| "uart_write_bytes regs base (b # bs) m =
     (case uart_write_byte regs base b m of None \<Rightarrow> None | Some m1 \<Rightarrow> uart_write_bytes regs base bs m1)"

definition write_bytes :: "registers \<Rightarrow> u8 list \<Rightarrow> mmio \<Rightarrow> mmio option" where
  "write_bytes regs bytes m = uart_write_bytes regs UART0_BASE bytes m"

definition write_bytes_uart1 :: "registers \<Rightarrow> u8 list \<Rightarrow> mmio \<Rightarrow> mmio option" where
  "write_bytes_uart1 regs bytes m = uart_write_bytes regs UART1_BASE bytes m"

text \<open>The bytes that went out through the UART at \<open>base\<close>.\<close>

definition sent :: "usize \<Rightarrow> mmio \<Rightarrow> u8 list" where
  "sent base m = map (\<lambda>(a, v). ucast v) (filter (\<lambda>(a, v). a = base + UART_DR_OFFSET) (writes m))"

text \<open>The transmitter makes progress: the full flag is clear again and again.\<close>

definition uart_live :: "registers \<Rightarrow> usize \<Rightarrow> bool" where
  "uart_live regs base \<longleftrightarrow> (\<forall>t. \<exists>k. regs (base + UART_FR_OFFSET) (t + k) AND UART_FR_TXFF = 0)"

lemma wait_tx_returns:
  assumes "regs fr (reads m + k) AND UART_FR_TXFF = 0"
  shows "\<exists>n. wait_tx regs fr m = Some (m\<lparr>reads := n\<rparr>)"
  using assms
proof (induction k arbitrary: m)
  case 0
  then show ?case by (subst wait_tx.simps) (auto simp: Let_def)
next
  case (Suc k)
  have "\<exists>n. wait_tx regs fr (m\<lparr>reads := reads m + 1\<rparr>) = Some (m\<lparr>reads := reads m + 1\<rparr>\<lparr>reads := n\<rparr>)"
    using Suc.IH [of "m\<lparr>reads := reads m + 1\<rparr>"] Suc.prems by simp
  then show ?case by (subst wait_tx.simps) (auto simp: Let_def)
qed

lemma uart_write_byte_returns:
  assumes "uart_live regs base"
  shows "\<exists>n. uart_write_byte regs base b m =
    Some (m\<lparr>reads := n, writes := writes m @ [(base + UART_DR_OFFSET, ucast b)]\<rparr>)"
proof -
  obtain k where "regs (base + UART_FR_OFFSET) (reads m + k) AND UART_FR_TXFF = 0"
    using assms unfolding uart_live_def by blast
  then have "\<exists>n. wait_tx regs (base + UART_FR_OFFSET) m = Some (m\<lparr>reads := n\<rparr>)" by (rule wait_tx_returns)
  then show ?thesis by (auto simp: uart_write_byte_def)
qed

lemma uart_write_bytes_returns:
  assumes live: "uart_live regs base"
  shows "\<exists>n. uart_write_bytes regs base bs m =
    Some (m\<lparr>reads := n, writes := writes m @ map (\<lambda>b. (base + UART_DR_OFFSET, ucast b)) bs\<rparr>)"
proof (induction bs arbitrary: m)
  case Nil
  show ?case by (rule exI [of _ "reads m"]) simp
next
  case (Cons b bs)
  obtain n where n: "uart_write_byte regs base b m =
      Some (m\<lparr>reads := n, writes := writes m @ [(base + UART_DR_OFFSET, ucast b)]\<rparr>)"
    using uart_write_byte_returns [OF live] by blast
  show ?case using Cons.IH [of "m\<lparr>reads := n, writes := writes m @ [(base + UART_DR_OFFSET, ucast b)]\<rparr>"]
    by (auto simp: n)
qed

lemma ucast_u8_u32 [simp]: "ucast (ucast b :: u32) = b" for b :: u8
  by (rule bit_word_eqI) (auto simp: bit_ucast_iff dest: bit_imp_le_length)

lemma sent_write:
  "sent base (m\<lparr>reads := n, writes := writes m @ map (\<lambda>b. (base + UART_DR_OFFSET, ucast b)) bs\<rparr>) = sent base m @ bs"
  by (simp add: sent_def comp_def)

lemma sent_write_other:
  "base' \<noteq> base \<Longrightarrow>
   sent base' (m\<lparr>reads := n, writes := writes m @ map (\<lambda>b. (base + UART_DR_OFFSET, ucast b)) bs\<rparr>) = sent base' m"
  by (simp add: sent_def comp_def)

subsection \<open>Draining the ring\<close>

partial_function (option) drain_to_uart ::
    "features \<Rightarrow> registers \<Rightarrow> ring \<Rightarrow> mmio \<Rightarrow> (ring \<times> mmio) res option" where
  "drain_to_uart ft regs v m =
     (if Consumer_is_empty v then Some (Inr (v, m))
      else
        case Consumer_read v of
          Inl e \<Rightarrow> Some (Inl e)
        | Inr data \<Rightarrow>
            (case write_bytes regs (fst (GrantR_bufs data)) m of
               None \<Rightarrow> None
             | Some m1 \<Rightarrow>
                 (case write_bytes regs (snd (GrantR_bufs data)) m1 of
                    None \<Rightarrow> None
                  | Some m2 \<Rightarrow>
                      (case GrantR_release_all ft data v of
                         Inl e \<Rightarrow> Some (Inl e)
                       | Inr v1 \<Rightarrow> drain_to_uart ft regs v1 m2))))"

text \<open>The region is \<open>len\<close> bytes long; the slice covers all of it.\<close>

definition dump_persist_region :: "registers \<Rightarrow> usize \<Rightarrow> usize \<Rightarrow> u8 list \<Rightarrow> mmio \<Rightarrow> mmio res option" where
  "dump_persist_region regs start end bytes m =
     (case usub end start of
        Inl e \<Rightarrow> Some (Inl e)
      | Inr len \<Rightarrow>
          (case slice_from_raw_parts bytes 0 len of
             Inl e \<Rightarrow> Some (Inl e)
           | Inr persist_data \<Rightarrow>
               (case write_bytes_uart1 regs persist_data m of None \<Rightarrow> None | Some m1 \<Rightarrow> Some (Inr m1))))"

lemma drain_empty: "Consumer_is_empty v \<Longrightarrow> drain_to_uart ft regs v m = Some (Inr (v, m))"
  by (subst drain_to_uart.simps) simp

text \<open>One round of the loop sends everything and empties the ring.\<close>

lemma drain_round:
  assumes ok: "ring_ok v" and ne: "content v \<noteq> []" and live: "uart_live regs UART0_BASE"
  shows "\<exists>n. drain_to_uart ft regs v m =
    Some (Inr (released ft (length (content v)) v,
      m\<lparr>reads := n, writes := writes m @ map (\<lambda>b. (UART0_BASE + UART_DR_OFFSET, ucast b)) (content v)\<rparr>))"
proof -
  obtain g where g: "Consumer_read v = Inr g" "grant_for g v" "slice1 g @ slice2 g = content v"
    by (rule Consumer_read_grant [OF ok])
  have total: "length (slice1 g) + length (slice2 g) = length (content v)"
    using arg_cong [OF g(3), of length] by simp
  have "length (content v) \<le> usize_max"
    using length_content_less [OF ok] ring_ok_limit [OF ok] by (simp add: usize_max_def)
  then have rel: "GrantR_release_all ft g v = Inr (released ft (length (content v)) v)"
    using GrantR_release_eq [OF ok g(2), of ft usize_max] total by (simp add: GrantR_release_all_def)
  have "Consumer_is_empty (released ft (length (content v)) v)"
    using Consumer_is_empty_iff released_props [OF ok, of "length (content v)" ft] by simp
  note stop = drain_empty [OF this, of ft regs]
  obtain n1 where n1: "write_bytes regs (slice1 g) m =
      Some (m\<lparr>reads := n1, writes := writes m @ map (\<lambda>b. (UART0_BASE + UART_DR_OFFSET, ucast b)) (slice1 g)\<rparr>)"
    using uart_write_bytes_returns [OF live] unfolding write_bytes_def by blast
  let ?m1 = "m\<lparr>reads := n1, writes := writes m @ map (\<lambda>b. (UART0_BASE + UART_DR_OFFSET, ucast b)) (slice1 g)\<rparr>"
  obtain n2 where n2: "write_bytes regs (slice2 g) ?m1 =
      Some (?m1\<lparr>reads := n2, writes := writes ?m1 @ map (\<lambda>b. (UART0_BASE + UART_DR_OFFSET, ucast b)) (slice2 g)\<rparr>)"
    using uart_write_bytes_returns [OF live, of "slice2 g" ?m1] unfolding write_bytes_def by blast
  have "\<not> Consumer_is_empty v" using Consumer_is_empty_iff [OF ok] ne by simp
  then have "drain_to_uart ft regs v m = Some (Inr (released ft (length (content v)) v,
      m\<lparr>reads := n2, writes := writes m @ map (\<lambda>b. (UART0_BASE + UART_DR_OFFSET, ucast b)) (slice1 g @ slice2 g)\<rparr>))"
    using n2 by (subst drain_to_uart.simps) (simp add: g(1) GrantR_bufs_def n1 rel stop)
  then show ?thesis unfolding g(3) by blast
qed

subsection \<open>Futures and the executor\<close>

text \<open>
  A future has a state of its own and is polled on it and on the state \<open>'g\<close> that all tasks
  share. The context it is polled with carries a waker that does nothing.
\<close>

datatype 'a poll = Poll_Ready 'a | Poll_Pending

type_synonym ('g, 's, 'a) future = "'g \<Rightarrow> 's \<Rightarrow> 'a poll \<times> 'g \<times> 's"

text \<open>The state of \<open>yield_once\<close> is the captured flag \<open>yielded\<close>.\<close>

definition yield_once :: "('g, bool, unit) future" where
  "yield_once g yielded = (if yielded then (Poll_Ready (), g, yielded) else (Poll_Pending, g, True))"

partial_function (option) block_on :: "('g, 's, 'a) future \<Rightarrow> 'g \<Rightarrow> 's \<Rightarrow> ('a \<times> 'g) option" where
  "block_on fut g s =
     (case fut g s of
        (p, g1, s1) \<Rightarrow> (case p of Poll_Ready val \<Rightarrow> Some (val, g1) | Poll_Pending \<Rightarrow> block_on fut g1 s1))"

record ('s, 't, 'a, 'b) joined =
  fut_a :: 's
  fut_b :: 't
  a_done :: "'a option"
  b_done :: "'b option"

definition join_new :: "'s \<Rightarrow> 't \<Rightarrow> ('s, 't, 'a, 'b) joined" where
  "join_new a b = \<lparr>fut_a = a, fut_b = b, a_done = None, b_done = None\<rparr>"

definition join_poll ::
    "('g, 's, 'a) future \<Rightarrow> ('g, 't, 'b) future \<Rightarrow> ('g, ('s, 't, 'a, 'b) joined, 'a \<times> 'b) future" where
  "join_poll a b g j =
     (let (g1, j1) =
            (if a_done j = None then
               case a g (fut_a j) of
                 (Poll_Ready val, g', s) \<Rightarrow> (g', j\<lparr>fut_a := s, a_done := Some val\<rparr>)
               | (Poll_Pending, g', s) \<Rightarrow> (g', j\<lparr>fut_a := s\<rparr>)
             else (g, j));
          (g2, j2) =
            (if b_done j1 = None then
               case b g1 (fut_b j1) of
                 (Poll_Ready val, g', s) \<Rightarrow> (g', j1\<lparr>fut_b := s, b_done := Some val\<rparr>)
               | (Poll_Pending, g', s) \<Rightarrow> (g', j1\<lparr>fut_b := s\<rparr>)
             else (g1, j1))
      in case (a_done j2, b_done j2) of
           (Some x, Some y) \<Rightarrow> (Poll_Ready (x, y), g2, j2\<lparr>a_done := None, b_done := None\<rparr>)
         | _ \<Rightarrow> (Poll_Pending, g2, j2))"

text \<open>The result after at most \<open>n\<close> polls.\<close>

fun run_polls :: "nat \<Rightarrow> ('g, 's, 'a) future \<Rightarrow> 'g \<Rightarrow> 's \<Rightarrow> ('a \<times> 'g) option" where
  "run_polls 0 fut g s = None"
| "run_polls (Suc n) fut g s =
     (case fut g s of
        (Poll_Ready val, g1, s1) \<Rightarrow> Some (val, g1)
      | (Poll_Pending, g1, s1) \<Rightarrow> run_polls n fut g1 s1)"

lemma run_polls_block_on: "run_polls n fut g s = Some r \<Longrightarrow> block_on fut g s = Some r"
proof (induction n arbitrary: g s)
  case (Suc n)
  then show ?case by (subst block_on.simps) (auto split: prod.splits poll.splits)
qed simp

lemma block_on_run_polls: "block_on fut g s = Some r \<Longrightarrow> \<exists>n. run_polls n fut g s = Some r"
proof (rule block_on.raw_induct [where P = "\<lambda>fut g s r. \<exists>n. run_polls n fut g s = Some r"])
  fix f fut g s r
  assume IH: "\<And>fut g s r. f fut g s = Some r \<Longrightarrow> \<exists>n. run_polls n fut g s = Some r"
    and eq: "(case fut g s of
        (p, g1, s1) \<Rightarrow> (case p of Poll_Ready val \<Rightarrow> Some (val, g1) | Poll_Pending \<Rightarrow> f fut g1 s1)) = Some r"
  obtain p g1 s1 where p: "fut g s = (p, g1, s1)" by (cases "fut g s")
  show "\<exists>n. run_polls n fut g s = Some r"
  proof (cases p)
    case (Poll_Ready val)
    then show ?thesis using eq p by (intro exI [of _ 1]) simp
  next
    case Poll_Pending
    then have "f fut g1 s1 = Some r" using eq p by simp
    then obtain n where "run_polls n fut g1 s1 = Some r" using IH by blast
    then show ?thesis using p Poll_Pending by (intro exI [of _ "Suc n"]) simp
  qed
qed

lemma run_polls_mono: "run_polls n fut g s = Some r \<Longrightarrow> n \<le> m \<Longrightarrow> run_polls m fut g s = Some r"
proof (induction n arbitrary: m g s)
  case (Suc n)
  then obtain k where "m = Suc k" "n \<le> k" by (cases m) auto
  then show ?case using Suc by (auto split: prod.splits poll.splits)
qed simp

text \<open>
  The specification of \<open>join\<close>: two tasks, each still running (\<open>Inl\<close> its state) or finished (\<open>Inr\<close> its
  result), take turns on the shared state; a finished task leaves its turns unused.
\<close>

definition task_turn :: "('g, 's, 'a) future \<Rightarrow> 'g \<Rightarrow> 's + 'a \<Rightarrow> 'g \<times> ('s + 'a)" where
  "task_turn fut g t =
     (case t of
        Inr x \<Rightarrow> (g, Inr x)
      | Inl s \<Rightarrow>
          (case fut g s of
             (Poll_Ready x, g', s') \<Rightarrow> (g', Inr x)
           | (Poll_Pending, g', s') \<Rightarrow> (g', Inl s')))"

fun join_rounds ::
    "nat \<Rightarrow> ('g, 's, 'a) future \<Rightarrow> ('g, 't, 'b) future \<Rightarrow> 'g \<times> ('s + 'a) \<times> ('t + 'b) \<Rightarrow> 'g \<times> ('s + 'a) \<times> ('t + 'b)" where
  "join_rounds 0 a b c = c"
| "join_rounds (Suc n) a b (g, x, y) =
     (let (g1, x1) = task_turn a g x; (g2, y1) = task_turn b g1 y in join_rounds n a b (g2, x1, y1))"

lemma join_rounds_finished [simp]: "join_rounds n a b (g, Inr x, Inr y) = (g, Inr x, Inr y)"
  by (induction n) (simp_all add: task_turn_def)

definition task_of :: "'s \<Rightarrow> 'a option \<Rightarrow> 's + 'a" where
  "task_of s fin = (case fin of None \<Rightarrow> Inl s | Some x \<Rightarrow> Inr x)"

definition outcome :: "'g \<times> ('s + 'a) \<times> ('t + 'b) \<Rightarrow> (('a \<times> 'b) \<times> 'g) option" where
  "outcome c = (case c of (g, Inr x, Inr y) \<Rightarrow> Some ((x, y), g) | _ \<Rightarrow> None)"

text \<open>\<open>n\<close> polls of a joined future that has not yet returned are \<open>n\<close> rounds.\<close>

lemma run_polls_join:
  "a_done j = None \<or> b_done j = None \<Longrightarrow>
   run_polls n (join_poll a b) g j = outcome (join_rounds n a b (g, task_of (fut_a j) (a_done j), task_of (fut_b j) (b_done j)))"
proof (induction n arbitrary: g j)
  case 0
  then show ?case by (auto simp: outcome_def task_of_def split: option.splits)
next
  case (Suc n)
  obtain pa ga sa where a: "a g (fut_a j) = (pa, ga, sa)" by (cases "a g (fut_a j)")
  show ?case
  proof (cases "a_done j")
    case None
    obtain pb gb sb where b: "b ga (fut_b j) = (pb, gb, sb)" by (cases "b ga (fut_b j)")
    show ?thesis
      using Suc.IH a b None
      by (cases pa; cases pb; cases "b_done j") (simp_all add: join_poll_def task_of_def task_turn_def outcome_def)
  next
    case (Some x)
    obtain pb gb sb where b: "b g (fut_b j) = (pb, gb, sb)" by (cases "b g (fut_b j)")
    show ?thesis
      using Suc.IH Suc.prems b Some by (cases pb) (simp_all add: join_poll_def task_of_def task_turn_def outcome_def)
  qed
qed

lemma outcome_Some: "outcome c = Some ((x, y), g) \<longleftrightarrow> c = (g, Inr x, Inr y)"
  by (auto simp: outcome_def split: prod.splits sum.splits)

subsection \<open>Properties\<close>

text \<open>
  C28: \<open>drain_to_uart\<close> on a valid ring, with a UART whose transmitter makes progress, returns, has
  sent exactly the queued bytes in order through UART0 and nothing through UART1, and leaves
  the ring valid and empty.
\<close>

theorem drain_to_uart_sends_all:
  assumes "ring_ok v" and "uart_live regs UART0_BASE"
  shows "\<exists>v' m'. drain_to_uart ft regs v m = Some (Inr (v', m')) \<and> ring_ok v' \<and> content v' = [] \<and>
     sent UART0_BASE m' = sent UART0_BASE m @ content v \<and> sent UART1_BASE m' = sent UART1_BASE m"
proof (cases "content v = []")
  case True
  then show ?thesis using drain_empty [of v ft regs m] Consumer_is_empty_iff assms(1) by simp
next
  case False
  obtain n where d: "drain_to_uart ft regs v m = Some (Inr (released ft (length (content v)) v,
      m\<lparr>reads := n, writes := writes m @ map (\<lambda>b. (UART0_BASE + UART_DR_OFFSET, ucast b)) (content v)\<rparr>))"
    using drain_round [OF assms(1) False assms(2)] by blast
  have "UART1_BASE \<noteq> UART0_BASE" by (simp add: UART0_BASE_def UART1_BASE_def)
  then show ?thesis
    using d released_props [OF assms(1), of "length (content v)" ft] sent_write sent_write_other by fastforce
qed

theorem drain_to_uart_sends_all_witness:
  "\<exists>v' m'. drain_to_uart default_features (\<lambda>a t. if t < 3 then 0x20 else 0)
       (RingBuffer_new default_features 2 1 [3, 0, 1, 2]) \<lparr>reads = 0, writes = []\<rparr> = Some (Inr (v', m')) \<and>
     sent UART0_BASE m' = [1, 2, 3]"
proof -
  let ?regs = "\<lambda>(a :: usize) (t :: nat). if t < 3 then 0x20 else 0" and ?v = "RingBuffer_new default_features 2 1 [3, 0, 1, 2]"
  have ok: "ring_ok ?v" and c: "content ?v = [1, 2, 3]" by (simp_all add: ring_eval)
  have "\<exists>k. ?regs (UART0_BASE + UART_FR_OFFSET) (t + k) AND UART_FR_TXFF = 0" for t
    by (rule exI [of _ 3]) simp
  then have "uart_live ?regs UART0_BASE" unfolding uart_live_def by blast
  from drain_to_uart_sends_all [OF ok this, of default_features "\<lparr>reads = 0, writes = []\<rparr>"]
  show ?thesis unfolding c by (auto simp: sent_def)
qed

text \<open>
  C36: \<open>block_on (join (a, b))\<close>, whatever state the two tasks share: it returns if and only if some
  number of rounds, in which \<open>a\<close> and then \<open>b\<close> is polled once on the shared state unless it has finished, finishes both, and
  then with the pair of their results and the shared state as those rounds leave it. So each task gets its poll
  in every round, in this order, and is not polled again once it is ready.
\<close>

theorem block_on_join:
  "block_on (join_poll a b) g (join_new sa sb) = Some ((x, y), g') \<longleftrightarrow>
     (\<exists>n. join_rounds n a b (g, Inl sa, Inl sb) = (g', Inr x, Inr y))"
proof -
  have "run_polls n (join_poll a b) g (join_new sa sb) = outcome (join_rounds n a b (g, Inl sa, Inl sb))" for n
    by (subst run_polls_join) (simp_all add: join_new_def task_of_def)
  then show ?thesis
    using run_polls_block_on block_on_run_polls outcome_Some by metis
qed

text \<open>Two tasks that count on one counter: each reads it with every poll, and yields \<open>s\<close> times.\<close>

definition counter_task :: "(nat, nat, nat) future" where
  "counter_task g s = (if s = 0 then (Poll_Ready g, g + 1, s) else (Poll_Pending, g + 1, s - 1))"

theorem block_on_join_witness:
  "block_on (join_poll counter_task counter_task) 0 (join_new 1 0) = Some ((2, 1), 3)"
proof -
  have "join_rounds 2 counter_task counter_task (0, Inl 1, Inl 0) = (3, Inr 2, Inr 1)"
    by (simp add: numeral_2_eq_2 task_turn_def counter_task_def)
  then show ?thesis unfolding block_on_join by (rule exI)
qed

end
