(* ===== verification/Examples.thy ===== *)
theory Examples
  imports BoardSpec Init Testsuite
begin

text \<open>
  The example programs under \<open>testsuite/examples\<close>, as programs over a device that logs, drains
  and dumps. The calls that a \<open>defmt\<close> macro expands to are a parameter. The panic handler of
  \<open>panic_test\<close> is modelled; those of the other examples end the program and are not.
\<close>

subsection \<open>The programs after \<open>init\<close>\<close>

definition level_messages :: "log_stmt list" where
  "level_messages =
     [stmt ''println'' ''println: Hello from defmt-persist!'',
      stmt ''error'' ''error: This is an error message'',
      stmt ''warn'' ''warn: This is a warning message'',
      stmt ''info'' ''info: This is an info message'',
      stmt ''debug'' ''debug: This is a debug message'',
      stmt ''trace'' ''trace: This is a trace message'']"

definition basic_main ::
    "(log_stmt \<Rightarrow> 'b \<Rightarrow> 'b res option) \<Rightarrow> ('b \<Rightarrow> 'b res option) \<Rightarrow> 'b \<Rightarrow> 'b res option" where
  "basic_main log drain b = run_bind (log_all log level_messages b) drain"

definition only_in_first :: log_stmt where
  "only_in_first = stmt ''info'' ''This message will only be in the first run!''"

definition only_in_second :: log_stmt where
  "only_in_second = stmt ''info'' ''This message will only be in the second run!''"

definition persist_main ::
    "(log_stmt \<Rightarrow> 'b \<Rightarrow> 'b res option) \<Rightarrow> ('b \<Rightarrow> 'b res option) \<Rightarrow> ('b \<Rightarrow> 'b res option) \<Rightarrow>
     ('b \<Rightarrow> bool) \<Rightarrow> 'b \<Rightarrow> 'b res option" where
  "persist_main log drain dump no_data b =
     (if \<not> no_data b then run_bind (log only_in_second b) drain
      else
        run_bind (log_all log level_messages b) (\<lambda>b.
        run_bind (dump b) (\<lambda>b.
        run_bind (log only_in_first b) drain)))"

definition panic_handler ::
    "(log_stmt \<Rightarrow> 'b \<Rightarrow> 'b res option) \<Rightarrow> ('b \<Rightarrow> 'b res option) \<Rightarrow> string \<Rightarrow> 'b \<Rightarrow> 'b res option" where
  "panic_handler log dump info b = run_bind (log (Stmt ''error'' ''{}'' (Arg_panic info)) b) dump"

definition after_panic :: log_stmt where
  "after_panic = stmt ''info'' ''Some text during second run after a panic.''"

definition drained_text :: log_stmt where
  "drained_text = stmt ''info'' ''Some text before a panic, that had time to drain.''"

definition undrained_text :: log_stmt where
  "undrained_text = stmt ''info'' ''Some text before a panic, that did NOT have time to drain before panic.''"

definition panic_text :: string where
  "panic_text = ''Hello from panic message!''"

definition panic_main ::
    "(log_stmt \<Rightarrow> 'b \<Rightarrow> 'b res option) \<Rightarrow> ('b \<Rightarrow> 'b res option) \<Rightarrow> ('b \<Rightarrow> 'b res option) \<Rightarrow>
     ('b \<Rightarrow> bool) \<Rightarrow> 'b \<Rightarrow> 'b res option" where
  "panic_main log drain dump no_data b =
     (if \<not> no_data b then run_bind (log after_panic b) drain
      else
        run_bind (log drained_text b) (\<lambda>b.
        run_bind (drain b) (\<lambda>b.
        run_bind (log undrained_text b) (panic_handler log dump panic_text))))"

definition corrupt_main ::
    "(log_stmt \<Rightarrow> 'b \<Rightarrow> 'b res option) \<Rightarrow> ('b \<Rightarrow> 'b res option) \<Rightarrow> ('b \<Rightarrow> 'b res option) \<Rightarrow>
     ('b \<Rightarrow> bool) \<Rightarrow> 'b \<Rightarrow> 'b res option" where
  "corrupt_main log drain dump no_data b =
     (if \<not> no_data b then drain b
      else
        run_bind (log (stmt ''info'' ''corrupt test: fresh buffer'') b) (\<lambda>b.
        run_bind (dump b) drain))"

definition wraparound_stmt :: "nat \<Rightarrow> log_stmt" where
  "wraparound_stmt i = Stmt ''info'' ''wraparound test: message {}'' (Arg_u32 (of_nat i))"

fun wraparound_loop ::
    "(log_stmt \<Rightarrow> 'b \<Rightarrow> 'b res option) \<Rightarrow> ('b \<Rightarrow> 'b res option) \<Rightarrow> nat list \<Rightarrow> 'b \<Rightarrow> 'b res option" where
  "wraparound_loop log drain [] b = Some (Inr b)"
| "wraparound_loop log drain (i # is) b =
     run_bind (log (wraparound_stmt i) b) (\<lambda>b.
     run_bind (if i mod 20 = 0 then drain b else Some (Inr b)) (wraparound_loop log drain is))"

definition wraparound_main ::
    "(log_stmt \<Rightarrow> 'b \<Rightarrow> 'b res option) \<Rightarrow> ('b \<Rightarrow> 'b res option) \<Rightarrow> 'b \<Rightarrow> 'b res option" where
  "wraparound_main log drain b = run_bind (wraparound_loop log drain [0..<1000] b) drain"

subsection \<open>What they do on any device\<close>

context log_device
begin

lemma basic_run:
  assumes "valid b" "\<forall>m. admissible m" "length (queue b) + length (frame_bytes frame level_messages (enc b)) \<le> cap"
  shows "\<exists>t. basic_main log drain b = Some (Inr t) \<and> valid t \<and> queue t = [] \<and>
     out0 t = out0 b @ queue b @ frame_bytes frame level_messages (enc b)"
proof -
  obtain t where t: "log_all log level_messages b = Some (Inr t)" "valid t"
    "queue t = queue b @ frame_bytes frame level_messages (enc b)" "out0 t = out0 b"
    using log_all_fits [OF assms(1) _ assms(3)] assms(2) by blast
  show ?thesis using drain_law [OF t(2)] t by (auto simp: basic_main_def)
qed

lemma log_then_drain:
  assumes "valid b" "\<forall>m. admissible m" "length (queue b) + length (fst (frame m (enc b))) \<le> cap"
  shows "\<exists>t. run_bind (log m b) drain = Some (Inr t) \<and> valid t \<and> queue t = [] \<and>
     out0 t = out0 b @ queue b @ fst (frame m (enc b)) \<and> out1 t = out1 b \<and> enc t = snd (frame m (enc b))"
proof -
  obtain t where t: "log m b = Some (Inr t)" "valid t" "queue t = queue b @ fst (frame m (enc b))"
    "enc t = snd (frame m (enc b))" "out0 t = out0 b" "out1 t = out1 b"
    by (rule log_fits [OF assms(1) _ assms(3)]) (use assms(2) in blast)
  show ?thesis using drain_law [OF t(2)] t by auto
qed

text \<open>
  The two runs of \<open>persist_test\<close>: the first one leaves a dump taken when the ring held the six
  messages; the second one finds data and adds one message.
\<close>

lemma persist_first_run:
  assumes "valid b" "queue b = []" "\<forall>m. admissible m"
    and "length (frame_bytes frame (level_messages @ [only_in_first]) (enc b)) \<le> cap"
  shows "\<exists>t m. persist_main log drain dump no_data b = Some (Inr t) \<and> valid t \<and> queue t = [] \<and>
     out0 t = out0 b @ frame_bytes frame (level_messages @ [only_in_first]) (enc b) \<and>
     valid m \<and> queue m = frame_bytes frame level_messages (enc b) \<and> out1 t = out1 b @ image m"
proof -
  have fit: "length (queue b) + length (frame_bytes frame level_messages (enc b)) \<le> cap" using assms(2,4) by simp
  obtain t where t: "log_all log level_messages b = Some (Inr t)" "valid t"
    "queue t = frame_bytes frame level_messages (enc b)" "enc t = snd (frames_of frame level_messages (enc b))"
    "out0 t = out0 b" "out1 t = out1 b"
    using log_all_fits [OF assms(1) _ fit] assms(2,3) by auto
  obtain u where u: "dump t = Some (Inr u)" "valid u" "queue u = queue t" "out0 u = out0 t"
    "out1 u = out1 t @ image t" "enc u = enc t"
    using dump_law [OF t(2)] by blast
  have "length (queue u) + length (fst (frame only_in_first (enc u))) \<le> cap" using assms(4) t u by simp
  from log_then_drain [OF u(2) assms(3) this] show ?thesis
    using no_data_law [OF assms(1)] assms(2) t u
    by (simp add: persist_main_def) blast
qed

lemma persist_second_run:
  assumes "valid b" "queue b \<noteq> []" "\<forall>m. admissible m"
    and "length (queue b) + length (fst (frame only_in_second (enc b))) \<le> cap"
  shows "\<exists>t. persist_main log drain dump no_data b = Some (Inr t) \<and>
     out0 t = out0 b @ queue b @ fst (frame only_in_second (enc b))"
  using log_then_drain [OF assms(1,3,4)] no_data_law [OF assms(1)] assms(2)
  by (auto simp: persist_main_def)

text \<open>\<open>panic_test\<close>: the panic handler logs and dumps what had not been drained.\<close>

lemma panic_first_run:
  assumes "valid b" "queue b = []" "\<forall>m. admissible m"
    and "length (fst (frame drained_text (enc b))) \<le> cap"
    and "length (frame_bytes frame [undrained_text, Stmt ''error'' ''{}'' (Arg_panic panic_text)]
           (snd (frame drained_text (enc b)))) \<le> cap"
  shows "\<exists>t m. panic_main log drain dump no_data b = Some (Inr t) \<and>
     out0 t = out0 b @ fst (frame drained_text (enc b)) \<and> out1 t = out1 b @ image m \<and> valid m \<and>
     queue m = frame_bytes frame [undrained_text, Stmt ''error'' ''{}'' (Arg_panic panic_text)]
           (snd (frame drained_text (enc b)))"
proof -
  have "length (queue b) + length (fst (frame drained_text (enc b))) \<le> cap" using assms(2,4) by simp
  from log_then_drain [OF assms(1,3) this] obtain t where t: "run_bind (log drained_text b) drain = Some (Inr t)"
    "valid t" "queue t = []" "out0 t = out0 b @ fst (frame drained_text (enc b))" "out1 t = out1 b"
    "enc t = snd (frame drained_text (enc b))" using assms(2) by auto
  have fit: "length (queue t) + length (frame_bytes frame [undrained_text, Stmt ''error'' ''{}'' (Arg_panic panic_text)] (enc t)) \<le> cap"
    using assms(5) t by simp
  obtain u where u: "log_all log [undrained_text, Stmt ''error'' ''{}'' (Arg_panic panic_text)] t = Some (Inr u)"
    "valid u" "queue u = frame_bytes frame [undrained_text, Stmt ''error'' ''{}'' (Arg_panic panic_text)] (enc t)"
    "out0 u = out0 t" "out1 u = out1 t"
    using log_all_fits [OF t(2) _ fit] assms(3) t(3) by auto
  obtain w where w: "dump u = Some (Inr w)" "out0 w = out0 u" "out1 w = out1 u @ image u"
    using dump_law [OF u(2)] by blast
  have "panic_main log drain dump no_data b =
      run_bind (run_bind (log drained_text b) drain) (\<lambda>b. run_bind (log_all log [undrained_text, Stmt ''error'' ''{}'' (Arg_panic panic_text)] b) dump)"
    using no_data_law [OF assms(1)] assms(2)
    by (simp add: panic_main_def panic_handler_def [abs_def] run_bind_assoc run_bind_right)
  then show ?thesis using t u w by auto
qed

lemma panic_second_run:
  assumes "valid b" "queue b \<noteq> []" "\<forall>m. admissible m"
    and "length (queue b) + length (fst (frame after_panic (enc b))) \<le> cap"
  shows "\<exists>t. panic_main log drain dump no_data b = Some (Inr t) \<and>
     out0 t = out0 b @ queue b @ fst (frame after_panic (enc b))"
  using log_then_drain [OF assms(1,3,4)] no_data_law [OF assms(1)] assms(2)
  by (auto simp: panic_main_def)

text \<open>
  \<open>wraparound_test\<close>: at the start of round \<open>i\<close> the ring holds at most \<open>(i + 19) mod 20\<close> frames, so
  with room for 20 frames of the largest size nothing is lost.
\<close>

lemma wraparound_run:
  assumes L: "\<forall>i e. length (fst (frame (wraparound_stmt i) e)) \<le> L" "20 * L \<le> cap" and adm: "\<forall>m. admissible m"
  shows "valid b \<Longrightarrow> length (queue b) \<le> (i + 19) mod 20 * L \<Longrightarrow>
     \<exists>t. wraparound_loop log drain [i..<i + n] b = Some (Inr t) \<and> valid t \<and>
       out0 t @ queue t = out0 b @ queue b @ frame_bytes frame (map wraparound_stmt [i..<i + n]) (enc b)"
proof (induction n arbitrary: i b)
  case (Suc n)
  let ?f = "frame (wraparound_stmt i) (enc b)"
  have k: "Suc ((i + 19) mod 20) \<le> 20" by simp
  have l: "length (queue b) + length (fst ?f) \<le> Suc ((i + 19) mod 20) * L"
    using Suc.prems(2) spec [OF spec [OF L(1), of i], of "enc b"] by simp
  also have "\<dots> \<le> 20 * L" using k by (rule mult_le_mono1)
  finally have fit: "length (queue b) + length (fst ?f) \<le> cap" using L(2) by simp
  have upt: "[i..<i + Suc n] = i # [Suc i..<Suc i + n]" by (simp add: upt_rec)
  show ?case
  proof (cases "i mod 20 = 0")
    case True
    obtain t where t: "run_bind (log (wraparound_stmt i) b) drain = Some (Inr t)" "valid t" "queue t = []"
      "out0 t = out0 b @ queue b @ fst ?f" "enc t = snd ?f"
      using log_then_drain [OF Suc.prems(1) adm fit] by auto
    have "length (queue t) \<le> (Suc i + 19) mod 20 * L" using t(3) by simp
    from Suc.IH [OF t(2) this] obtain u where u: "wraparound_loop log drain [Suc i..<Suc i + n] t = Some (Inr u)" "valid u"
      "out0 u @ queue u = out0 t @ queue t @ frame_bytes frame (map wraparound_stmt [Suc i..<Suc i + n]) (enc t)" by blast
    have "wraparound_loop log drain [i..<i + Suc n] b
        = run_bind (run_bind (log (wraparound_stmt i) b) drain) (wraparound_loop log drain [Suc i..<Suc i + n])"
      unfolding upt wraparound_loop.simps using True by (simp only: run_bind_assoc simp_thms if_True)
    then have "wraparound_loop log drain [i..<i + Suc n] b = Some (Inr u)" unfolding t(1) run_bind.simps u(1) .
    moreover have "out0 u @ queue u = out0 b @ queue b @ frame_bytes frame (map wraparound_stmt [i..<i + Suc n]) (enc b)"
      unfolding u(3) t(3,4,5) upt list.map frames_of.simps fst_conv append_assoc append_Nil ..
    ultimately show ?thesis using u(2) by blast
  next
    case False
    obtain t where t: "log (wraparound_stmt i) b = Some (Inr t)" "valid t" "queue t = queue b @ fst ?f"
      "enc t = snd ?f" "out0 t = out0 b"
      by (rule log_fits [OF Suc.prems(1) _ fit]) (use adm in blast)+
    have "(Suc i + 19) mod 20 = i mod 20" by simp
    then have "(Suc i + 19) mod 20 = Suc ((i + 19) mod 20)"
      using mod_Suc [of "i + 19" 20] False by (auto split: if_splits)
    then have "length (queue t) \<le> (Suc i + 19) mod 20 * L" using t(3) l by simp
    from Suc.IH [OF t(2) this] obtain u where u: "wraparound_loop log drain [Suc i..<Suc i + n] t = Some (Inr u)" "valid u"
      "out0 u @ queue u = out0 t @ queue t @ frame_bytes frame (map wraparound_stmt [Suc i..<Suc i + n]) (enc t)" by blast
    have "wraparound_loop log drain [i..<i + Suc n] b = Some (Inr u)"
      unfolding upt wraparound_loop.simps t(1) run_bind.simps using False by (simp only: if_False run_bind.simps u(1))
    moreover have "out0 u @ queue u = out0 b @ queue b @ frame_bytes frame (map wraparound_stmt [i..<i + Suc n]) (enc b)"
      unfolding u(3) t(3,4,5) upt list.map frames_of.simps fst_conv append_assoc append_Nil ..
    ultimately show ?thesis using u(2) by blast
  qed
qed simp

end

subsection \<open>The board\<close>

text \<open>
  What the examples run on: the features, the platform, the target's ABI, the registers, the
  two linker symbols (\<open>testsuite/memory.x\<close>) and the calls between \<open>acquire\<close> and \<open>release\<close> that
  a log statement expands to. All levels are enabled (\<open>DEFMT_LOG\<close> is \<open>trace\<close>).
\<close>

record ('e, 'r, 'h, 'w) bench =
  bench_features :: features
  bench_platform :: "('e, 'r, 'h, 'w) platform"
  bench_abi :: abi
  bench_regs :: registers
  bench_start :: usize
  bench_end :: usize
  bench_expand :: "log_stmt \<Rightarrow> log_call list"

text \<open>\<open>ram\<close> is what the region holds at the reset; from \<open>init\<close> on, the ring in it is \<open>persist\<close>.\<close>

record ('e, 'r, 'h, 'w) board =
  dev :: "('e, 'r, 'h, 'w) device"
  ram :: "u8 list"
  uart :: mmio

abbreviation the_ring :: "('e, 'r, 'h, 'w) board \<Rightarrow> ring" where
  "the_ring b \<equiv> persist (LOGGER_STATE (dev b))"

abbreviation with_logger :: "('e, 'r, 'h, 'w) board \<Rightarrow> ('e, 'r, 'h, 'w) logger \<Rightarrow> ('e, 'r, 'h, 'w) board" where
  "with_logger b l \<equiv> b\<lparr>dev := (dev b)\<lparr>LOGGER_STATE := l\<rparr>\<rparr>"

text \<open>\<open>init().unwrap()\<close>.\<close>

definition board_init :: "('e, 'r, 'h, 'w) bench \<Rightarrow> ('e, 'r, 'h, 'w) board \<Rightarrow> ('e, 'r, 'h, 'w) board res option" where
  "board_init su b =
     run_bind (init (bench_features su) (bench_abi su) (bench_start su) (bench_end su) (ram b) (dev b)) (\<lambda>(r, d).
       case r of Inl e \<Rightarrow> Some (Inl Unwrap) | Inr c \<Rightarrow> Some (Inr (b\<lparr>dev := d\<rparr>)))"

definition board_log ::
    "('e, 'r, 'h, 'w) bench \<Rightarrow> log_stmt \<Rightarrow> ('e, 'r, 'h, 'w) board \<Rightarrow> ('e, 'r, 'h, 'w) board res option" where
  "board_log su m b =
     run_bind (log_run (bench_features su) (bench_platform su) (Acquire # bench_expand su m @ [Release]) (LOGGER_STATE (dev b)))
       (\<lambda>l. Some (Inr (with_logger b l)))"

definition board_drain :: "('e, 'r, 'h, 'w) bench \<Rightarrow> ('e, 'r, 'h, 'w) board \<Rightarrow> ('e, 'r, 'h, 'w) board res option" where
  "board_drain su b =
     run_bind (drain_to_uart (bench_features su) (bench_regs su) (the_ring b) (uart b))
       (\<lambda>(v, m). Some (Inr ((with_logger b ((LOGGER_STATE (dev b))\<lparr>persist := v\<rparr>))\<lparr>uart := m\<rparr>)))"

definition board_image :: "('e, 'r, 'h, 'w) bench \<Rightarrow> ('e, 'r, 'h, 'w) board \<Rightarrow> u8 list" where
  "board_image su b = region_store (bench_features su) (bench_abi su) (the_ring b) (ram b)"

definition board_dump :: "('e, 'r, 'h, 'w) bench \<Rightarrow> ('e, 'r, 'h, 'w) board \<Rightarrow> ('e, 'r, 'h, 'w) board res option" where
  "board_dump su b =
     run_bind (dump_persist_region (bench_regs su) (bench_start su) (bench_end su) (board_image su b) (uart b))
       (\<lambda>m. Some (Inr (b\<lparr>uart := m\<rparr>)))"

definition board_empty :: "('e, 'r, 'h, 'w) board \<Rightarrow> bool" where
  "board_empty b = Consumer_is_empty (the_ring b)"

text \<open>The programs, from the reset on.\<close>

definition basic :: "('e, 'r, 'h, 'w) bench \<Rightarrow> ('e, 'r, 'h, 'w) board \<Rightarrow> ('e, 'r, 'h, 'w) board res option" where
  "basic su b = run_bind (board_init su b) (basic_main (board_log su) (board_drain su))"

definition persist_test :: "('e, 'r, 'h, 'w) bench \<Rightarrow> ('e, 'r, 'h, 'w) board \<Rightarrow> ('e, 'r, 'h, 'w) board res option" where
  "persist_test su b =
     run_bind (board_init su b) (persist_main (board_log su) (board_drain su) (board_dump su) board_empty)"

definition panic_test :: "('e, 'r, 'h, 'w) bench \<Rightarrow> ('e, 'r, 'h, 'w) board \<Rightarrow> ('e, 'r, 'h, 'w) board res option" where
  "panic_test su b =
     run_bind (board_init su b) (panic_main (board_log su) (board_drain su) (board_dump su) board_empty)"

definition corrupt_test :: "('e, 'r, 'h, 'w) bench \<Rightarrow> ('e, 'r, 'h, 'w) board \<Rightarrow> ('e, 'r, 'h, 'w) board res option" where
  "corrupt_test su b =
     run_bind (board_init su b) (corrupt_main (board_log su) (board_drain su) (board_dump su) board_empty)"

definition wraparound_test :: "('e, 'r, 'h, 'w) bench \<Rightarrow> ('e, 'r, 'h, 'w) board \<Rightarrow> ('e, 'r, 'h, 'w) board res option" where
  "wraparound_test su b = run_bind (board_init su b) (wraparound_main (board_log su) (board_drain su))"

subsection \<open>The board is a restartable device\<close>

text \<open>The writes of a log statement itself, without those of nested calls.\<close>

fun own_writes :: "nat \<Rightarrow> log_call list \<Rightarrow> u8 list list" where
  "own_writes k [] = []"
| "own_writes k (Write b # cs) = (if k = 0 then [b] else []) @ own_writes k cs"
| "own_writes k (Flush # cs) = own_writes k cs"
| "own_writes k (Acquire # cs) = own_writes (Suc k) cs"
| "own_writes k (Release # cs) = own_writes (k - 1) cs"

lemma own_writes_body:
  "body cs ws \<Longrightarrow> own_writes k (cs @ ds) = (if k = 0 then ws else []) @ own_writes k ds"
  by (induction arbitrary: k ds rule: body.induct) simp_all

definition stmt_ok :: "('e, 'r, 'h, 'w) bench \<Rightarrow> log_stmt \<Rightarrow> bool" where
  "stmt_ok su m \<longleftrightarrow> (\<exists>ws. body (bench_expand su m) ws) \<and> length (bench_expand su m) + 2 < usize_limit"

definition stmt_frame :: "('e, 'r, 'h, 'w) bench \<Rightarrow> log_stmt \<Rightarrow> 'e \<Rightarrow> u8 list \<times> 'e" where
  "stmt_frame su m e =
     (let (cs, e') = encode_frame (bench_platform su) (own_writes 0 (bench_expand su m)) e in (concat cs, e'))"

definition hardware_ok :: "('e, 'r, 'h, 'w) bench \<Rightarrow> ('e, 'r, 'h, 'w) board \<Rightarrow> bool" where
  "hardware_ok su b \<longleftrightarrow>
     uart_live (bench_regs su) UART0_BASE \<and> uart_live (bench_regs su) UART1_BASE \<and>
     region_ok (bench_features su) (bench_abi su) (bench_start su) (bench_end su) (ram b) \<and>
     rtt_live (bench_features su) (bench_platform su) (LOGGER_STATE (dev b)) \<and> depth (LOGGER_STATE (dev b)) = 0"

definition ring_size :: "('e, 'r, 'h, 'w) bench \<Rightarrow> nat" where
  "ring_size su = bench_end su - bench_start su - size_of_RingBuffer (bench_features su) (bench_abi su)"

definition board_ok :: "('e, 'r, 'h, 'w) bench \<Rightarrow> ('e, 'r, 'h, 'w) board \<Rightarrow> bool" where
  "board_ok su b \<longleftrightarrow> hardware_ok su b \<and> logger_ok (LOGGER_STATE (dev b)) \<and> initialized (LOGGER_STATE (dev b)) \<and>
     length (buf (the_ring b)) = ring_size su \<and> rb_header (the_ring b) = MAGIC (bench_features su) \<and>
     (feat_ecc (bench_features su) \<or> rb_ecc_flush (the_ring b) = 0)"

definition board_cold :: "('e, 'r, 'h, 'w) bench \<Rightarrow> ('e, 'r, 'h, 'w) board \<Rightarrow> bool" where
  "board_cold su b \<longleftrightarrow> hardware_ok su b \<and> channel_ok (rtt_channel (LOGGER_STATE (dev b))) \<and>
     init_error (bench_features su) (bench_abi su) (bench_start su) (bench_end su) (INITIALIZED (dev b)) = None"

lemma stmt_ok_body: "stmt_ok su m \<Longrightarrow> body (bench_expand su m) (own_writes 0 (bench_expand su m))"
  using own_writes_body [of "bench_expand su m" _ 0 "[]"] by (auto simp: stmt_ok_def)

lemma board_log_law:
  assumes ok: "board_ok su b" and m: "stmt_ok su m"
  shows "\<exists>t. board_log su m b = Some (Inr t) \<and> board_ok su t \<and>
    content (the_ring t) = content (the_ring b) @ take (ring_size su - 1 - length (content (the_ring b)))
      (fst (stmt_frame su m (encoder (LOGGER_STATE (dev b))))) \<and>
    encoder (LOGGER_STATE (dev t)) = snd (stmt_frame su m (encoder (LOGGER_STATE (dev b)))) \<and> uart t = uart b"
proof -
  let ?s = "LOGGER_STATE (dev b)" and ?w = "own_writes 0 (bench_expand su m)"
  obtain cs e where f: "encode_frame (bench_platform su) ?w (encoder ?s) = (cs, e)" by fastforce
  have s: "logger_ok ?s" "initialized ?s" "depth ?s = 0" "rtt_live (bench_features su) (bench_platform su) ?s"
    using ok by (simp_all add: board_ok_def hardware_ok_def)
  have len: "length (bench_expand su m) + 2 < usize_limit" using m by (simp add: stmt_ok_def)
  obtain t where t: "log_run (bench_features su) (bench_platform su) (Acquire # bench_expand su m @ [Release]) ?s = Some (Inr t)"
    "logger_ok t" "rtt_live (bench_features su) (bench_platform su) t" "encoder t = e"
    "frame_done (bench_features su) (bench_platform su) cs ?s t"
    using frame_runs [OF stmt_ok_body [OF m] len s(3,1,4)] f by auto
  have fin: "depth t = 0" "initialized t" "ring_output (bench_features su) cs ?s t"
    using t(5) s(2) by (simp_all add: frame_done_def)
  have "same_region (bench_features su) (persist ?s) (persist t)"
    by (rule ring_output_region [OF s(1) fin(3)])
  then have "board_ok su (with_logger b t)"
    using ok t(2,3) fin(1,2) by (auto simp: board_ok_def hardware_ok_def same_region_def)
  moreover have "space (persist ?s) = ring_size su - 1 - length (content (persist ?s))"
    using ok by (simp add: space_def board_ok_def)
  ultimately show ?thesis
    using t(1,4) ring_output_content(1) [OF s(1,2) fin(3)] f
    by (simp add: board_log_def stmt_frame_def)
qed

lemma board_drain_law:
  assumes ok: "board_ok su b"
  shows "\<exists>t. board_drain su b = Some (Inr t) \<and> board_ok su t \<and> content (the_ring t) = [] \<and>
    sent UART0_BASE (uart t) = sent UART0_BASE (uart b) @ content (the_ring b) \<and>
    sent UART1_BASE (uart t) = sent UART1_BASE (uart b) \<and>
    encoder (LOGGER_STATE (dev t)) = encoder (LOGGER_STATE (dev b))"
proof -
  have r: "ring_ok (the_ring b)" and live: "uart_live (bench_regs su) UART0_BASE"
    using ok by (simp_all add: board_ok_def logger_ok_def hardware_ok_def)
  show ?thesis
  proof (cases "content (the_ring b) = []")
    case True
    then have "board_drain su b = Some (Inr b)"
      using drain_empty Consumer_is_empty_iff [OF r] by (simp add: board_drain_def)
    then show ?thesis using ok True by auto
  next
    case False
    let ?v = "released (bench_features su) (length (content (the_ring b))) (the_ring b)"
    let ?b = "\<lambda>m. (with_logger b ((LOGGER_STATE (dev b))\<lparr>persist := ?v\<rparr>))\<lparr>uart := m\<rparr>"
    obtain n where d: "drain_to_uart (bench_features su) (bench_regs su) (the_ring b) (uart b) = Some (Inr (?v,
        (uart b)\<lparr>reads := n, writes := writes (uart b) @ map (\<lambda>b. (UART0_BASE + UART_DR_OFFSET, ucast b)) (content (the_ring b))\<rparr>))"
      using drain_round [OF r False live] by blast
    have v: "content ?v = []" "ring_ok ?v" using released_props [OF r] by simp_all
    have "feat_ecc (bench_features su) \<or> rb_ecc_flush ?v = rb_ecc_flush (the_ring b)"
      by (auto simp: released_def flush_ecc_def)
    then have "board_ok su (?b m)" for m
      using ok v(2) by (auto simp: board_ok_def hardware_ok_def logger_ok_def rtt_live_def)
    moreover have "UART1_BASE \<noteq> UART0_BASE" by (simp add: UART0_BASE_def UART1_BASE_def)
    ultimately show ?thesis
      using d v sent_write sent_write_other by (auto simp: board_drain_def)
  qed
qed

lemma length_region_store:
  assumes "region_ok ft a start end bytes" and "length (buf v) = end - start - size_of_RingBuffer ft a"
  shows "length (region_store ft a v bytes) = end - start"
proof -
  have "length bytes = size_of_RingBuffer ft a + length (buf v)" and a: "abi_ok a" and l: "length bytes = end - start"
    using assms by (auto simp: region_ok_def)
  then show ?thesis using layout_offsets [OF a, of ft] layout_size [OF a, of ft] by (simp add: region_store_def)
qed

lemma length_board_image: "board_ok su b \<Longrightarrow> length (board_image su b) = bench_end su - bench_start su"
  using length_region_store by (auto simp: board_ok_def hardware_ok_def ring_size_def board_image_def)

lemma board_dump_law:
  assumes ok: "board_ok su b"
  shows "\<exists>t. board_dump su b = Some (Inr t) \<and> board_ok su t \<and> the_ring t = the_ring b \<and>
    sent UART0_BASE (uart t) = sent UART0_BASE (uart b) \<and>
    sent UART1_BASE (uart t) = sent UART1_BASE (uart b) @ board_image su b \<and>
    encoder (LOGGER_STATE (dev t)) = encoder (LOGGER_STATE (dev b))"
proof -
  have live: "uart_live (bench_regs su) UART1_BASE" and se: "bench_start su < bench_end su"
    and len: "length (board_image su b) = bench_end su - bench_start su"
    using ok length_board_image by (auto simp: board_ok_def hardware_ok_def region_ok_def)
  obtain n where w: "uart_write_bytes (bench_regs su) UART1_BASE (board_image su b) (uart b) =
      Some ((uart b)\<lparr>reads := n, writes := writes (uart b) @ map (\<lambda>b. (UART1_BASE + UART_DR_OFFSET, ucast b)) (board_image su b)\<rparr>)"
    using uart_write_bytes_returns [OF live] by blast
  have "UART0_BASE \<noteq> UART1_BASE" by (simp add: UART0_BASE_def UART1_BASE_def)
  moreover have "board_ok su (b\<lparr>uart := m\<rparr>)" for m using ok by (simp add: board_ok_def hardware_ok_def)
  ultimately show ?thesis
    using w len se sent_write sent_write_other
    by (auto simp: board_dump_def dump_persist_region_def checked write_bytes_uart1_def)
qed

lemma board_init_law:
  assumes cold: "board_cold su b"
  defines "v \<equiv> recover (bench_features su) (init_view (bench_features su) (bench_abi su) (bench_start su) (bench_end su) (ram b))"
  shows "board_init su b = Some (Inr (with_logger (b\<lparr>dev := (dev b)\<lparr>INITIALIZED := True\<rparr>\<rparr>)
      (LoggerState_initialize ((LOGGER_STATE (dev b))\<lparr>persist := v\<rparr>))))"
    and "board_ok su (with_logger (b\<lparr>dev := (dev b)\<lparr>INITIALIZED := True\<rparr>\<rparr>)
      (LoggerState_initialize ((LOGGER_STATE (dev b))\<lparr>persist := v\<rparr>)))"
proof -
  have e: "init_error (bench_features su) (bench_abi su) (bench_start su) (bench_end su) (INITIALIZED (dev b)) = None"
    and r: "region_ok (bench_features su) (bench_abi su) (bench_start su) (bench_end su) (ram b)"
    using cold by (simp_all add: board_cold_def hardware_ok_def)
  show "board_init su b = Some (Inr (with_logger (b\<lparr>dev := (dev b)\<lparr>INITIALIZED := True\<rparr>\<rparr>)
      (LoggerState_initialize ((LOGGER_STATE (dev b))\<lparr>persist := v\<rparr>))))"
    using init_run [OF e r] by (simp add: board_init_def v_def)
  have "length (buf v) = ring_size su"
    using recover_or_reinitialize_eq(2) [OF r] by (simp add: v_def ring_size_def init_view_def)
  moreover have "feat_ecc (bench_features su) \<or> rb_ecc_flush v = 0"
    by (auto simp: v_def init_view_def region_view_def recover_def Let_def flush_ecc_def split: bool.splits)
  ultimately show "board_ok su (with_logger (b\<lparr>dev := (dev b)\<lparr>INITIALIZED := True\<rparr>\<rparr>)
      (LoggerState_initialize ((LOGGER_STATE (dev b))\<lparr>persist := v\<rparr>)))"
    using cold init_recovers(2) [OF r, folded v_def]
    by (simp add: board_ok_def board_cold_def hardware_ok_def logger_ok_def rtt_live_def v_def)
qed

lemma board_image_law:
  assumes cold: "board_cold su b" and m: "board_ok su m" and eq: "ram b = board_image su m"
    and run: "board_init su b = Some (Inr t)"
  shows "content (the_ring t) = content (the_ring m)"
proof -
  let ?ft = "bench_features su"
  have r: "region_ok ?ft (bench_abi su) (bench_start su) (bench_end su) (ram b)"
    using cold by (simp add: board_cold_def hardware_ok_def)
  have "ring_ok (the_ring m)" "rb_header (the_ring m) = MAGIC ?ft" "feat_ecc ?ft \<or> rb_ecc_flush (the_ring m) = 0"
    "region_ok ?ft (bench_abi su) (bench_start su) (bench_end su) (ram m)"
    "length (buf (the_ring m)) = bench_end su - bench_start su - size_of_RingBuffer ?ft (bench_abi su)"
    using m by (simp_all add: board_ok_def hardware_ok_def logger_ok_def ring_size_def)
  from recover_stored(2) [OF this]
  have "recover ?ft (init_view ?ft (bench_abi su) (bench_start su) (bench_end su) (ram b)) = flush_ecc ?ft (the_ring m)"
    using init_recovers(1) [OF r] eq by (simp add: board_image_def)
  then show ?thesis using run board_init_law(1) [OF cold] by auto
qed

interpretation bench_device: restartable_device "ring_size su - 1" "\<lambda>b. content (the_ring b)"
  "\<lambda>b. sent UART0_BASE (uart b)" "\<lambda>b. sent UART1_BASE (uart b)" "board_image su"
  "\<lambda>b. encoder (LOGGER_STATE (dev b))" "board_ok su" "stmt_ok su" "stmt_frame su"
  "board_log su" "board_drain su" "board_dump su" board_empty "board_init su" "board_cold su" ram
  for su :: "('e, 'r, 'h, 'w) bench"
proof unfold_locales
  fix b t m :: "('e, 'r, 'h, 'w) board"
  show "board_empty b \<longleftrightarrow> content (the_ring b) = []" if "board_ok su b"
    using that Consumer_is_empty_iff by (simp add: board_empty_def board_ok_def logger_ok_def)
  show "\<exists>t. board_init su b = Some (Inr t) \<and> board_ok su t \<and> sent UART0_BASE (uart t) = sent UART0_BASE (uart b) \<and>
      sent UART1_BASE (uart t) = sent UART1_BASE (uart b) \<and>
      encoder (LOGGER_STATE (dev t)) = encoder (LOGGER_STATE (dev b))" if "board_cold su b"
    using board_init_law [OF that] by simp
  show "content (the_ring t) = content (the_ring m)" if "board_cold su b" "board_ok su m" "ram b = board_image su m"
    "board_init su b = Some (Inr t)"
    by (rule board_image_law [OF that])
qed (fact board_drain_law | use board_log_law in fastforce | use board_dump_law in fastforce)+

text \<open>The log that \<open>init\<close> finds in the memory.\<close>

definition log_in_ram :: "('e, 'r, 'h, 'w) bench \<Rightarrow> ('e, 'r, 'h, 'w) board \<Rightarrow> u8 list" where
  "log_in_ram su b =
     (let v = init_view (bench_features su) (bench_abi su) (bench_start su) (bench_end su) (ram b)
      in if rb_header v = MAGIC (bench_features su) \<and> indices_ok v then content v else [])"

lemma board_boots:
  assumes "board_cold su b"
  obtains t where "board_init su b = Some (Inr t)" "board_ok su t" "content (the_ring t) = log_in_ram su b"
    "uart t = uart b" "encoder (LOGGER_STATE (dev t)) = encoder (LOGGER_STATE (dev b))"
proof -
  let ?ft = "bench_features su"
  let ?u = "init_view ?ft (bench_abi su) (bench_start su) (bench_end su) (ram b)"
  have r: "region_ok ?ft (bench_abi su) (bench_start su) (bench_end su) (ram b)"
    using assms by (simp add: board_cold_def hardware_ok_def)
  have "0 < length (buf ?u)" using recover_or_reinitialize_eq(2,3) [OF r] by (simp add: init_view_def)
  then have "content (recover ?ft ?u) = log_in_ram su b" by (simp add: recover_content log_in_ram_def Let_def)
  then show ?thesis using that board_init_law [OF assms] by auto
qed

subsection \<open>A small bench\<close>

text \<open>Every log statement writes one byte, and the UARTs are never full.\<close>

definition small_bench :: "usize \<Rightarrow> (unit, bool, unit, bool) bench" where
  "small_bench stop =
     \<lparr>bench_features = default_features, bench_platform = bare_platform, bench_abi = thumb_abi, bench_regs = (\<lambda>a t. 0),
      bench_start = 0x20000000, bench_end = stop, bench_expand = (\<lambda>m. [Write [1]])\<rparr>"

definition small_board :: "u8 list \<Rightarrow> (unit, bool, unit, bool) board" where
  "small_board r = \<lparr>dev = cold_device, ram = r, uart = \<lparr>reads = 0, writes = []\<rparr>\<rparr>"

lemma small_frame: "stmt_frame (small_bench stop) m e = ([1, 0], ())"
  by (simp add: stmt_frame_def small_bench_def encode_frame_def bare_platform_def)

lemma small_stmts: "\<forall>m. stmt_ok (small_bench stop) m"
proof
  have "body [Write [1]] [[1]]" by (intro body.intros)
  then show "stmt_ok (small_bench stop) m" for m by (auto simp: stmt_ok_def small_bench_def usize_limit_def)
qed

lemma small_cold:
  assumes "0x20000020 < stop" and "stop < 0x20000020 + max_buf_len" and "length r = stop - 0x20000000"
  shows "board_cold (small_bench stop) (small_board r)"
proof -
  have e: "init_error default_features thumb_abi 0x20000000 stop (INITIALIZED cold_device) = None"
    using assms(1,2) by (simp add: init_error_def cold_device_def layout_defs default_features_def thumb_abi_def)
  have a: "abi_ok thumb_abi" "stop < usize_limit"
    using assms(2) by (simp_all add: abi_ok_def thumb_abi_def usize_limit_def max_buf_len_def)
  have "rtt_live default_features bare_platform (LOGGER_STATE cold_device)" "channel_ok (rtt_channel (LOGGER_STATE cold_device))"
    "depth (LOGGER_STATE cold_device) = 0"
    using booted_ok(1,2,3) by (simp_all add: cold_device_def logger_ok_def rtt_live_def)
  then show ?thesis
    using e init_region [OF e a assms(3)]
    by (simp add: board_cold_def hardware_ok_def small_bench_def small_board_def uart_live_def)
qed

lemma small_empty:
  assumes "0x20000020 < stop" and "stop < 0x20000020 + max_buf_len"
  shows "log_in_ram (small_bench stop) (small_board (replicate (stop - 0x20000000) 0)) = []"
proof -
  have "le_nat (replicate k 0) = 0" for k by (induction k) simp_all
  then have "rb_header (init_view default_features thumb_abi 0x20000000 stop (replicate (stop - 0x20000000) 0)) \<noteq> MAGIC default_features"
    using assms by (simp add: init_view_def region_view_def load_at_def layout_defs default_features_def thumb_abi_def MAGIC_def)
  then show ?thesis by (simp add: log_in_ram_def small_bench_def small_board_def Let_def)
qed

text \<open>A region of 48 bytes, 16 of them for the ring.\<close>

lemma small_48:
  "length x = 48 \<Longrightarrow> board_cold (small_bench 0x20000030) (small_board x)"
  "log_in_ram (small_bench 0x20000030) (small_board (replicate 48 0)) = []"
  "ram (small_board x) = x" "sent UART0_BASE (uart (small_board x)) = []" "sent UART1_BASE (uart (small_board x)) = []"
  "ring_size (small_bench 0x20000030) = 16"
  "bench_end (small_bench 0x20000030) - bench_start (small_bench 0x20000030) = 48"
  "bench_features (small_bench 0x20000030) = default_features"
proof -
  show "board_cold (small_bench 0x20000030) (small_board x)" if "length x = 48"
    by (rule small_cold) (simp_all add: that max_buf_len_def)
  show "log_in_ram (small_bench 0x20000030) (small_board (replicate 48 0)) = []"
    using small_empty [of "0x20000030"] by (simp add: max_buf_len_def)
qed (simp_all add: small_board_def sent_def ring_size_def small_bench_def layout_defs default_features_def thumb_abi_def)

subsection \<open>Properties\<close>

text \<open>
  C2: \<open>persist_test\<close> from end to end. The first run, on a board without a log, sends the frames of its
  seven messages through UART0 and a dump of the region through UART1. A second run on any cold board whose region
  holds that dump sends the six messages logged before the dump, with the encoding of the
  first run, followed by its own message; this is the expected output of the test.
\<close>

theorem persist_test_two_runs:
  fixes su :: "('e, 'r, 'h, 'w) bench" and b1 :: "('e, 'r, 'h, 'w) board"
  defines "e1 \<equiv> encoder (LOGGER_STATE (dev b1))"
  assumes "board_cold su b1" and "log_in_ram su b1 = []" and "sent UART1_BASE (uart b1) = []"
    and "\<forall>m. stmt_ok su m" and "frame_bytes (stmt_frame su) level_messages e1 \<noteq> []"
    and "length (frame_bytes (stmt_frame su) (level_messages @ [only_in_first]) e1) \<le> ring_size su - 1"
  shows "\<exists>t1. persist_test su b1 = Some (Inr t1) \<and>
     sent UART0_BASE (uart t1) = sent UART0_BASE (uart b1)
       @ frame_bytes (stmt_frame su) (level_messages @ [only_in_first]) e1 \<and>
     length (sent UART1_BASE (uart t1)) = bench_end su - bench_start su \<and>
     (\<forall>b2. board_cold su b2 \<longrightarrow> ram b2 = sent UART1_BASE (uart t1) \<longrightarrow>
        (let f2 = fst (stmt_frame su only_in_second (encoder (LOGGER_STATE (dev b2))))
         in length (frame_bytes (stmt_frame su) level_messages e1) + length f2 \<le> ring_size su - 1 \<longrightarrow>
            (\<exists>t2. persist_test su b2 = Some (Inr t2) \<and>
               sent UART0_BASE (uart t2) = sent UART0_BASE (uart b2)
                 @ frame_bytes (stmt_frame su) level_messages e1 @ f2)))"
proof -
  obtain c where c: "board_init su b1 = Some (Inr c)" "board_ok su c" "content (the_ring c) = []"
    "uart c = uart b1" "encoder (LOGGER_STATE (dev c)) = e1"
    using board_boots [OF assms(2)] assms(3) e1_def by metis
  obtain t m where t: "persist_main (board_log su) (board_drain su) (board_dump su) board_empty c = Some (Inr t)"
    "sent UART0_BASE (uart t) = sent UART0_BASE (uart c)
       @ frame_bytes (stmt_frame su) (level_messages @ [only_in_first]) e1"
    and m: "board_ok su m" "content (the_ring m) = frame_bytes (stmt_frame su) level_messages e1"
      "sent UART1_BASE (uart t) = sent UART1_BASE (uart c) @ board_image su m"
    using bench_device.persist_first_run [OF c(2,3) assms(5)] assms(7) unfolding c(5) by blast
  have "\<exists>t2. persist_test su b2 = Some (Inr t2) \<and> sent UART0_BASE (uart t2) = sent UART0_BASE (uart b2)
       @ frame_bytes (stmt_frame su) level_messages e1
       @ fst (stmt_frame su only_in_second (encoder (LOGGER_STATE (dev b2))))"
    if b2: "board_cold su b2" "ram b2 = sent UART1_BASE (uart t)"
      "length (frame_bytes (stmt_frame su) level_messages e1)
         + length (fst (stmt_frame su only_in_second (encoder (LOGGER_STATE (dev b2))))) \<le> ring_size su - 1" for b2
  proof -
    obtain d where d: "board_init su b2 = Some (Inr d)" "board_ok su d" "uart d = uart b2"
      "encoder (LOGGER_STATE (dev d)) = encoder (LOGGER_STATE (dev b2))" by (rule board_boots [OF b2(1)])
    have "ram b2 = board_image su m" using b2(2) m(3) c(4) assms(4) by simp
    then have q: "content (the_ring d) = frame_bytes (stmt_frame su) level_messages e1"
      using board_image_law [OF b2(1) m(1) _ d(1)] m(2) by simp
    show ?thesis
      using bench_device.persist_second_run [OF d(2) _ assms(5)] b2(3) assms(6)
      unfolding q d(4) by (simp add: persist_test_def d(1,3))
  qed
  moreover have "length (sent UART1_BASE (uart t)) = bench_end su - bench_start su"
    using length_board_image [OF m(1)] m(3) c(4) assms(4) by simp
  ultimately show ?thesis using t c by (simp add: persist_test_def Let_def)
qed

theorem persist_test_two_runs_witness:
  "\<exists>t1 t2. persist_test (small_bench 0x20000030) (small_board (replicate 48 0)) = Some (Inr t1) \<and>
     persist_test (small_bench 0x20000030) (small_board (sent UART1_BASE (uart t1))) = Some (Inr t2) \<and>
     sent UART0_BASE (uart t2) = [1, 0, 1, 0, 1, 0, 1, 0, 1, 0, 1, 0, 1, 0]"
proof -
  let ?su = "small_bench 0x20000030"
  have f: "frame_bytes (stmt_frame ?su) level_messages () = [1, 0, 1, 0, 1, 0, 1, 0, 1, 0, 1, 0]"
    by (simp add: level_messages_def small_frame)
  obtain t1 where t1: "persist_test ?su (small_board (replicate 48 0)) = Some (Inr t1)" "length (sent UART1_BASE (uart t1)) = 48"
      "\<forall>b2. board_cold ?su b2 \<longrightarrow> ram b2 = sent UART1_BASE (uart t1) \<longrightarrow>
        (\<exists>t2. persist_test ?su b2 = Some (Inr t2) \<and>
           sent UART0_BASE (uart t2) = sent UART0_BASE (uart b2) @ [1, 0, 1, 0, 1, 0, 1, 0, 1, 0, 1, 0, 1, 0])"
    using persist_test_two_runs [OF small_48(1) small_48(2) small_48(5) small_stmts]
    unfolding small_48(6,7) frames_of_append fst_conv Let_def by (auto simp: small_frame f small_48)
  show ?thesis using t1(1,3) small_48(1) [OF t1(2)] small_48 by fastforce
qed

text \<open>
  C11: \<open>panic_test\<close> from end to end: the message of a panic survives the reset. The first run
  sends the message that it drains, panics, and its handler logs the panic and dumps the
  region; a second run on any cold board whose region holds that dump sends the message
  that was not drained, the panic, and its own message, and not the drained one again.
\<close>

theorem panic_test_two_runs:
  fixes su :: "('e, 'r, 'h, 'w) bench" and b1 :: "('e, 'r, 'h, 'w) board"
  defines "e1 \<equiv> encoder (LOGGER_STATE (dev b1))"
  defines "lost \<equiv> frame_bytes (stmt_frame su) [undrained_text, Stmt ''error'' ''{}'' (Arg_panic panic_text)]
                    (snd (stmt_frame su drained_text e1))"
  assumes "board_cold su b1" and "log_in_ram su b1 = []" and "sent UART1_BASE (uart b1) = []"
    and "\<forall>m. stmt_ok su m" and "lost \<noteq> []"
    and "length (fst (stmt_frame su drained_text e1)) \<le> ring_size su - 1" and "length lost \<le> ring_size su - 1"
  shows "\<exists>t1. panic_test su b1 = Some (Inr t1) \<and>
     sent UART0_BASE (uart t1) = sent UART0_BASE (uart b1) @ fst (stmt_frame su drained_text e1) \<and>
     length (sent UART1_BASE (uart t1)) = bench_end su - bench_start su \<and>
     (\<forall>b2. board_cold su b2 \<longrightarrow> ram b2 = sent UART1_BASE (uart t1) \<longrightarrow>
        (let f2 = fst (stmt_frame su after_panic (encoder (LOGGER_STATE (dev b2))))
         in length lost + length f2 \<le> ring_size su - 1 \<longrightarrow>
            (\<exists>t2. panic_test su b2 = Some (Inr t2) \<and>
               sent UART0_BASE (uart t2) = sent UART0_BASE (uart b2) @ lost @ f2)))"
proof -
  obtain c where c: "board_init su b1 = Some (Inr c)" "board_ok su c" "content (the_ring c) = []"
    "uart c = uart b1" "encoder (LOGGER_STATE (dev c)) = e1"
    using board_boots [OF assms(3)] assms(4) e1_def by metis
  obtain t m where t: "panic_main (board_log su) (board_drain su) (board_dump su) board_empty c = Some (Inr t)"
    "sent UART0_BASE (uart t) = sent UART0_BASE (uart c) @ fst (stmt_frame su drained_text e1)"
    and m: "board_ok su m" "content (the_ring m) = lost" "sent UART1_BASE (uart t) = board_image su m"
    using bench_device.panic_first_run [OF c(2,3) assms(6)] assms(5,8,9) c(4) unfolding c(5) lost_def by fastforce
  have "\<exists>t2. panic_test su b2 = Some (Inr t2) \<and> sent UART0_BASE (uart t2) = sent UART0_BASE (uart b2)
       @ lost @ fst (stmt_frame su after_panic (encoder (LOGGER_STATE (dev b2))))"
    if b2: "board_cold su b2" "ram b2 = sent UART1_BASE (uart t)"
      "length lost + length (fst (stmt_frame su after_panic (encoder (LOGGER_STATE (dev b2))))) \<le> ring_size su - 1" for b2
  proof -
    obtain d where d: "board_init su b2 = Some (Inr d)" "board_ok su d" "uart d = uart b2"
      "encoder (LOGGER_STATE (dev d)) = encoder (LOGGER_STATE (dev b2))" by (rule board_boots [OF b2(1)])
    have q: "content (the_ring d) = lost"
      using board_image_law [OF b2(1) m(1) _ d(1)] b2(2) m(2,3) by simp
    show ?thesis
      using bench_device.panic_second_run [OF d(2) _ assms(6)] b2(3) assms(7)
      unfolding q d(4) by (simp add: panic_test_def d(1,3))
  qed
  then show ?thesis using t c length_board_image [OF m(1)] m(3) by (simp add: panic_test_def Let_def)
qed

theorem panic_test_two_runs_witness:
  "\<exists>t1 t2. panic_test (small_bench 0x20000030) (small_board (replicate 48 0)) = Some (Inr t1) \<and>
     panic_test (small_bench 0x20000030) (small_board (sent UART1_BASE (uart t1))) = Some (Inr t2) \<and>
     sent UART0_BASE (uart t1) = [1, 0] \<and> sent UART0_BASE (uart t2) = [1, 0, 1, 0, 1, 0]"
proof -
  let ?su = "small_bench 0x20000030"
  obtain t1 where t1: "panic_test ?su (small_board (replicate 48 0)) = Some (Inr t1)" "length (sent UART1_BASE (uart t1)) = 48"
      "sent UART0_BASE (uart t1) = [1, 0]"
      "\<forall>b2. board_cold ?su b2 \<longrightarrow> ram b2 = sent UART1_BASE (uart t1) \<longrightarrow>
        (\<exists>t2. panic_test ?su b2 = Some (Inr t2) \<and> sent UART0_BASE (uart t2) = sent UART0_BASE (uart b2) @ [1, 0, 1, 0, 1, 0])"
    using panic_test_two_runs [OF small_48(1) small_48(2) small_48(5) small_stmts]
    unfolding small_48(6,7) small_frame fst_conv Let_def by (auto simp: small_frame small_48)
  show ?thesis using t1(1,3,4) small_48(1) [OF t1(2)] small_48 by fastforce
qed

text \<open>
  C14: \<open>wraparound_test\<close> loses nothing: if 20 frames fit in the ring, and the region holds at most
  19 frames' worth of old log, then the test returns and UART0 has sent the old log and the
  frames of all 1000 messages, in order, however often the ring has wrapped around.
\<close>

theorem wraparound_test_complete:
  fixes su :: "('e, 'r, 'h, 'w) bench" and b :: "('e, 'r, 'h, 'w) board"
  assumes "board_cold su b" and "\<forall>m. stmt_ok su m"
    and "\<forall>i e. length (fst (stmt_frame su (wraparound_stmt i) e)) \<le> L" and "20 * L \<le> ring_size su - 1"
    and "length (log_in_ram su b) \<le> 19 * L"
  shows "\<exists>t. wraparound_test su b = Some (Inr t) \<and> content (the_ring t) = [] \<and>
     sent UART0_BASE (uart t) = sent UART0_BASE (uart b) @ log_in_ram su b
       @ frame_bytes (stmt_frame su) (map wraparound_stmt [0..<1000]) (encoder (LOGGER_STATE (dev b)))"
proof -
  obtain c where c: "board_init su b = Some (Inr c)" "board_ok su c" "content (the_ring c) = log_in_ram su b"
    "uart c = uart b" "encoder (LOGGER_STATE (dev c)) = encoder (LOGGER_STATE (dev b))"
    by (rule board_boots [OF assms(1)])
  have "length (content (the_ring c)) \<le> (0 + 19) mod 20 * L" using c(3) assms(5) by simp
  from bench_device.wraparound_run [OF assms(3,4,2) c(2) this, of 1000] obtain u
    where u: "wraparound_loop (board_log su) (board_drain su) [0..<1000] c = Some (Inr u)" "board_ok su u"
      "sent UART0_BASE (uart u) @ content (the_ring u) = sent UART0_BASE (uart c) @ content (the_ring c)
        @ frame_bytes (stmt_frame su) (map wraparound_stmt [0..<1000]) (encoder (LOGGER_STATE (dev c)))"
    unfolding add_0 by blast
  show ?thesis
    using board_drain_law [OF u(2)] u(1,3) c
    by (auto simp: wraparound_test_def wraparound_main_def simp del: upt_conv_Cons)
qed

theorem wraparound_test_complete_witness:
  "\<exists>t. wraparound_test (small_bench 0x20000050) (small_board (replicate 80 0)) = Some (Inr t) \<and> content (the_ring t) = []"
proof -
  let ?su = "small_bench 0x20000050" and ?b = "small_board (replicate 80 0)"
  have cold: "board_cold ?su ?b" by (rule small_cold) (simp_all add: max_buf_len_def)
  have l: "log_in_ram ?su ?b = []" using small_empty [of "0x20000050"] by (simp add: max_buf_len_def)
  have "ring_size ?su = 48" by (simp add: ring_size_def small_bench_def layout_defs default_features_def thumb_abi_def)
  then show ?thesis
    using wraparound_test_complete [OF cold small_stmts, of 2] by (auto simp: small_frame l)
qed

end
