(* ===== verification/HostIO.thy ===== *)
theory HostIO
  imports Prelude
begin

text \<open>
  The host side of the tests: what \<open>xtask\<close> does with the outside world, and its two tool
  wrappers \<open>xtask/src/qemu.rs\<close> and \<open>xtask/src/defmt.rs\<close>. A computation takes and returns the
  state of the host (its files) and may fail with an error that \<open>?\<close> passes up, panic, or not
  return. QEMU, the \<open>defmt\<close> decoder, temporary file names and failures of the file system are
  parameters, fields of \<open>tools\<close>. Messages on the console are not modelled. A string is the list
  of its UTF-8 code units.
\<close>

subsection \<open>Computations\<close>

type_synonym path = string

definition NL :: char where
  "NL = CHR 0x0A"

definition CR :: char where
  "CR = CHR 0x0D"

text \<open>\<open>Path::join\<close>: an absolute path replaces the path before it.\<close>

definition path_join :: "path \<Rightarrow> path \<Rightarrow> path" where
  "path_join p q =
     (if take 1 q = ''/'' then q
      else if p = [] \<or> last p = CHR ''/'' then p @ q
      else p @ ''/'' @ q)"

text \<open>
  \<open>Path::parent\<close> and \<open>Path::file_name\<close> ignore separators and components \<open>.\<close> at the end of a path.
  A path is written backwards in \<open>trim_back\<close>.
\<close>

fun trim_back :: "string \<Rightarrow> string" where
  "trim_back (c # d # cs) =
     (if c = CHR ''/'' then trim_back (d # cs)
      else if c = CHR ''.'' \<and> d = CHR ''/'' then trim_back (d # cs)
      else c # d # cs)"
| "trim_back cs = cs"

definition parent_path :: "path \<Rightarrow> path" where
  "parent_path p = rev (trim_back (dropWhile (\<lambda>c. c \<noteq> CHR ''/'') (trim_back (rev p))))"

definition file_name :: "path \<Rightarrow> string" where
  "file_name p = rev (takeWhile (\<lambda>c. c \<noteq> CHR ''/'') (trim_back (rev p)))"

record host_state =
  files :: "path \<Rightarrow> u8 list option"
  temps :: nat

text \<open>The errors of \<open>std::env::var\<close>.\<close>

datatype VarError = NotPresent | NotUnicode

text \<open>\<open>Failed\<close> is an \<open>anyhow\<close> error, \<open>Panicked\<close> a panic.\<close>

datatype failure = Failed string | Panicked fault

type_synonym 'a io = "host_state \<Rightarrow> ((failure + 'a) \<times> host_state) option"

definition return :: "'a \<Rightarrow> 'a io" where
  "return x s = Some (Inr x, s)"

definition bail :: "string \<Rightarrow> 'a io" where
  "bail msg s = Some (Inl (Failed msg), s)"

definition io_bind :: "'a io \<Rightarrow> ('a \<Rightarrow> 'b io) \<Rightarrow> 'b io" where
  "io_bind m f s =
     (case m s of
        None \<Rightarrow> None
      | Some (Inl e, s') \<Rightarrow> Some (Inl e, s')
      | Some (Inr x, s') \<Rightarrow> f x s')"

definition or_panic :: "'a res \<Rightarrow> 'a io" where
  "or_panic r s = (case r of Inl e \<Rightarrow> Some (Inl (Panicked e), s) | Inr x \<Rightarrow> Some (Inr x, s))"

lemma io_simps [simp]:
  "io_bind (return x) f = f x"
  "io_bind (bail msg) f = bail msg"
  "or_panic (Inr x) = return x"
  by (simp_all add: io_bind_def return_def bail_def or_panic_def fun_eq_iff)

lemma io_bind_step: "m s = Some (Inr x, s') \<Longrightarrow> io_bind m f s = f x s'"
  by (simp add: io_bind_def)

subsection \<open>Tools\<close>

record frame =
  level :: "string option"
  display_message :: string

datatype decode_error = UnexpectedEof | Malformed

text \<open>What is left of a QEMU process.\<close>

record qemu_exit =
  status_success :: bool
  process_stdout :: "u8 list"

record ('t, 'd) tools =
  temp_path :: "nat \<Rightarrow> path option"           \<comment> \<open>the \<open>n\<close>-th temporary file, if it can be created\<close>
  can_write :: "path \<Rightarrow> bool"
  can_create_dir :: "path \<Rightarrow> bool"
  valid_utf8 :: "u8 list \<Rightarrow> bool"
  qemu :: "string list \<Rightarrow> host_state \<Rightarrow> (qemu_exit \<times> host_state) option"
                                               \<comment> \<open>\<open>None\<close>: the process cannot be started\<close>
  table_parse :: "u8 list \<Rightarrow> 't option option"  \<comment> \<open>\<open>None\<close>: an error; \<open>Some None\<close>: no defmt data\<close>
  new_stream_decoder :: "'t \<Rightarrow> 'd"
  received :: "u8 list \<Rightarrow> 'd \<Rightarrow> 'd"
  decode :: "'d \<Rightarrow> (decode_error + frame) \<times> 'd"

subsection \<open>The standard library's file functions\<close>

definition fs_read :: "path \<Rightarrow> u8 list io" where
  "fs_read p s = (case files s p of None \<Rightarrow> bail p s | Some b \<Rightarrow> return b s)"

definition fs_write :: "('t, 'd) tools \<Rightarrow> path \<Rightarrow> u8 list \<Rightarrow> unit io" where
  "fs_write ts p b s = (if can_write ts p then return () (s\<lparr>files := (files s)(p := Some b)\<rparr>) else bail p s)"

definition fs_create_dir_all :: "('t, 'd) tools \<Rightarrow> path \<Rightarrow> unit io" where
  "fs_create_dir_all ts p = (if can_create_dir ts p then return () else bail p)"

definition to_bytes :: "string \<Rightarrow> u8 list" where
  "to_bytes = map (\<lambda>c. of_nat (of_char c))"

definition of_bytes :: "u8 list \<Rightarrow> string" where
  "of_bytes = map (\<lambda>b. char_of (unat b))"

lemma of_to_bytes [simp]: "of_bytes (to_bytes x) = x"
proof -
  have "char_of (unat (of_nat (of_char c) :: u8)) = c" for c
  proof -
    have "(of_char c :: nat) < 256" by (rule nat_of_char_less_256)
    then show ?thesis by (simp add: unat_of_nat)
  qed
  then show ?thesis by (simp add: of_bytes_def to_bytes_def comp_def)
qed

lemma to_of_bytes [simp]: "to_bytes (of_bytes b) = b"
proof -
  have "of_nat (of_char (char_of (unat w) :: char)) = w" for w :: u8
  proof -
    have "unat w < 256" using unsigned_less [of w] by simp
    then show ?thesis by simp
  qed
  then show ?thesis by (simp add: of_bytes_def to_bytes_def comp_def)
qed

definition fs_read_to_string :: "('t, 'd) tools \<Rightarrow> path \<Rightarrow> string io" where
  "fs_read_to_string ts p =
     io_bind (fs_read p) (\<lambda>b. if valid_utf8 ts b then return (of_bytes b) else bail p)"

text \<open>\<open>NamedTempFile::new\<close>: the file exists and is empty.\<close>

definition new_temp_file :: "('t, 'd) tools \<Rightarrow> path io" where
  "new_temp_file ts s =
     (case temp_path ts (temps s) of
        None \<Rightarrow> bail ''Failed to create temp file'' s
      | Some p \<Rightarrow> return p (s\<lparr>temps := temps s + 1, files := (files s)(p := Some [])\<rparr>))"

subsection \<open>QEMU\<close>

record QemuOutput =
  semihosting :: "u8 list"
  uart0 :: "u8 list"
  uart1 :: "u8 list"

record MemoryLoad =
  load_file :: path
  load_addr :: u32

definition hex_digit :: "nat \<Rightarrow> char" where
  "hex_digit d = ''0123456789abcdef'' ! d"

fun hex_digits :: "nat \<Rightarrow> string" where
  "hex_digits n = (if n < 16 then [hex_digit n] else hex_digits (n div 16) @ [hex_digit (n mod 16)])"

declare hex_digits.simps [simp del]

definition qemu_args :: "path \<Rightarrow> path \<Rightarrow> path \<Rightarrow> MemoryLoad option \<Rightarrow> string list" where
  "qemu_args elf_path uart0_path uart1_path memory_load =
     [''-cpu'', ''cortex-m3'', ''-machine'', ''lm3s6965evb'', ''-nographic'', ''-monitor'', ''none'',
      ''-semihosting-config'', ''enable=on,target=native'',
      ''-serial'', ''file:'' @ uart0_path, ''-serial'', ''file:'' @ uart1_path]
     @ (case memory_load of
          None \<Rightarrow> []
        | Some load \<Rightarrow> [''-device'',
            ''loader,file='' @ load_file load @ '',addr=0x'' @ hex_digits (unat (load_addr load)) @ '',force-raw=on''])
     @ [''-kernel'', elf_path]"

definition run_qemu :: "('t, 'd) tools \<Rightarrow> path \<Rightarrow> MemoryLoad option \<Rightarrow> QemuOutput io" where
  "run_qemu ts elf_path memory_load =
     io_bind (new_temp_file ts) (\<lambda>uart0_path.
     io_bind (new_temp_file ts) (\<lambda>uart1_path.
     (\<lambda>s. case qemu ts (qemu_args elf_path uart0_path uart1_path memory_load) s of
            None \<Rightarrow> bail ''Failed to run QEMU'' s
          | Some (output, s1) \<Rightarrow>
              if \<not> status_success output then bail ''QEMU exited with error'' s1
              else
                let u0 = (case files s1 uart0_path of None \<Rightarrow> [] | Some b \<Rightarrow> b);
                    u1 = (case files s1 uart1_path of None \<Rightarrow> [] | Some b \<Rightarrow> b)
                in return \<lparr>semihosting = process_stdout output, uart0 = u0, uart1 = u1\<rparr> s1)))"

subsection \<open>Decoding defmt output\<close>

text \<open>\<open>to_uppercase\<close> on ASCII, and the padding of \<open>{:<5}\<close>.\<close>

definition to_uppercase :: "string \<Rightarrow> string" where
  "to_uppercase = map (\<lambda>c. let n = of_char c :: nat in if 97 \<le> n \<and> n \<le> 122 then char_of (n - 32) else c)"

definition pad_right :: "nat \<Rightarrow> string \<Rightarrow> string" where
  "pad_right n x = x @ replicate (n - length x) (CHR '' '')"

definition format_frame :: "frame \<Rightarrow> string" where
  "format_frame f =
     (let lvl = to_uppercase (case level f of None \<Rightarrow> ''print'' | Some l \<Rightarrow> l)
      in ''['' @ pad_right 5 lvl @ ''] '' @ display_message f)"

partial_function (option) decode_loop ::
    "('t, 'd) tools \<Rightarrow> 'd \<Rightarrow> string \<Rightarrow> (failure + string) option" where
  "decode_loop ts decoder output =
     (case decode ts decoder of
        (r, decoder') \<Rightarrow>
          (case r of
             Inr frame \<Rightarrow> decode_loop ts decoder' (output @ format_frame frame @ [NL])
           | Inl e \<Rightarrow> (if e = UnexpectedEof then Some (Inr output) else Some (Inl (Failed ''Malformed defmt frame'')))))"

definition decode_output :: "('t, 'd) tools \<Rightarrow> path \<Rightarrow> u8 list \<Rightarrow> string io" where
  "decode_output ts elf_path raw_output =
     io_bind (fs_read elf_path) (\<lambda>elf_data.
     (case table_parse ts elf_data of
        None \<Rightarrow> bail ''Failed to parse defmt table from ELF''
      | Some None \<Rightarrow> bail ''No defmt data found in ELF''
      | Some (Some table) \<Rightarrow>
          (\<lambda>s. case decode_loop ts (received ts raw_output (new_stream_decoder ts table)) [] of
                 None \<Rightarrow> None
               | Some r \<Rightarrow> Some (r, s))))"

subsection \<open>A small host\<close>

text \<open>Every file can be written, every program prints one byte, and every input decodes to one frame.\<close>

definition empty_host :: host_state where
  "empty_host = \<lparr>files = (\<lambda>p. None), temps = 0\<rparr>"

definition dull_tools :: "(unit, bool) tools" where
  "dull_tools =
     \<lparr>temp_path = (\<lambda>n. Some (replicate n (CHR ''t''))), can_write = (\<lambda>p. True), can_create_dir = (\<lambda>p. True), valid_utf8 = (\<lambda>b. True),
      qemu = (\<lambda>args s. Some (\<lparr>status_success = True, process_stdout = [1]\<rparr>,
        s\<lparr>files := (files s)(drop 5 (args ! 10) := Some [1], drop 5 (args ! 12) := Some (replicate 24 0))\<rparr>)),
      table_parse = (\<lambda>b. Some (Some ())), new_stream_decoder = (\<lambda>t. True), received = (\<lambda>b d. d),
      decode = (\<lambda>d. (if d then Inr \<lparr>level = None, display_message = ''x''\<rparr> else Inl UnexpectedEof, False))\<rparr>"

end
