(* ===== verification/HostSpec.thy ===== *)
theory HostSpec
  imports HostIO
begin

text \<open>
  What the host code relies on of the tools that are not in the repository, as documented: how QEMU
  reads its command line, that a decoder of \<open>defmt\<close> frames yields finitely many frames and then an
  error, and that temporary files are new and writable. Nothing is assumed of \<open>run_qemu\<close> and
  \<open>decode_output\<close>; what they return follows here from the assumptions on the tools. A small set of tools that
  satisfies them, with a QEMU that parses its command line, ends the theory.
\<close>

subsection \<open>The command line of QEMU\<close>

text \<open>The values given for an option.\<close>

fun option_values :: "string \<Rightarrow> string list \<Rightarrow> string list" where
  "option_values opt (x # y # args) =
     (if x = opt then y # option_values opt args else option_values opt (y # args))"
| "option_values opt args = []"

text \<open>The number that lower-case hexadecimal digits stand for.\<close>

definition hex_chars :: string where
  "hex_chars = ''0123456789abcdef''"

definition digit_value :: "char \<Rightarrow> nat" where
  "digit_value c = (let n = of_char c in if n < 97 then n - 48 else n - 87)"

definition hex_value :: "string \<Rightarrow> nat" where
  "hex_value ds = foldl (\<lambda>v c. 16 * v + digit_value c) 0 ds"

text \<open>What a \<open>-device loader\<close> asks for: the contents of a file at an address. A comma would
  end the file name, and the file is not one that a serial port is written to.\<close>

definition loads :: "string list \<Rightarrow> host_state \<Rightarrow> (nat \<times> u8 list) option \<Rightarrow> bool" where
  "loads args s ld \<longleftrightarrow>
     (case ld of
        None \<Rightarrow> option_values ''-device'' args = []
      | Some (a, img) \<Rightarrow> \<exists>p ds. option_values ''-device'' args = [''loader,file='' @ p @ '',addr=0x'' @ ds @ '',force-raw=on''] \<and>
          CHR '','' \<notin> set p \<and> ''file:'' @ p \<notin> set (option_values ''-serial'' args) \<and> set ds \<subseteq> set hex_chars \<and> hex_value ds = a \<and> files s p = Some img)"

text \<open>
  \<open>run e ld\<close> is what the emulated machine puts out when it runs the program \<open>e\<close> with the memory loaded with \<open>ld\<close>:
  semihosting goes to the standard output of the process, the two serial ports to the files named by the two \<open>-serial\<close>.
\<close>

definition qemu_emulates :: "('t, 'd) tools \<Rightarrow> (u8 list \<Rightarrow> (nat \<times> u8 list) option \<Rightarrow> QemuOutput) \<Rightarrow> bool" where
  "qemu_emulates ts run \<longleftrightarrow>
     (\<forall>args s elf e p0 p1 ld.
        option_values ''-cpu'' args = [''cortex-m3''] \<and> option_values ''-machine'' args = [''lm3s6965evb''] \<and>
        ''-nographic'' \<in> set args \<and> option_values ''-monitor'' args = [''none''] \<and>
        option_values ''-semihosting-config'' args = [''enable=on,target=native''] \<and>
        option_values ''-serial'' args = [''file:'' @ p0, ''file:'' @ p1] \<and> p0 \<noteq> p1 \<and> elf \<noteq> p0 \<and> elf \<noteq> p1 \<and>
        option_values ''-kernel'' args = [elf] \<and> files s elf = Some e \<and> loads args s ld \<longrightarrow>
        qemu ts args s = Some (\<lparr>status_success = True, process_stdout = semihosting (run e ld)\<rparr>,
          s\<lparr>files := (files s)(p0 := Some (uart0 (run e ld)), p1 := Some (uart1 (run e ld)))\<rparr>))"

lemma digit_value_hex: "d < 16 \<Longrightarrow> digit_value (hex_digit d) = d \<and> hex_digit d \<in> set hex_chars"
  by (simp add: hex_digit_def digit_value_def hex_chars_def less_Suc_eq numeral_eq_Suc)
    (elim disjE; simp add: of_char_def)

lemma hex_value_snoc: "hex_value (ds @ [c]) = 16 * hex_value ds + digit_value c"
  by (simp add: hex_value_def)

lemma hex_value_digits: "hex_value (hex_digits n) = n \<and> set (hex_digits n) \<subseteq> set hex_chars"
proof (induction n rule: hex_digits.induct)
  case (1 n)
  show ?case
  proof (cases "n < 16")
    case True
    then show ?thesis using digit_value_hex [OF True] by (subst (1 2) hex_digits.simps) (simp add: hex_value_def)
  next
    case False
    have "hex_digits n = hex_digits (n div 16) @ [hex_digit (n mod 16)]"
      using False by (subst hex_digits.simps) simp
    then show ?thesis
      using 1 [OF False] digit_value_hex [of "n mod 16"] by (simp add: hex_value_snoc)
  qed
qed

subsection \<open>Decoders\<close>

text \<open>A decoder that yields the frames \<open>fs\<close> and then the error \<open>e\<close>.\<close>

fun decodes_as :: "('t, 'd) tools \<Rightarrow> 'd \<Rightarrow> frame list \<Rightarrow> decode_error \<Rightarrow> bool" where
  "decodes_as ts d [] e = (fst (decode ts d) = Inl e)"
| "decodes_as ts d (f # fs) e = (fst (decode ts d) = Inr f \<and> decodes_as ts (snd (decode ts d)) fs e)"

text \<open>\<open>dec raw\<close>: the frames in the bytes \<open>raw\<close>, and why the decoder stops after them.\<close>

definition decoder_works :: "('t, 'd) tools \<Rightarrow> u8 list \<Rightarrow> (u8 list \<Rightarrow> frame list \<times> decode_error) \<Rightarrow> bool" where
  "decoder_works ts e dec \<longleftrightarrow>
     (\<exists>t. table_parse ts e = Some (Some t) \<and>
        (\<forall>raw. decodes_as ts (received ts raw (new_stream_decoder ts t)) (fst (dec raw)) (snd (dec raw))))"

definition frames_text :: "frame list \<Rightarrow> string" where
  "frames_text fs = concat (map (\<lambda>f. format_frame f @ [NL]) fs)"

definition decoded :: "frame list \<times> decode_error \<Rightarrow> failure + string" where
  "decoded r = (case r of (fs, UnexpectedEof) \<Rightarrow> Inr (frames_text fs) | (fs, Malformed) \<Rightarrow> Inl (Failed ''Malformed defmt frame''))"

lemma decode_loop_frames:
  "decodes_as ts d fs e \<Longrightarrow>
   decode_loop ts d out = Some (case e of UnexpectedEof \<Rightarrow> Inr (out @ frames_text fs) | Malformed \<Rightarrow> Inl (Failed ''Malformed defmt frame''))"
proof (induction fs arbitrary: d out)
  case Nil
  then show ?case
    by (subst decode_loop.simps) (cases e; cases "decode ts d"; simp add: frames_text_def)
next
  case (Cons f fs)
  obtain d' where d': "decode ts d = (Inr f, d')" "decodes_as ts d' fs e" using Cons.prems by (cases "decode ts d") auto
  show ?case
    using Cons.IH [OF d'(2)] d'(1) by (subst decode_loop.simps) (simp add: frames_text_def cong: decode_error.case_cong)
qed

lemma decode_output_decodes:
  assumes "decoder_works ts e dec" "files s elf = Some e"
  shows "decode_output ts elf raw s = Some (decoded (dec raw), s)"
proof -
  obtain t where t: "table_parse ts e = Some (Some t)"
    "decodes_as ts (received ts raw (new_stream_decoder ts t)) (fst (dec raw)) (snd (dec raw))"
    using assms(1) unfolding decoder_works_def by blast
  show ?thesis
    using decode_loop_frames [OF t(2), of "[]"] t(1) assms(2)
    by (simp add: decode_output_def io_bind_def fs_read_def return_def decoded_def split: prod.splits decode_error.splits)
qed

subsection \<open>Files\<close>

text \<open>Temporary files can be created and written; their names are new and no name that QEMU would misread.\<close>

definition temps_work :: "('t, 'd) tools \<Rightarrow> path \<Rightarrow> bool" where
  "temps_work ts elf \<longleftrightarrow>
     (\<forall>n. \<exists>p. temp_path ts n = Some p \<and> p \<noteq> elf \<and> CHR '','' \<notin> set p \<and> can_write ts p) \<and>
     (\<forall>m n. temp_path ts m = temp_path ts n \<longrightarrow> m = n)"

lemma new_temp_file_works:
  assumes "temps_work ts elf"
  obtains p where "temp_path ts (temps s) = Some p" "p \<noteq> elf" "CHR '','' \<notin> set p" "can_write ts p"
    "new_temp_file ts s = Some (Inr p, s\<lparr>temps := temps s + 1, files := (files s)(p := Some [])\<rparr>)"
  using assms unfolding temps_work_def new_temp_file_def return_def by (metis option.case(2))

text \<open>\<open>run_qemu\<close> returns what the machine puts out, for the program and the image in the files it is given.\<close>

lemma run_qemu_emulates:
  assumes q: "qemu_emulates ts run" and w: "temps_work ts elf" and e: "files s elf = Some e"
    and ld: "ld = None \<and> x = None \<or>
      (\<exists>k p img. ld = Some \<lparr>load_file = p, load_addr = a\<rparr> \<and> x = Some (unat a, img) \<and>
         k < temps s \<and> temp_path ts k = Some p \<and> files s p = Some img)"
  shows "\<exists>s'. run_qemu ts elf ld s = Some (Inr (run e x), s') \<and> files s' elf = Some e \<and> temps s' = temps s + 2"
proof -
  obtain p0 where p0: "temp_path ts (temps s) = Some p0" "p0 \<noteq> elf"
    "new_temp_file ts s = Some (Inr p0, s\<lparr>temps := temps s + 1, files := (files s)(p0 := Some [])\<rparr>)" (is "_ = Some (_, ?s1)")
    using new_temp_file_works [OF w] by metis
  obtain p1 where p1: "temp_path ts (temps ?s1) = Some p1" "p1 \<noteq> elf"
    "new_temp_file ts ?s1 = Some (Inr p1, ?s1\<lparr>temps := temps ?s1 + 1, files := (files ?s1)(p1 := Some [])\<rparr>)" (is "_ = Some (_, ?s2)")
    using new_temp_file_works [OF w] by metis
  have inj: "m = n" if "temp_path ts m = temp_path ts n" for m n using w that by (simp add: temps_work_def)
  have ne: "p0 \<noteq> p1" using inj [of "temps s" "temps ?s1"] p0(1) p1(1) by auto
  let ?args = "qemu_args elf p0 p1 ld"
  have prog: "files ?s2 elf = Some e" using e p0(2) p1(2) by simp
  have loads: "loads ?args ?s2 x"
    using ld
  proof (elim disjE exE conjE)
    fix k p img
    assume l: "ld = Some \<lparr>load_file = p, load_addr = a\<rparr>" "x = Some (unat a, img)" "k < temps s"
      "temp_path ts k = Some p" "files s p = Some img"
    have "p \<noteq> p0" "p \<noteq> p1" using inj [of k "temps s"] inj [of k "temps ?s1"] l(3,4) p0(1) p1(1) by auto
    moreover have "CHR '','' \<notin> set p" using w l(4) unfolding temps_work_def by (metis option.inject)
    ultimately show ?thesis
      using l hex_value_digits [of "unat a"] by (auto simp: loads_def qemu_args_def)
  qed (simp add: loads_def qemu_args_def)
  have dev: "option_values ''-serial'' ?args = [''file:'' @ p0, ''file:'' @ p1] \<and> option_values ''-kernel'' ?args = [elf] \<and>
      option_values ''-cpu'' ?args = [''cortex-m3''] \<and> option_values ''-machine'' ?args = [''lm3s6965evb''] \<and>
      ''-nographic'' \<in> set ?args \<and> option_values ''-monitor'' ?args = [''none''] \<and>
      option_values ''-semihosting-config'' ?args = [''enable=on,target=native'']"
    using ld by (auto simp: qemu_args_def)
  have "qemu ts ?args ?s2 = Some (\<lparr>status_success = True, process_stdout = semihosting (run e x)\<rparr>,
      ?s2\<lparr>files := (files ?s2)(p0 := Some (uart0 (run e x)), p1 := Some (uart1 (run e x)))\<rparr>)"
    by (rule q [unfolded qemu_emulates_def, rule_format, where args = ?args and s = ?s2 and elf = elf and e = e and ?p0.0 = p0 and ?p1.0 = p1 and ld = x])
      (use dev ne p0(2) p1(2) loads prog in blast)
  then show ?thesis
    using p0 p1 e ne by (simp add: run_qemu_def io_bind_def return_def)
qed

subsection \<open>Tools for the witnesses\<close>

text \<open>
  What QEMU leaves with \<open>dull_tools\<close>: one byte on the first UART and 24 on the second, whatever is
  loaded; everything decodes to one letter.
\<close>

definition dull_output :: "u8 list option \<Rightarrow> QemuOutput" where
  "dull_output x = \<lparr>semihosting = [1], uart0 = [1], uart1 = replicate 24 0\<rparr>"

lemma dull_qemu:
  "run_qemu dull_tools elf ld s = Some (Inr (dull_output x),
     s\<lparr>temps := temps s + 2,
       files := (files s)(replicate (temps s) (CHR ''t'') := Some [1], replicate (Suc (temps s)) (CHR ''t'') := Some (replicate 24 0))\<rparr>)"
  by (simp add: run_qemu_def new_temp_file_def io_bind_def return_def dull_tools_def dull_output_def qemu_args_def
      fun_upd_twist)

lemma dull_decode: "files s elf = Some e \<Longrightarrow> decode_output dull_tools elf b s = Some (Inr (''[PRINT] x'' @ [NL]), s)"
proof -
  have "decode_loop dull_tools False out = Some (Inr out)" for out
    by (subst decode_loop.simps) (simp add: dull_tools_def)
  then have "decode_loop dull_tools True [] = Some (Inr (''[PRINT] x'' @ [NL]))"
    by (subst decode_loop.simps)
      (simp add: dull_tools_def format_frame_def to_uppercase_def pad_right_def Let_def char_of_def bit_Suc_0_iff)
  then show "files s elf = Some e \<Longrightarrow> ?thesis"
    by (simp add: decode_output_def io_bind_def fs_read_def return_def) (simp add: dull_tools_def)
qed

text \<open>A QEMU that parses its command line, and a decoder for which anything not empty is one frame.\<close>

definition parse_load :: "string \<Rightarrow> path \<times> nat" where
  "parse_load x =
     (let p = takeWhile (\<lambda>c. c \<noteq> CHR '','') (drop 12 x)
      in (p, hex_value (takeWhile (\<lambda>c. c \<noteq> CHR '','') (drop 8 (drop (length p) (drop 12 x))))))"

definition parsing_qemu ::
    "(u8 list \<Rightarrow> (nat \<times> u8 list) option \<Rightarrow> QemuOutput) \<Rightarrow> string list \<Rightarrow> host_state \<Rightarrow> (qemu_exit \<times> host_state) option" where
  "parsing_qemu run args s =
     (case (option_values ''-serial'' args, option_values ''-kernel'' args) of
        ([f0, f1], [elf]) \<Rightarrow>
          (case files s elf of
             None \<Rightarrow> None
           | Some e \<Rightarrow>
               let ld = (case option_values ''-device'' args of
                     [] \<Rightarrow> None
                   | d # _ \<Rightarrow> (case parse_load d of (p, a) \<Rightarrow> map_option (Pair a) (files s p)));
                   r = run e ld
               in Some (\<lparr>status_success = True, process_stdout = semihosting r\<rparr>,
                    s\<lparr>files := (files s)(drop 5 f0 := Some (uart0 r), drop 5 f1 := Some (uart1 r))\<rparr>))
      | _ \<Rightarrow> None)"

lemma parse_load:
  assumes "CHR '','' \<notin> set p" "set ds \<subseteq> set hex_chars"
  shows "parse_load (''loader,file='' @ p @ '',addr=0x'' @ ds @ '',force-raw=on'') = (p, hex_value ds)"
proof -
  have take: "takeWhile (\<lambda>c. c \<noteq> CHR '','') (x @ CHR '','' # y) = x" if "CHR '','' \<notin> set x" for x y :: string
    using that by (induction x) auto
  have "CHR '','' \<notin> set ds" using assms(2) by (auto simp: hex_chars_def)
  then show ?thesis using take [OF assms(1)] take [of ds] by (simp add: parse_load_def Let_def)
qed

lemmas parse_load_chars = parse_load [simplified]

definition working_tools :: "(u8 list \<Rightarrow> (nat \<times> u8 list) option \<Rightarrow> QemuOutput) \<Rightarrow> (unit, bool) tools" where
  "working_tools run = dull_tools\<lparr>qemu := parsing_qemu run, received := (\<lambda>b d. b \<noteq> [])\<rparr>"

definition one_frame :: "u8 list \<Rightarrow> frame list \<times> decode_error" where
  "one_frame raw = (if raw = [] then [] else [\<lparr>level = None, display_message = ''x''\<rparr>], UnexpectedEof)"

lemma working_qemu: "qemu_emulates (working_tools run) run"
proof -
  have "parsing_qemu run args s = Some (\<lparr>status_success = True, process_stdout = semihosting (run e ld)\<rparr>,
      s\<lparr>files := (files s)(p0 := Some (uart0 (run e ld)), p1 := Some (uart1 (run e ld)))\<rparr>)"
    if "option_values ''-serial'' args = [''file:'' @ p0, ''file:'' @ p1]" "option_values ''-kernel'' args = [elf]"
      "files s elf = Some e" "loads args s ld" for args s elf e p0 p1 ld
    using that by (cases ld) (auto simp: parsing_qemu_def loads_def parse_load_chars Let_def)
  then show ?thesis by (simp add: qemu_emulates_def working_tools_def)
qed

lemma working_decoder: "decoder_works (working_tools run) e one_frame"
  by (simp add: decoder_works_def working_tools_def dull_tools_def one_frame_def)

lemma working_temps: "temps_work (working_tools run) ''elf''"
proof -
  have "replicate n (CHR ''t'') \<noteq> ''elf''" for n by (cases n) simp_all
  moreover have "replicate m (CHR ''t'') = replicate n (CHR ''t'') \<Longrightarrow> m = n" for m n by (metis length_replicate)
  ultimately show ?thesis by (auto simp: temps_work_def working_tools_def dull_tools_def)
qed

end
