(* ===== verification/Corrupt.thy ===== *)
theory Corrupt
  imports Region HostSpec
begin

text \<open>
  The corruption test of the test runner (\<open>xtask/src/corrupt.rs\<close>): the corruption flags, what
  they do to a snapshot of the persist region, and the verdict over all scenarios. QEMU, the
  decoder of \<open>defmt\<close> frames and the file system are parameters that may fail. Shown: the
  corruptions are those that recovery must detect; and, with tools that behave as theory \<open>HostSpec\<close> says, the verdict is the conjunction over
  all combinations of flags, or the error for a malformed frame.
\<close>

subsection \<open>Flags and their effect\<close>

record CorruptFlags =
  cf_header :: bool
  cf_read :: bool
  cf_write :: bool

fun join_with :: "string \<Rightarrow> string list \<Rightarrow> string" where
  "join_with sep [] = []"
| "join_with sep [x] = x"
| "join_with sep (x # y # ys) = x @ sep @ join_with sep (y # ys)"

definition CorruptFlags_name :: "CorruptFlags \<Rightarrow> string" where
  "CorruptFlags_name f =
     (let parts = (if cf_header f then [''header''] else []) @ (if cf_read f then [''read''] else [])
                  @ (if cf_write f then [''write''] else [])
      in if parts = [] then ''none'' else join_with ''+'' parts)"

definition CorruptFlags_any :: "CorruptFlags \<Rightarrow> bool" where
  "CorruptFlags_any f = (cf_header f \<or> cf_read f \<or> cf_write f)"

definition all_combinations :: "CorruptFlags list" where
  "all_combinations =
     [\<lparr>cf_header = False, cf_read = False, cf_write = False\<rparr>,
      \<lparr>cf_header = True, cf_read = False, cf_write = False\<rparr>,
      \<lparr>cf_header = False, cf_read = True, cf_write = False\<rparr>,
      \<lparr>cf_header = False, cf_read = False, cf_write = True\<rparr>,
      \<lparr>cf_header = True, cf_read = True, cf_write = False\<rparr>,
      \<lparr>cf_header = True, cf_read = False, cf_write = True\<rparr>,
      \<lparr>cf_header = False, cf_read = True, cf_write = True\<rparr>,
      \<lparr>cf_header = True, cf_read = True, cf_write = True\<rparr>]"

text \<open>\<open>v[i] = x\<close> on a \<open>Vec\<close>.\<close>

definition assign_at :: "nat \<Rightarrow> u8 \<Rightarrow> u8 list \<Rightarrow> u8 list res" where
  "assign_at i x v = (if i < length v then Inr (v[i := x]) else Inl OutOfBounds)"

text \<open>The offsets are those of the host's build of the crate: \<open>a\<close> is the host's ABI.\<close>

definition apply_corruption :: "features \<Rightarrow> abi \<Rightarrow> u8 list \<Rightarrow> CorruptFlags \<Rightarrow> u8 list res" where
  "apply_corruption ft a snapshot flags =
     (let corrupted = snapshot in
      res_bind (if cf_header flags then assign_at (HEADER ft a) 0 corrupted else Inr corrupted) (\<lambda>corrupted.
      res_bind (if cf_read flags then assign_at (READ ft a + INDEX_SIZE - 1) 0xff corrupted else Inr corrupted) (\<lambda>corrupted.
      if cf_write flags then assign_at (WRITE ft a + INDEX_SIZE - 1) 0xff corrupted else Inr corrupted)))"

subsection \<open>The test\<close>

definition PERSIST_ADDR :: u32 where
  "PERSIST_ADDR = 0x2000FC00"

definition scenario_passed :: "CorruptFlags \<Rightarrow> string \<Rightarrow> string \<Rightarrow> string \<Rightarrow> bool" where
  "scenario_passed flags result_semihosting result_uart0 phase1_uart0 =
     (if CorruptFlags_any flags then result_semihosting \<noteq> [] \<and> result_uart0 = phase1_uart0
      else result_semihosting = [] \<and> result_uart0 \<noteq> [])"

fun run_scenarios ::
    "features \<Rightarrow> abi \<Rightarrow> ('t, 'd) tools \<Rightarrow> path \<Rightarrow> path \<Rightarrow> u8 list \<Rightarrow> string \<Rightarrow> CorruptFlags list \<Rightarrow> bool \<Rightarrow> bool io" where
  "run_scenarios ft a ts elf_path snapshot_file snapshot phase1_uart0 [] all_passed = return all_passed"
| "run_scenarios ft a ts elf_path snapshot_file snapshot phase1_uart0 (flags # scenarios) all_passed =
     io_bind (or_panic (apply_corruption ft a snapshot flags)) (\<lambda>corrupted.
     io_bind (fs_write ts snapshot_file corrupted) (\<lambda>_.
     io_bind (run_qemu ts elf_path (Some \<lparr>load_file = snapshot_file, load_addr = PERSIST_ADDR\<rparr>)) (\<lambda>result.
     io_bind (decode_output ts elf_path (semihosting result)) (\<lambda>result_semihosting.
     io_bind (decode_output ts elf_path (uart0 result)) (\<lambda>result_uart0.
       let passed = scenario_passed flags result_semihosting result_uart0 phase1_uart0
       in run_scenarios ft a ts elf_path snapshot_file snapshot phase1_uart0 scenarios
            (if \<not> passed then False else all_passed))))))"

definition run_corrupt :: "features \<Rightarrow> abi \<Rightarrow> ('t, 'd) tools \<Rightarrow> path \<Rightarrow> bool \<Rightarrow> bool io" where
  "run_corrupt ft a ts elf_path verbose =
     io_bind (run_qemu ts elf_path None) (\<lambda>phase1.
     io_bind (decode_output ts elf_path (uart0 phase1)) (\<lambda>phase1_uart0.
     io_bind (if verbose then io_bind (decode_output ts elf_path (semihosting phase1)) (\<lambda>_. return ()) else return ()) (\<lambda>_.
       if uart1 phase1 = [] then return False
       else
         io_bind (new_temp_file ts) (\<lambda>snapshot_file.
           run_scenarios ft a ts elf_path snapshot_file (uart1 phase1) phase1_uart0 all_combinations True))))"

subsection \<open>Corrupted bytes on the target\<close>

lemma le_nat_mod: "bs \<noteq> [] \<Longrightarrow> le_nat bs mod 256 = unat (hd bs)"
proof -
  assume "bs \<noteq> []"
  moreover have "unat (hd bs) < 256" using unsigned_less [of "hd bs"] by simp
  ultimately show ?thesis by (cases bs) simp_all
qed

lemma le_nat_last: "bs \<noteq> [] \<Longrightarrow> 256 ^ (length bs - 1) * unat (last bs) \<le> le_nat bs"
proof (induction bs)
  case (Cons b bs)
  show ?case
  proof (cases "bs = []")
    case False
    then obtain n where n: "length bs = Suc n" by (cases bs) auto
    have "256 ^ n * unat (last bs) \<le> le_nat bs" using Cons False n by simp
    then show ?thesis using False n by simp
  qed simp
qed simp

text \<open>What the target reads from an image whose bytes at the corrupted offsets are set.\<close>

lemma view_bad_header:
  assumes "abi_ok a" "length bytes = size_of_RingBuffer ft a + n" "bytes ! 0 = 0"
  shows "rb_header (region_view ft a n bytes) \<noteq> MAGIC ft"
proof -
  note lay = layout_offsets [OF assms(1), of ft] layout_size [OF assms(1), of ft]
  let ?bs = "load_at 0 16 bytes"
  have l: "length ?bs = 16" using lay(5) assms(2) by simp
  then have ne: "?bs \<noteq> []" by auto
  have "hd ?bs = 0" using ne assms(3) by (simp add: load_at_def hd_conv_nth)
  then have m: "le_nat ?bs mod 256 = 0" using le_nat_mod [OF ne] by simp
  have "unat (rb_header (region_view ft a n bytes)) = le_nat ?bs"
    using unat_of_nat_le_nat [of ?bs, where 'a = 128] l by (simp add: region_view_def lay(1))
  moreover have "unat (MAGIC ft) mod 256 \<noteq> 0" by (simp add: MAGIC_def)
  ultimately show ?thesis using m by metis
qed

lemma bad_index:
  assumes "length bytes \<ge> off + 4" "bytes ! (off + 3) = 0xff"
  shows "max_buf_len \<le> as_usize (of_nat (le_nat (load_at off 4 bytes)) :: u32)"
proof -
  let ?bs = "load_at off 4 bytes"
  have l: "length ?bs = 4" using assms(1) by simp
  then have ne: "?bs \<noteq> []" by auto
  have "last ?bs = bytes ! (off + 3)" using l ne assms(1) by (simp add: last_conv_nth load_at_def)
  then have "256 ^ 3 * 255 \<le> le_nat ?bs" using le_nat_last [OF ne] l assms(2) by simp
  moreover have "as_usize (of_nat (le_nat ?bs) :: u32) = le_nat ?bs"
    using unat_of_nat_le_nat [of ?bs, where 'a = 32] l by (simp add: as_usize_def)
  ultimately show ?thesis by (simp add: max_buf_len_def)
qed

lemma corruption_image:
  assumes h: "abi_ok h" and len: "24 \<le> length snapshot"
  shows "\<exists>img. apply_corruption ft h snapshot flags = Inr img \<and> length img = length snapshot \<and>
    (cf_header flags \<longrightarrow> img ! 0 = 0) \<and> (cf_read flags \<longrightarrow> img ! 19 = 0xff) \<and> (cf_write flags \<longrightarrow> img ! 23 = 0xff) \<and>
    (\<not> CorruptFlags_any flags \<longrightarrow> img = snapshot)"
proof -
  have o: "HEADER ft h = 0" "READ ft h + INDEX_SIZE - 1 = 19" "WRITE ft h + INDEX_SIZE - 1 = 23"
    using layout_offsets [OF h, of ft] by (simp_all add: INDEX_SIZE_def)
  have "snapshot \<noteq> []" using len by auto
  then show ?thesis using len
    unfolding apply_corruption_def o assign_at_def CorruptFlags_any_def
    by (cases "cf_header flags"; cases "cf_read flags"; cases "cf_write flags") (simp_all add: Let_def)
qed

lemma corruption_recovers:
  assumes ok: "ring_ok v" "rb_header v = MAGIC ft" "feat_ecc ft \<or> rb_ecc_flush v = 0"
    and r: "region_ok ft a start end bytes" "length (buf v) = end - start - size_of_RingBuffer ft a" and h: "abi_ok h"
  shows "\<exists>img w. apply_corruption ft h (region_store ft a v bytes) flags = Inr img \<and>
    recover_or_reinitialize ft a start end img = Inr w \<and> ring_ok w \<and> rb_header w = MAGIC ft \<and>
    content w = (if CorruptFlags_any flags then [] else content v) \<and> length img = end - start"
proof -
  let ?snap = "region_store ft a v bytes" and ?n = "end - start - size_of_RingBuffer ft a"
  note st = recover_stored [OF ok r]
  have a: "abi_ok a" and len: "length ?snap = size_of_RingBuffer ft a + ?n"
    using st(1) by (auto simp: region_ok_def)
  have "24 \<le> length ?snap" using layout_size [OF a, of ft] len by simp
  then obtain img where img: "apply_corruption ft h ?snap flags = Inr img" "length img = length ?snap"
    "cf_header flags \<longrightarrow> img ! 0 = 0" "cf_read flags \<longrightarrow> img ! 19 = 0xff" "cf_write flags \<longrightarrow> img ! 23 = 0xff"
    "\<not> CorruptFlags_any flags \<longrightarrow> img = ?snap"
    using corruption_image [OF h] by blast
  have ri: "region_ok ft a start end img" using st(1) img(2) by (simp add: region_ok_def)
  let ?u = "region_view ft a ?n img"
  note rec = recover_or_reinitialize_eq [OF ri]
  show ?thesis
  proof (cases "CorruptFlags_any flags")
    case True
    have "rb_header ?u \<noteq> MAGIC ft \<or> \<not> indices_ok ?u"
    proof (cases "cf_header flags")
      case True
      then show ?thesis using view_bad_header [OF a, of img ft ?n] img(2,3) len by simp
    next
      case False
      have l: "length img \<ge> 24" using \<open>24 \<le> length ?snap\<close> img(2) by simp
      have "max_buf_len \<le> as_usize (rb_read ?u) \<or> max_buf_len \<le> as_usize (rb_write ?u)"
        using bad_index [of 16 img] bad_index [of 20 img] img(4,5) l False True
          layout_offsets [OF a, of ft] by (auto simp: region_view_def CorruptFlags_any_def)
      then show ?thesis using rec(2,4) by (auto simp: indices_ok_def)
    qed
    moreover have "0 < length (buf ?u)" using rec(2,3) by simp
    ultimately have "content (recover ft ?u) = []" using recover_content [of ?u ft] by (simp only:) auto
    then show ?thesis using img(1) rec recover_ok [of ?u ft] True ri by (auto simp: region_ok_def)
  next
    case False
    then show ?thesis using img(1,6) st(2) ok(1,2) ri by (simp add: region_ok_def)
  qed
qed

subsection \<open>The verdict\<close>

lemma all_combinations_all: "f \<in> set all_combinations"
  by (cases f) (auto simp: all_combinations_def)

lemma all_combinations_distinct: "distinct all_combinations"
  by (simp add: all_combinations_def)

text \<open>
  \<open>q ld\<close> is what the machine puts out for the program under test with \<open>ld\<close> loaded, \<open>dec\<close> what the decoder makes of
  bytes. The run of a scenario loads the corrupted snapshot of the first run at the address of the region.
\<close>

definition scenario_run ::
    "features \<Rightarrow> abi \<Rightarrow> ((nat \<times> u8 list) option \<Rightarrow> QemuOutput) \<Rightarrow> CorruptFlags \<Rightarrow> QemuOutput" where
  "scenario_run ft a q f =
     (case apply_corruption ft a (uart1 (q None)) f of Inl e \<Rightarrow> q None | Inr img \<Rightarrow> q (Some (unat PERSIST_ADDR, img)))"

definition readable :: "(u8 list \<Rightarrow> frame list \<times> decode_error) \<Rightarrow> u8 list \<Rightarrow> bool" where
  "readable dec raw \<longleftrightarrow> snd (dec raw) = UnexpectedEof"

definition text_of :: "(u8 list \<Rightarrow> frame list \<times> decode_error) \<Rightarrow> u8 list \<Rightarrow> string" where
  "text_of dec raw = frames_text (fst (dec raw))"

definition run_readable :: "(u8 list \<Rightarrow> frame list \<times> decode_error) \<Rightarrow> QemuOutput \<Rightarrow> bool" where
  "run_readable dec r \<longleftrightarrow> readable dec (semihosting r) \<and> readable dec (uart0 r)"

definition scenario_ok ::
    "features \<Rightarrow> abi \<Rightarrow> ((nat \<times> u8 list) option \<Rightarrow> QemuOutput) \<Rightarrow> (u8 list \<Rightarrow> frame list \<times> decode_error) \<Rightarrow> CorruptFlags \<Rightarrow> bool" where
  "scenario_ok ft a q dec f \<longleftrightarrow>
     scenario_passed f (text_of dec (semihosting (scenario_run ft a q f))) (text_of dec (uart0 (scenario_run ft a q f)))
       (text_of dec (uart0 (q None)))"

lemma decoded_cases: "decoded (dec raw) = (if readable dec raw then Inr (text_of dec raw) else Inl (Failed ''Malformed defmt frame''))"
  by (cases "dec raw"; cases "snd (dec raw)") (simp_all add: decoded_def readable_def text_of_def)

lemma run_scenarios_works:
  assumes q: "qemu_emulates ts run" and w: "temps_work ts elf" and dec: "decoder_works ts e dec" and h: "abi_ok a"
    and len: "24 \<le> length (uart1 (run e None))" and p: "temp_path ts k = Some p"
  shows "files s elf = Some e \<Longrightarrow> k < temps s \<Longrightarrow>
    \<exists>s'. run_scenarios ft a ts elf p (uart1 (run e None)) (text_of dec (uart0 (run e None))) fs acc s =
      Some (if \<forall>f\<in>set fs. run_readable dec (scenario_run ft a (run e) f)
            then Inr (acc \<and> (\<forall>f\<in>set fs. scenario_ok ft a (run e) dec f)) else Inl (Failed ''Malformed defmt frame''), s')"
proof (induction fs arbitrary: acc s)
  case Nil
  show ?case by (simp add: return_def)
next
  case (Cons f fs)
  let ?r = "scenario_run ft a (run e) f" and ?out = "text_of dec (uart0 (run e None))"
  let ?snap = "uart1 (run e None)" and ?ld = "Some \<lparr>load_file = p, load_addr = PERSIST_ADDR\<rparr>"
  obtain img where img: "apply_corruption ft a ?snap f = Inr img" using corruption_image [OF h len] by blast
  then have r: "?r = run e (Some (unat PERSIST_ADDR, img))" by (simp add: scenario_run_def)
  let ?s1 = "s\<lparr>files := (files s)(p := Some img)\<rparr>"
  have tp: "p \<noteq> elf" "can_write ts p" using w p unfolding temps_work_def by (metis option.inject)+
  have "\<exists>s'. run_qemu ts elf ?ld ?s1 = Some (Inr ?r, s') \<and> files s' elf = Some e \<and> temps s' = temps ?s1 + 2"
    unfolding r by (rule run_qemu_emulates [OF q w]) (use Cons.prems tp p in auto)
  then obtain s2 where s2: "run_qemu ts elf ?ld ?s1 = Some (Inr ?r, s2)" "files s2 elf = Some e" "k < temps s2"
    using Cons.prems(2) by auto
  note d = decode_output_decodes [OF dec s2(2), unfolded decoded_cases]
  have step: "run_scenarios ft a ts elf p ?snap ?out (f # fs) acc s =
      (if run_readable dec ?r then run_scenarios ft a ts elf p ?snap ?out fs
          (if \<not> scenario_passed f (text_of dec (semihosting ?r)) (text_of dec (uart0 ?r)) ?out then False else acc) s2
       else Some (Inl (Failed ''Malformed defmt frame''), s2))"
    using tp by (simp add: img io_bind_def fs_write_def s2(1) d Let_def return_def run_readable_def)
  show ?case
  proof (cases "run_readable dec ?r")
    case True
    then show ?thesis
      using Cons.IH [OF s2(2,3), of "if \<not> scenario_passed f (text_of dec (semihosting ?r)) (text_of dec (uart0 ?r)) ?out then False else acc"]
        step by (fastforce simp: scenario_ok_def)
  qed (use step in auto)
qed

text \<open>The whole test, once the first run has left a snapshot.\<close>

lemma run_corrupt_snapshot:
  assumes q: "qemu_emulates ts run" and dec: "decoder_works ts e dec" and w: "temps_work ts elf" and h: "abi_ok a"
    and e: "files s elf = Some e" and len: "24 \<le> length (uart1 (run e None))"
  shows "\<exists>s'. run_corrupt ft a ts elf verbose s =
     Some (if readable dec (uart0 (run e None)) \<and> (verbose \<longrightarrow> readable dec (semihosting (run e None))) \<and>
             (\<forall>f. run_readable dec (scenario_run ft a (run e) f))
           then Inr (\<forall>f. scenario_ok ft a (run e) dec f) else Inl (Failed ''Malformed defmt frame''), s')"
proof -
  obtain s1 where s1: "run_qemu ts elf None s = Some (Inr (run e None), s1)" "files s1 elf = Some e"
    using run_qemu_emulates [OF q w e, of None None] by auto
  note d = decode_output_decodes [OF dec s1(2), unfolded decoded_cases]
  obtain p where p: "temp_path ts (temps s1) = Some p" "p \<noteq> elf"
    "new_temp_file ts s1 = Some (Inr p, s1\<lparr>temps := temps s1 + 1, files := (files s1)(p := Some [])\<rparr>)" (is "_ = Some (_, ?s2)")
    using new_temp_file_works [OF w] by metis
  have all: "set all_combinations = UNIV" using all_combinations_all by blast
  have "files ?s2 elf = Some e" "temps s1 < temps ?s2" using s1(2) p(2) by simp_all
  from run_scenarios_works [OF q w dec h len p(1) this, of ft all_combinations True] len show ?thesis
    by (cases "uart1 (run e None)") (auto simp: run_corrupt_def io_bind_def s1(1) d p(3) return_def all)
qed

subsection \<open>Properties\<close>

text \<open>
  C17: each corruption that the test applies to a snapshot of a valid region is one that the
  target detects: with any flag set, recovery from the corrupted image ends in a valid, empty
  ring, and with no flag set it finds the queued bytes; the offsets that the host uses are
  right for the target although the two differ in the alignment of \<open>u128\<close>.
\<close>

theorem corruption_detected:
  assumes "ring_ok v" and "rb_header v = MAGIC ft" and "feat_ecc ft \<or> rb_ecc_flush v = 0"
    and "region_ok ft a start end bytes" and "length (buf v) = end - start - size_of_RingBuffer ft a"
    and "abi_ok h"
  shows "\<exists>img w. apply_corruption ft h (region_store ft a v bytes) flags = Inr img \<and>
    recover_or_reinitialize ft a start end img = Inr w \<and> ring_ok w \<and>
    content w = (if CorruptFlags_any flags then [] else content v)"
  using corruption_recovers [OF assms] by blast

theorem corruption_detected_witness:
  "\<exists>img w. apply_corruption default_features host_abi
       (region_store default_features thumb_abi (RingBuffer_new default_features 3 1 [7, 0, 0, 6]) (replicate 36 0))
       \<lparr>cf_header = False, cf_read = True, cf_write = False\<rparr> = Inr img \<and>
     recover_or_reinitialize default_features thumb_abi 0x20000000 0x20000024 img = Inr w \<and> content w = []"
proof -
  let ?v = "RingBuffer_new default_features 3 1 [7, 0, 0, 6]"
  have ok: "ring_ok ?v" by (simp add: ring_eval)
  have r: "region_ok default_features thumb_abi 0x20000000 0x20000024 (replicate 36 0)"
    and l: "length (buf ?v) = 0x20000024 - 0x20000000 - size_of_RingBuffer default_features thumb_abi"
    and e: "feat_ecc default_features \<or> rb_ecc_flush ?v = 0" and h: "abi_ok host_abi"
    by (simp_all add: region_ok_def abi_ok_def layout_defs default_features_def thumb_abi_def host_abi_def
        usize_limit_def max_buf_len_def)
  from corruption_detected [OF ok RingBuffer_new_fields(4) e r l h,
      of "\<lparr>cf_header = False, cf_read = True, cf_write = False\<rparr>"]
  show ?thesis by (auto simp: CorruptFlags_any_def)
qed



end
