(* ===== verification/Scenarios.thy ===== *)
theory Scenarios
  imports Examples Corrupt
begin

text \<open>
  The example \<open>corrupt_test\<close> under the corruption test of the runner: what the device does with
  the snapshot of its first run after the host has applied each of the eight combinations of
  corruptions to it, on its UARTs and on semihosting; and that the test of the runner passes when the machine that
  QEMU emulates is this device.
\<close>

subsection \<open>The two branches of the program\<close>

definition fresh_text :: log_stmt where
  "fresh_text = stmt ''info'' ''corrupt test: fresh buffer''"

context log_device
begin

lemma corrupt_fresh_run:
  assumes "valid b" "queue b = []" "\<forall>m. admissible m" "length (fst (frame fresh_text (enc b))) \<le> cap"
  shows "\<exists>t m. corrupt_main log drain dump no_data b = Some (Inr t) \<and> out0 t = out0 b @ fst (frame fresh_text (enc b)) \<and>
     valid m \<and> queue m = fst (frame fresh_text (enc b)) \<and> out1 t = out1 b @ image m"
proof -
  have fit: "length (queue b) + length (fst (frame fresh_text (enc b))) \<le> cap" using assms(2,4) by simp
  obtain t where t: "log fresh_text b = Some (Inr t)" "valid t" "queue t = fst (frame fresh_text (enc b))"
    "out0 t = out0 b" "out1 t = out1 b"
    by (rule log_fits [OF assms(1) _ fit]) (use assms(2,3) in auto)
  obtain u where u: "dump t = Some (Inr u)" "valid u" "queue u = queue t" "out0 u = out0 t" "out1 u = out1 t @ image t"
    using dump_law [OF t(2)] by blast
  show ?thesis
    using drain_law [OF u(2)] t u no_data_law [OF assms(1)] assms(2)
    by (fastforce simp: corrupt_main_def simp flip: fresh_text_def)
qed

lemma corrupt_recovered_run:
  assumes "valid b" "queue b \<noteq> []"
  shows "corrupt_main log drain dump no_data b = drain b"
  using no_data_law [OF assms(1)] assms(2) by (simp add: corrupt_main_def)

end

text \<open>Draining logs nothing: semihosting is not written to.\<close>

lemma board_drain_silent:
  "board_drain su b = Some (Inr t) \<Longrightarrow>
   world (LOGGER_STATE (dev t)) = world (LOGGER_STATE (dev b)) \<and> stdout (LOGGER_STATE (dev t)) = stdout (LOGGER_STATE (dev b))"
  by (cases "drain_to_uart (bench_features su) (bench_regs su) (the_ring b) (uart b)" rule: option.exhaust)
    (auto simp: board_drain_def elim!: run_bind.elims split: prod.splits)

lemma board_init_silent:
  "board_cold su b \<Longrightarrow> board_init su b = Some (Inr t) \<Longrightarrow>
   world (LOGGER_STATE (dev t)) = world (LOGGER_STATE (dev b)) \<and> stdout (LOGGER_STATE (dev t)) = stdout (LOGGER_STATE (dev b))"
  using board_init_law(1) [of su b] by (auto simp: LoggerState_initialize_def)

text \<open>
  What is known of semihosting, as documented: the standard output can be opened, a write appends its bytes to what has been
  written (\<open>out\<close> of the outside world), and entering and leaving a critical section writes nothing.
\<close>

definition semihosting_works :: "('e, 'r, 'h, 'w) platform \<Rightarrow> ('w \<Rightarrow> u8 list) \<Rightarrow> bool" where
  "semihosting_works pf out \<longleftrightarrow>
     (\<forall>w. fst (hstdout pf w) \<noteq> None \<and> out (snd (hstdout pf w)) = out w) \<and>
     (\<forall>b h w. out (snd (hstdout_write_all pf b h w)) = out w @ b) \<and>
     (\<forall>w. out (snd (critical_section_acquire pf w)) = out w) \<and> (\<forall>r w. out (critical_section_release pf r w) = out w)"

abbreviation console :: "('w \<Rightarrow> u8 list) \<Rightarrow> ('e, 'r, 'h, 'w) board \<Rightarrow> u8 list" where
  "console out b \<equiv> out (world (LOGGER_STATE (dev b)))"

lemma semihosting_write_out:
  assumes sh: "semihosting_works pf out"
  shows "out (snd (semihosting_write pf c st)) = out (snd st) @ c"
proof -
  obtain h w where hw: "(if fst st = None then hstdout pf (snd st) else st) = (Some h, w)" "out w = out (snd st)"
  proof (cases "fst st")
    case None
    obtain x w where x: "hstdout pf (snd st) = (x, w)" by fastforce
    then have "x \<noteq> None" "out w = out (snd st)" using sh unfolding semihosting_works_def by (metis fst_conv, metis snd_conv)
    then show ?thesis using that x None by auto
  next
    case (Some h)
    then show ?thesis using that [of h "snd st"] by (cases st) simp
  qed
  obtain h' w' where w': "hstdout_write_all pf c h w = (h', w')" by fastforce
  have "out w' = out w @ c" using sh w' unfolding semihosting_works_def by (metis snd_conv)
  then show ?thesis using hw w' by (simp add: semihosting_write_def Let_def)
qed

lemma semihosting_fold:
  "semihosting_works pf out \<Longrightarrow> out (snd (fold (semihosting_write pf) cs st)) = out (snd st) @ concat cs"
  by (induction cs arbitrary: st) (simp_all add: semihosting_write_out)

text \<open>With the feature \<open>qemu-test\<close> every log statement writes its frame to semihosting too.\<close>

lemma board_log_console:
  assumes ok: "board_ok su b" and m: "stmt_ok su m" and sh: "semihosting_works (bench_platform su) out"
    and ft: "feat_qemu_test (bench_features su)" and run: "board_log su m b = Some (Inr t)"
  shows "console out t = console out b @ fst (stmt_frame su m (encoder (LOGGER_STATE (dev b))))"
proof -
  let ?s = "LOGGER_STATE (dev b)" and ?pf = "bench_platform su"
  obtain cs e where f: "encode_frame ?pf (own_writes 0 (bench_expand su m)) (encoder ?s) = (cs, e)" by fastforce
  have s: "logger_ok ?s" "depth ?s = 0" "rtt_live (bench_features su) ?pf ?s" "length (bench_expand su m) + 2 < usize_limit"
    using ok m by (simp_all add: board_ok_def hardware_ok_def stmt_ok_def)
  obtain u where u: "log_run (bench_features su) ?pf (Acquire # bench_expand su m @ [Release]) ?s = Some (Inr u)"
    "frame_done (bench_features su) ?pf cs ?s u"
    using frame_runs [OF stmt_ok_body [OF m] s(4,2,1,3)] f by auto
  obtain r w1 where acq: "critical_section_acquire ?pf (world ?s) = (r, w1)" by fastforce
  have w1: "out w1 = out (world ?s)" using sh acq unfolding semihosting_works_def by (metis snd_conv)
  have "world u = critical_section_release ?pf r (snd (fold (semihosting_write ?pf) cs (stdout ?s, w1)))"
    using u(2) acq ft by (auto simp: frame_done_def split: prod.splits)
  then have "out (world u) = out (world ?s) @ concat cs"
    using sh semihosting_fold [OF sh, of cs "(stdout ?s, w1)"] w1 by (simp add: semihosting_works_def)
  then show ?thesis using run u(1) f by (auto simp: board_log_def stmt_frame_def)
qed

lemma board_dump_silent: "board_dump su b = Some (Inr t) \<Longrightarrow> dev t = dev b"
  by (cases "dump_persist_region (bench_regs su) (bench_start su) (bench_end su) (board_image su b) (uart b)" rule: option.exhaust)
    (auto simp: board_dump_def elim!: run_bind.elims)

lemma corrupt_fresh_console:
  assumes ok: "board_ok su b" "content (the_ring b) = []" and m: "\<forall>m. stmt_ok su m"
    and sh: "semihosting_works (bench_platform su) out" and ft: "feat_qemu_test (bench_features su)"
    and run: "corrupt_main (board_log su) (board_drain su) (board_dump su) board_empty b = Some (Inr t)"
  shows "console out t = console out b @ fst (stmt_frame su fresh_text (encoder (LOGGER_STATE (dev b))))"
proof -
  have "board_empty b" using bench_device.no_data_law [OF ok(1)] ok(2) by simp
  then have r: "run_bind (board_log su fresh_text b) (\<lambda>b. run_bind (board_dump su b) (board_drain su)) = Some (Inr t)"
    using run by (simp add: corrupt_main_def flip: fresh_text_def)
  obtain u where u: "board_log su fresh_text b = Some (Inr u)" "board_ok su u" using board_log_law [OF ok(1)] m by blast
  obtain v where v: "board_dump su u = Some (Inr v)" using board_dump_law [OF u(2)] by blast
  have "board_drain su v = Some (Inr t)" using r u(1) v by simp
  then show ?thesis
    using board_log_console [OF ok(1) _ sh ft u(1)] m board_dump_silent [OF v] board_drain_silent by metis
qed

lemma corrupted_log:
  assumes m: "board_ok su m" and h: "abi_ok h"
  shows "\<exists>img. apply_corruption (bench_features su) h (board_image su m) flags = Inr img \<and>
    length img = bench_end su - bench_start su \<and>
    (\<forall>b. board_cold su b \<longrightarrow> ram b = img \<longrightarrow>
       log_in_ram su b = (if CorruptFlags_any flags then [] else content (the_ring m)))"
proof -
  let ?ft = "bench_features su"
  have v: "ring_ok (the_ring m)" "rb_header (the_ring m) = MAGIC ?ft" "feat_ecc ?ft \<or> rb_ecc_flush (the_ring m) = 0"
    "region_ok ?ft (bench_abi su) (bench_start su) (bench_end su) (ram m)"
    "length (buf (the_ring m)) = bench_end su - bench_start su - size_of_RingBuffer ?ft (bench_abi su)"
    using m by (simp_all add: board_ok_def hardware_ok_def logger_ok_def ring_size_def)
  obtain img w where w: "apply_corruption ?ft h (board_image su m) flags = Inr img"
    "recover_or_reinitialize ?ft (bench_abi su) (bench_start su) (bench_end su) img = Inr w"
    "content w = (if CorruptFlags_any flags then [] else content (the_ring m))" "length img = bench_end su - bench_start su"
    using corruption_recovers [OF v h, of flags] unfolding board_image_def by blast
  have "log_in_ram su b = content w" if "board_cold su b" "ram b = img" for b
  proof -
    have r: "region_ok ?ft (bench_abi su) (bench_start su) (bench_end su) img"
      using that by (simp add: board_cold_def hardware_ok_def)
    have "content (recover ?ft (init_view ?ft (bench_abi su) (bench_start su) (bench_end su) img)) = content w"
      using init_recovers(1) [OF r] w(2) by simp
    moreover have "0 < length (buf (init_view ?ft (bench_abi su) (bench_start su) (bench_end su) img))"
      using recover_or_reinitialize_eq(2,3) [OF r] by (simp add: init_view_def)
    ultimately show ?thesis by (simp add: recover_content log_in_ram_def Let_def that(2))
  qed
  then show ?thesis using w by auto
qed

text \<open>
  A power-up of the program: the memory decides whether an old log is found. If not, the frame goes to UART0 and
  to semihosting; if so, the old log goes to UART0 and nothing to semihosting.
\<close>

lemma corrupt_power_up:
  fixes su :: "('e, 'r, 'h, 'w) bench" and b :: "('e, 'r, 'h, 'w) board"
  defines "f \<equiv> fst (stmt_frame su fresh_text (encoder (LOGGER_STATE (dev b))))"
  assumes b: "board_cold su b" and ok: "\<forall>m. stmt_ok su m" and sh: "semihosting_works (bench_platform su) out"
    and ft: "feat_qemu_test (bench_features su)"
  shows "log_in_ram su b = [] \<Longrightarrow> length f \<le> ring_size su - 1 \<Longrightarrow>
      \<exists>t m. corrupt_test su b = Some (Inr t) \<and> sent UART0_BASE (uart t) = sent UART0_BASE (uart b) @ f \<and>
        console out t = console out b @ f \<and> board_ok su m \<and> content (the_ring m) = f \<and>
        sent UART1_BASE (uart t) = sent UART1_BASE (uart b) @ board_image su m"
    and "log_in_ram su b \<noteq> [] \<Longrightarrow>
      \<exists>t. corrupt_test su b = Some (Inr t) \<and> sent UART0_BASE (uart t) = sent UART0_BASE (uart b) @ log_in_ram su b \<and>
        console out t = console out b"
proof -
  obtain d where d: "board_init su b = Some (Inr d)" "board_ok su d" "content (the_ring d) = log_in_ram su b" "uart d = uart b"
    "encoder (LOGGER_STATE (dev d)) = encoder (LOGGER_STATE (dev b))"
    by (rule board_boots [OF b])
  have con: "console out d = console out b" using board_init_silent [OF b d(1)] by simp
  show "\<exists>t m. corrupt_test su b = Some (Inr t) \<and> sent UART0_BASE (uart t) = sent UART0_BASE (uart b) @ f \<and>
        console out t = console out b @ f \<and> board_ok su m \<and> content (the_ring m) = f \<and>
        sent UART1_BASE (uart t) = sent UART1_BASE (uart b) @ board_image su m"
    if q: "log_in_ram su b = []" "length f \<le> ring_size su - 1"
  proof -
    have e: "content (the_ring d) = []" using d(3) q(1) by simp
    obtain t m where t: "corrupt_main (board_log su) (board_drain su) (board_dump su) board_empty d = Some (Inr t)"
      "sent UART0_BASE (uart t) = sent UART0_BASE (uart b) @ f" "board_ok su m" "content (the_ring m) = f"
      "sent UART1_BASE (uart t) = sent UART1_BASE (uart b) @ board_image su m"
      using bench_device.corrupt_fresh_run [OF d(2) e ok] q(2) d(4,5) unfolding f_def by fastforce
    then show ?thesis
      using corrupt_fresh_console [OF d(2) e ok sh ft t(1)] con d(1,5) by (auto simp: corrupt_test_def f_def)
  qed
  show "\<exists>t. corrupt_test su b = Some (Inr t) \<and> sent UART0_BASE (uart t) = sent UART0_BASE (uart b) @ log_in_ram su b \<and>
        console out t = console out b" if q: "log_in_ram su b \<noteq> []"
  proof -
    obtain u where u: "board_drain su d = Some (Inr u)" "sent UART0_BASE (uart u) = sent UART0_BASE (uart d) @ log_in_ram su b"
      using board_drain_law [OF d(2)] d(3) by auto
    have "corrupt_test su b = Some (Inr u)"
      using bench_device.corrupt_recovered_run [OF d(2)] d(3) q u(1) by (simp add: corrupt_test_def d(1))
    then show ?thesis using u d(4) con board_drain_silent [OF u(1)] by auto
  qed
qed

subsection \<open>The device under the test of the host\<close>

text \<open>
  What an emulation of the board puts out when the program runs on it, started with nothing sent and nothing
  written. The last case does not arise where it is used: the program returns.
\<close>

definition emulated :: "('e, 'r, 'h, 'w) bench \<Rightarrow> ('w \<Rightarrow> u8 list) \<Rightarrow> ('e, 'r, 'h, 'w) board \<Rightarrow> QemuOutput" where
  "emulated su out b =
     (case corrupt_test su b of
        Some (Inr t) \<Rightarrow> \<lparr>semihosting = console out t, uart0 = sent UART0_BASE (uart t), uart1 = sent UART1_BASE (uart t)\<rparr>
      | _ \<Rightarrow> \<lparr>semihosting = [], uart0 = [], uart1 = []\<rparr>)"

text \<open>The machine whose memory is the one of \<open>b\<close> unless an image is loaded at the address of the region.\<close>

definition board_machine ::
    "('e, 'r, 'h, 'w) bench \<Rightarrow> ('w \<Rightarrow> u8 list) \<Rightarrow> ('e, 'r, 'h, 'w) board \<Rightarrow> (nat \<times> u8 list) option \<Rightarrow> QemuOutput" where
  "board_machine su out b ld =
     emulated su out (case ld of None \<Rightarrow> b | Some (a, img) \<Rightarrow> if a = bench_start su then b\<lparr>ram := img\<rparr> else b)"

lemma board_cold_reload: "board_cold su b \<Longrightarrow> length img = bench_end su - bench_start su \<Longrightarrow> board_cold su (b\<lparr>ram := img\<rparr>)"
  by (simp add: board_cold_def hardware_ok_def region_ok_def)

lemma frames_text_empty: "frames_text fs = [] \<longleftrightarrow> fs = []"
  by (cases fs) (simp_all add: frames_text_def)

lemma machine_outputs:
  fixes su :: "('e, 'r, 'h, 'w) bench" and b :: "('e, 'r, 'h, 'w) board" and out :: "'w \<Rightarrow> u8 list"
  defines "f \<equiv> fst (stmt_frame su fresh_text (encoder (LOGGER_STATE (dev b))))" and "q \<equiv> board_machine su out b"
  assumes b: "board_cold su b" "log_in_ram su b = []" "uart b = \<lparr>reads = r, writes = []\<rparr>" "console out b = []"
    and f: "\<forall>m. stmt_ok su m" "f \<noteq> []" "length f \<le> ring_size su - 1" and h: "abi_ok h"
    and sh: "semihosting_works (bench_platform su) out" "feat_qemu_test (bench_features su)"
    and a: "bench_start su = unat PERSIST_ADDR"
  shows "semihosting (q None) = f" "uart0 (q None) = f" "24 \<le> length (uart1 (q None))"
    "uart0 (scenario_run (bench_features su) h q flags) = f"
    "semihosting (scenario_run (bench_features su) h q flags) = (if CorruptFlags_any flags then f else [])"
proof -
  have sent: "sent p (uart b) = []" for p using b(3) by (simp add: sent_def)
  note power = corrupt_power_up [OF _ f(1) sh]
  obtain t m where t: "corrupt_test su b = Some (Inr t)" "sent UART0_BASE (uart t) = f" "console out t = f" "board_ok su m"
    "content (the_ring m) = f" "sent UART1_BASE (uart t) = board_image su m"
    using power(1) [OF b(1,2)] f(3) b(4) sent unfolding f_def by auto
  then have q: "q None = \<lparr>semihosting = f, uart0 = f, uart1 = board_image su m\<rparr>"
    by (simp add: q_def board_machine_def emulated_def)
  then show "semihosting (q None) = f" "uart0 (q None) = f" by simp_all
  have r: "region_ok (bench_features su) (bench_abi su) (bench_start su) (bench_end su) (ram m)"
    using t(4) by (simp add: board_ok_def hardware_ok_def)
  show "24 \<le> length (uart1 (q None))"
    using q length_board_image [OF t(4)] r layout_size [of "bench_abi su" "bench_features su"] by (simp add: region_ok_def)
  obtain img where img: "apply_corruption (bench_features su) h (board_image su m) flags = Inr img"
    "length img = bench_end su - bench_start su"
    "\<And>c. board_cold su c \<Longrightarrow> ram c = img \<Longrightarrow> log_in_ram su c = (if CorruptFlags_any flags then [] else f)"
    using corrupted_log [OF t(4) h, of flags] t(5) by blast
  let ?c = "b\<lparr>ram := img\<rparr>"
  have c: "board_cold su ?c" by (rule board_cold_reload [OF b(1) img(2)])
  have log: "log_in_ram su ?c = (if CorruptFlags_any flags then [] else f)" by (rule img(3) [OF c]) simp
  have s: "scenario_run (bench_features su) h q flags = emulated su out ?c"
    using q img(1) a by (simp add: scenario_run_def q_def board_machine_def)
  have "\<exists>u. corrupt_test su ?c = Some (Inr u) \<and> sent UART0_BASE (uart u) = f \<and>
      console out u = (if CorruptFlags_any flags then f else [])"
    using power(1) [OF c] power(2) [OF c] log f(2,3) b(4) sent unfolding f_def by (auto split: if_splits)
  then show "uart0 (scenario_run (bench_features su) h q flags) = f"
    "semihosting (scenario_run (bench_features su) h q flags) = (if CorruptFlags_any flags then f else [])"
    unfolding s by (auto simp: emulated_def)
qed

subsection \<open>A bench with semihosting\<close>

text \<open>The outside world: whether interrupts are on, and what was written to the standard output.\<close>

definition echo_platform :: "(unit, bool, unit, bool \<times> u8 list) platform" where
  "echo_platform =
     \<lparr>encoder_start_frame = (\<lambda>e. ([], e)), encoder_write = (\<lambda>b e. ([b], e)), encoder_end_frame = (\<lambda>e. ([[0]], e)),
      critical_section_acquire = (\<lambda>(i, ws). (i, (False, ws))), critical_section_release = (\<lambda>r (i, ws). (r, ws)),
      hstdout = (\<lambda>w. (Some (), w)), hstdout_write_all = (\<lambda>b h (i, ws). (h, (i, ws @ b))), debugger = detached\<rparr>"

definition echo_bench :: "(unit, bool, unit, bool \<times> u8 list) bench" where
  "echo_bench =
     \<lparr>bench_features = default_features\<lparr>feat_qemu_test := True\<rparr>, bench_platform = echo_platform, bench_abi = thumb_abi,
      bench_regs = (\<lambda>a t. 0), bench_start = 0x2000FC00, bench_end = 0x2000FC30, bench_expand = (\<lambda>m. [Write [1]])\<rparr>"

definition echo_board :: "u8 list \<Rightarrow> (unit, bool, unit, bool \<times> u8 list) board" where
  "echo_board r =
     \<lparr>dev = \<lparr>INITIALIZED = False, LOGGER_STATE =
        \<lparr>producer_written = False, cs_state = False, encoder = (), initialized = False, depth = 0,
         persist = RingBuffer_new default_features 0 0 [0, 0], rtt_channel = rtt_start [0, 0, 0, 0],
         rtt_loads = 0, stdout = None, waker_slot = None, woken = [], world = (True, []), trace = []\<rparr>\<rparr>,
      ram = r, uart = \<lparr>reads = 0, writes = []\<rparr>\<rparr>"

lemma echo_frame: "stmt_frame echo_bench m e = ([1, 0], ())"
  by (simp add: stmt_frame_def echo_bench_def encode_frame_def echo_platform_def)

lemma echo_works:
  "semihosting_works (bench_platform echo_bench) snd" "feat_qemu_test (bench_features echo_bench)" "\<forall>m. stmt_ok echo_bench m"
proof -
  have "body [Write [1]] [[1]]" by (intro body.intros)
  then show "\<forall>m. stmt_ok echo_bench m" by (auto simp: stmt_ok_def echo_bench_def usize_limit_def)
qed (auto simp: semihosting_works_def echo_bench_def echo_platform_def)

lemma echo_fields:
  "ring_size echo_bench = 16" "bench_start echo_bench = 0x2000FC00" "bench_end echo_bench = 0x2000FC30"
  "sent UART0_BASE (uart (echo_board x)) = []" "sent UART1_BASE (uart (echo_board x)) = []"
  "console snd (echo_board x) = []" "ram (echo_board x) = x" "(echo_board x)\<lparr>ram := y\<rparr> = echo_board y"
  "encoder (LOGGER_STATE (dev (echo_board x))) = ()"
  by (simp_all add: echo_bench_def echo_board_def ring_size_def layout_defs default_features_def thumb_abi_def sent_def)

lemma echo_cold:
  assumes "length x = 48"
  shows "board_cold echo_bench (echo_board x)"
proof -
  let ?ft = "default_features\<lparr>feat_qemu_test := True\<rparr>"
  have e: "init_error ?ft thumb_abi 0x2000FC00 0x2000FC30 (INITIALIZED (dev (echo_board x))) = None"
    by (simp add: init_error_def echo_board_def layout_defs default_features_def thumb_abi_def max_buf_len_def)
  have a: "abi_ok thumb_abi" "(0x2000FC30::nat) < usize_limit" "length x = 0x2000FC30 - 0x2000FC00"
    using assms by (simp_all add: abi_ok_def thumb_abi_def usize_limit_def)
  have "channel_ok (rtt_start [0, 0, 0, 0])" by (rule rtt_start_ok) (simp_all add: usize_limit_def)
  then show ?thesis
    using e init_region [OF e a] detached_conforms rtt_start_ok(4)
    by (simp add: board_cold_def hardware_ok_def echo_bench_def echo_board_def echo_platform_def uart_live_def rtt_live_def host_live_def)
qed

lemma echo_empty: "log_in_ram echo_bench (echo_board (replicate 48 0)) = []"
proof -
  have "le_nat (replicate k 0) = 0" for k by (induction k) simp_all
  then show ?thesis
    by (simp add: log_in_ram_def echo_bench_def echo_board_def Let_def init_view_def region_view_def load_at_def layout_defs
        default_features_def thumb_abi_def MAGIC_def)
qed

subsection \<open>Properties\<close>

text \<open>
  C12: the device behaves as the runner expects in every scenario of the corruption test. After a first run without a log,
  whose snapshot is corrupted by the host in any of the eight ways: with some flag set the second run
  finds an empty ring, sends its frame through UART0 as the first run did, and writes it to semihosting too; with none it
  sends the recovered message through UART0 and writes nothing to semihosting.
\<close>

theorem corrupt_test_scenarios:
  fixes su :: "('e, 'r, 'h, 'w) bench" and b1 :: "('e, 'r, 'h, 'w) board" and out :: "'w \<Rightarrow> u8 list"
  defines "f \<equiv> \<lambda>b :: ('e, 'r, 'h, 'w) board. fst (stmt_frame su fresh_text (encoder (LOGGER_STATE (dev b))))"
  assumes "board_cold su b1" and "log_in_ram su b1 = []" and "sent UART1_BASE (uart b1) = []"
    and "\<forall>m. stmt_ok su m" and "f b1 \<noteq> []" and "length (f b1) \<le> ring_size su - 1" and "abi_ok h"
    and "semihosting_works (bench_platform su) out" and "feat_qemu_test (bench_features su)"
  shows "\<exists>t1 img. corrupt_test su b1 = Some (Inr t1) \<and> sent UART0_BASE (uart t1) = sent UART0_BASE (uart b1) @ f b1 \<and>
     console out t1 = console out b1 @ f b1 \<and>
     apply_corruption (bench_features su) h (sent UART1_BASE (uart t1)) flags = Inr img \<and>
     length (sent UART1_BASE (uart t1)) = bench_end su - bench_start su \<and> length img = bench_end su - bench_start su \<and>
     (\<forall>b2. board_cold su b2 \<longrightarrow> ram b2 = img \<longrightarrow>
        (if CorruptFlags_any flags then
           length (f b2) \<le> ring_size su - 1 \<longrightarrow>
             (\<exists>t2. corrupt_test su b2 = Some (Inr t2) \<and> sent UART0_BASE (uart t2) = sent UART0_BASE (uart b2) @ f b2 \<and>
                console out t2 = console out b2 @ f b2)
         else
           (\<exists>t2. corrupt_test su b2 = Some (Inr t2) \<and> sent UART0_BASE (uart t2) = sent UART0_BASE (uart b2) @ f b1 \<and>
              console out t2 = console out b2)))"
proof -
  note power = corrupt_power_up [OF _ assms(5,9,10)]
  obtain t1 m where t1: "corrupt_test su b1 = Some (Inr t1)" "sent UART0_BASE (uart t1) = sent UART0_BASE (uart b1) @ f b1"
    "console out t1 = console out b1 @ f b1" "board_ok su m" "content (the_ring m) = f b1"
    "sent UART1_BASE (uart t1) = board_image su m"
    using power(1) [OF assms(2,3)] assms(4,7) unfolding f_def by auto
  obtain img where img: "apply_corruption (bench_features su) h (board_image su m) flags = Inr img"
    "length img = bench_end su - bench_start su"
    "\<And>b. board_cold su b \<Longrightarrow> ram b = img \<Longrightarrow>
       log_in_ram su b = (if CorruptFlags_any flags then [] else content (the_ring m))"
    using corrupted_log [OF t1(4) assms(8), of flags] by blast
  show ?thesis
  proof (intro exI conjI allI impI)
    fix b2 assume b2: "board_cold su b2" "ram b2 = img"
    show "if CorruptFlags_any flags then
           length (f b2) \<le> ring_size su - 1 \<longrightarrow>
             (\<exists>t2. corrupt_test su b2 = Some (Inr t2) \<and> sent UART0_BASE (uart t2) = sent UART0_BASE (uart b2) @ f b2 \<and>
                console out t2 = console out b2 @ f b2)
         else
           (\<exists>t2. corrupt_test su b2 = Some (Inr t2) \<and> sent UART0_BASE (uart t2) = sent UART0_BASE (uart b2) @ f b1 \<and>
              console out t2 = console out b2)"
      using img(3) [OF b2] t1(5) assms(6) power(1) [OF b2(1)] power(2) [OF b2(1)] unfolding f_def by auto
  qed (use t1 img(1,2) length_board_image [OF t1(4)] in auto)
qed

theorem corrupt_test_scenarios_witness:
  "\<exists>t1 img t2. corrupt_test echo_bench (echo_board (replicate 48 0)) = Some (Inr t1) \<and>
     apply_corruption default_features host_abi (sent UART1_BASE (uart t1))
       \<lparr>cf_header = False, cf_read = True, cf_write = False\<rparr> = Inr img \<and>
     corrupt_test echo_bench (echo_board img) = Some (Inr t2) \<and> sent UART0_BASE (uart t2) = [1, 0] \<and> console snd t2 = [1, 0]"
proof -
  let ?f = "\<lparr>cf_header = False, cf_read = True, cf_write = False\<rparr>"
  have h: "abi_ok host_abi" by (simp add: abi_ok_def host_abi_def)
  have a: "CorruptFlags_any ?f" by (simp add: CorruptFlags_any_def)
  have c: "board_cold echo_bench (echo_board (replicate 48 0))" by (rule echo_cold) simp
  have ap: "apply_corruption (bench_features echo_bench) host_abi x ?f = apply_corruption default_features host_abi x ?f" for x
    by (simp add: apply_corruption_def echo_bench_def layout_defs default_features_def)
  obtain t1 img where t1: "corrupt_test echo_bench (echo_board (replicate 48 0)) = Some (Inr t1)"
    "apply_corruption default_features host_abi (sent UART1_BASE (uart t1)) ?f = Inr img" "length img = 48"
    "\<forall>b2. board_cold echo_bench b2 \<longrightarrow> ram b2 = img \<longrightarrow>
       (\<exists>t2. corrupt_test echo_bench b2 = Some (Inr t2) \<and> sent UART0_BASE (uart t2) = sent UART0_BASE (uart b2) @ [1, 0] \<and>
          console snd t2 = console snd b2 @ [1, 0])"
    using corrupt_test_scenarios [OF c echo_empty echo_fields(5) echo_works(3) _ _ h echo_works(1,2), of ?f]
    unfolding echo_fields(1-3) echo_frame fst_conv ap by (auto simp: a)
  show ?thesis using t1(1,2,4) echo_cold [OF t1(3)] echo_fields(4,6,7) by fastforce
qed

text \<open>
  C13: the whole corruption test, host and device: if the machine that QEMU emulates is the board running
  \<open>corrupt_test\<close>, the decoder finds nothing in no bytes and something in the frame of the log statement, and the frame fits
  the ring, then \<open>run_corrupt\<close> returns that the test passed.
\<close>

theorem corruption_test_passes:
  fixes su :: "('e, 'r, 'h, 'w) bench" and b :: "('e, 'r, 'h, 'w) board" and out :: "'w \<Rightarrow> u8 list"
  defines "f \<equiv> fst (stmt_frame su fresh_text (encoder (LOGGER_STATE (dev b))))"
  assumes "board_cold su b" and "log_in_ram su b = []" and "uart b = \<lparr>reads = r, writes = []\<rparr>" and "console out b = []"
    and "\<forall>m. stmt_ok su m" and "f \<noteq> []" and "length f \<le> ring_size su - 1" and "abi_ok h"
    and "semihosting_works (bench_platform su) out" and "feat_qemu_test (bench_features su)"
    and "bench_start su = unat PERSIST_ADDR"
    and "qemu_emulates ts run" and "run e = board_machine su out b"
    and "decoder_works ts e dec" and "dec [] = ([], UnexpectedEof)" and "dec f = (frames, UnexpectedEof)" and "frames \<noteq> []"
    and "temps_work ts elf" and "files s elf = Some e"
  shows "\<exists>s'. run_corrupt (bench_features su) h ts elf verbose s = Some (Inr True, s')"
proof -
  note out = machine_outputs [OF assms(2-12)[unfolded f_def], folded f_def assms(14)]
  have readable: "readable dec f" "readable dec []" using assms(16,17) by (simp_all add: readable_def)
  have msg: "text_of dec f \<noteq> []" "text_of dec [] = []" using assms(16-18) by (simp_all add: text_of_def frames_text_empty)
  have "readable dec (uart0 (run e None))" "readable dec (semihosting (run e None))"
    "\<forall>g. run_readable dec (scenario_run (bench_features su) h (run e) g)"
    using out readable by (simp_all add: run_readable_def)
  moreover have "scenario_ok (bench_features su) h (run e) dec = (\<lambda>g. True)"
    using out msg by (simp add: scenario_ok_def scenario_passed_def fun_eq_iff)
  ultimately show ?thesis using run_corrupt_snapshot [OF assms(13,15,19,9,20) out(3), of "bench_features su" verbose] by simp
qed

theorem corruption_test_passes_witness:
  "\<exists>s'. run_corrupt (bench_features echo_bench) host_abi
      (working_tools (\<lambda>e. board_machine echo_bench snd (echo_board (replicate 48 0)))) ''elf'' True
      \<lparr>files = (\<lambda>p. Some []), temps = 0\<rparr> = Some (Inr True, s')"
proof -
  let ?b = "echo_board (replicate 48 0)"
  have h: "abi_ok host_abi" by (simp add: abi_ok_def host_abi_def)
  have c: "board_cold echo_bench ?b" by (rule echo_cold) simp
  have u: "uart ?b = \<lparr>reads = 0, writes = []\<rparr>" by (simp add: echo_board_def)
  have a: "bench_start echo_bench = unat PERSIST_ADDR" by (simp add: echo_fields PERSIST_ADDR_def)
  have d: "one_frame [] = ([], UnexpectedEof)" "one_frame [1, 0] = ([\<lparr>level = None, display_message = ''x''\<rparr>], UnexpectedEof)"
    by (simp_all add: one_frame_def)
  show ?thesis
    by (rule corruption_test_passes [OF c echo_empty u echo_fields(6) echo_works(3) _ _ h echo_works(1,2) a working_qemu _
          working_decoder d(1) _ _ working_temps, unfolded echo_frame fst_conv, OF _ _ _ d(2),
          where run = "\<lambda>e. board_machine echo_bench snd ?b" and e = "[]"])
      (simp_all add: echo_fields)
qed

end
