(* ===== verification/Async_Example.thy ===== *)
theory Async_Example
  imports Examples
begin

text \<open>
  The example \<open>async_test\<close>: a task that logs three messages and yields before each, and a task
  that waits for data and drains it three times, joined and run by \<open>block_on\<close>. The two tasks
  share the device; a step of it that panics or does not return leaves the program in the poll.
\<close>

subsection \<open>The tasks\<close>

text \<open>
  \<open>'g\<close> of a future is here the device after some steps, or the fault that ended them. The state of the
  writer is what it still has to log and the flag of the \<open>yield_once\<close> it awaits; that of the
  reader is the number of rounds left. \<open>wait_for_data\<close> registers the waker, then checks.
\<close>

fun writer_poll ::
    "(log_stmt \<Rightarrow> 'b \<Rightarrow> 'b res option) \<Rightarrow> 'b res option \<Rightarrow> log_stmt list \<Rightarrow> bool \<Rightarrow>
     unit poll \<times> 'b res option \<times> log_stmt list \<times> bool" where
  "writer_poll log g [] yielded = (Poll_Ready (), g, [], yielded)"
| "writer_poll log g (m # ms) yielded =
     (case yield_once g yielded of
        (Poll_Pending, g1, y) \<Rightarrow> (Poll_Pending, g1, m # ms, y)
      | (Poll_Ready u, g1, y) \<Rightarrow>
          (case run_bind g1 (log m) of
             Some (Inr b) \<Rightarrow> writer_poll log (Some (Inr b)) ms False
           | stuck \<Rightarrow> (Poll_Pending, stuck, m # ms, y)))"

definition writer_task ::
    "(log_stmt \<Rightarrow> 'b \<Rightarrow> 'b res option) \<Rightarrow> ('b res option, log_stmt list \<times> bool, unit) future" where
  "writer_task log g s = writer_poll log g (fst s) (snd s)"

fun reader_task ::
    "('b \<Rightarrow> 'b) \<Rightarrow> ('b \<Rightarrow> bool) \<Rightarrow> ('b \<Rightarrow> 'b res option) \<Rightarrow> ('b res option, nat, unit) future" where
  "reader_task register no_data drain g 0 = (Poll_Ready (), g, 0)"
| "reader_task register no_data drain g (Suc rounds) =
     (case g of
        Some (Inr b) \<Rightarrow>
          let b1 = register b in
          if no_data b1 then (Poll_Pending, Some (Inr b1), Suc rounds)
          else
            (case drain b1 of
               Some (Inr b2) \<Rightarrow> reader_task register no_data drain (Some (Inr b2)) rounds
             | stuck \<Rightarrow> (Poll_Pending, stuck, Suc rounds))
      | stuck \<Rightarrow> (Poll_Pending, stuck, Suc rounds))"

definition async_messages :: "log_stmt list" where
  "async_messages =
     [stmt ''info'' ''async test: message 1'', stmt ''info'' ''async test: message 2'',
      stmt ''info'' ''async test: message 3'']"

definition async_main ::
    "(log_stmt \<Rightarrow> 'b \<Rightarrow> 'b res option) \<Rightarrow> ('b \<Rightarrow> 'b) \<Rightarrow> ('b \<Rightarrow> bool) \<Rightarrow> ('b \<Rightarrow> 'b res option) \<Rightarrow> 'b \<Rightarrow> 'b res option" where
  "async_main log register no_data drain b =
     (case block_on (join_poll (writer_task log) (reader_task register no_data drain)) (Some (Inr b))
             (join_new (async_messages, False) 3) of
        None \<Rightarrow> None
      | Some (r, g) \<Rightarrow> g)"

subsection \<open>Devices with a waker\<close>

locale async_device = log_device +
  fixes register :: "'b \<Rightarrow> 'b"
  assumes register_law: "valid b \<Longrightarrow> valid (register b) \<and> queue (register b) = queue b \<and>
      out0 (register b) = out0 b \<and> out1 (register b) = out1 b \<and> enc (register b) = enc b"

context async_device
begin

lemma reader_waits:
  "valid b \<Longrightarrow> queue b = [] \<Longrightarrow>
   reader_task register no_data drain (Some (Inr b)) (Suc n) = (Poll_Pending, Some (Inr (register b)), Suc n)"
  using register_law [of b] no_data_law [of "register b"] by simp

text \<open>A poll with data sends it, and then waits for more, or is done after the last round.\<close>

lemma reader_sends:
  assumes "valid b" "queue b \<noteq> []"
  shows "\<exists>t. reader_task register no_data drain (Some (Inr b)) (Suc n) =
      (if n = 0 then Poll_Ready () else Poll_Pending, Some (Inr t), n) \<and> valid t \<and> queue t = [] \<and>
    out0 t = out0 b @ queue b \<and> enc t = enc b"
proof -
  have r: "valid (register b)" "queue (register b) = queue b" "out0 (register b) = out0 b" "enc (register b) = enc b"
    using register_law [OF assms(1)] by simp_all
  obtain t where t: "drain (register b) = Some (Inr t)" "valid t" "queue t = []" "out0 t = out0 b @ queue b" "enc t = enc b"
    using drain_law [OF r(1)] r by auto
  have "\<not> no_data (register b)" using no_data_law [OF r(1)] r(2) assms(2) by simp
  then have run: "reader_task register no_data drain (Some (Inr b)) (Suc n) = reader_task register no_data drain (Some (Inr t)) n"
    by (simp add: Let_def t(1))
  show ?thesis
  proof (cases n)
    case 0
    then show ?thesis using run t by auto
  next
    case (Suc k)
    then show ?thesis using run reader_waits [OF t(2,3), of k] register_law [OF t(2)] t by auto
  qed
qed

text \<open>One message travels per poll of the joined tasks.\<close>

lemma joined_round:
  assumes "valid b" "queue b = []" "admissible m" "length (fst (frame m (enc b))) \<le> cap" "fst (frame m (enc b)) \<noteq> []"
  shows "\<exists>t. join_poll (writer_task log) (reader_task register no_data drain) (Some (Inr b))
      \<lparr>fut_a = (m # ms, True), fut_b = Suc n, a_done = None, b_done = None\<rparr> =
      (case (ms, n) of
         ([], 0) \<Rightarrow> (Poll_Ready ((), ()), Some (Inr t), \<lparr>fut_a = ([], False), fut_b = 0, a_done = None, b_done = None\<rparr>)
       | ([], Suc k) \<Rightarrow> (Poll_Pending, Some (Inr t), \<lparr>fut_a = ([], False), fut_b = n, a_done = Some (), b_done = None\<rparr>)
       | (_, 0) \<Rightarrow> (Poll_Pending, Some (Inr t), \<lparr>fut_a = (ms, True), fut_b = 0, a_done = None, b_done = Some ()\<rparr>)
       | _ \<Rightarrow> (Poll_Pending, Some (Inr t), \<lparr>fut_a = (ms, True), fut_b = n, a_done = None, b_done = None\<rparr>)) \<and>
    valid t \<and> queue t = [] \<and> out0 t = out0 b @ fst (frame m (enc b)) \<and> enc t = snd (frame m (enc b))"
proof -
  have fit: "length (queue b) + length (fst (frame m (enc b))) \<le> cap" using assms(2,4) by simp
  obtain u where u: "log m b = Some (Inr u)" "valid u" "queue u = fst (frame m (enc b))"
    "enc u = snd (frame m (enc b))" "out0 u = out0 b"
    by (rule log_fits [OF assms(1,3) fit]) (use assms(2) in auto)
  have w: "writer_task log (Some (Inr b)) (m # ms, True) =
      (if ms = [] then Poll_Ready () else Poll_Pending, Some (Inr u), ms, ms \<noteq> [])"
    by (cases ms) (simp_all add: writer_task_def yield_once_def u(1))
  obtain t where t: "reader_task register no_data drain (Some (Inr u)) (Suc n) =
      (if n = 0 then Poll_Ready () else Poll_Pending, Some (Inr t), n)" "valid t" "queue t = []"
    "out0 t = out0 u @ queue u" "enc t = enc u"
    using reader_sends [OF u(2), of n] u(3) assms(5) by auto
  show ?thesis
    using t u by (intro exI [of _ t]) (simp add: join_poll_def w split: list.split nat.split)
qed

lemma async_run:
  assumes "valid b" "queue b = []" and m: "\<forall>m. admissible m" "\<forall>m e. fst (frame m e) \<noteq> [] \<and> length (fst (frame m e)) \<le> cap"
  shows "\<exists>t. async_main log register no_data drain b = Some (Inr t) \<and> valid t \<and> queue t = [] \<and>
    out0 t = out0 b @ frame_bytes frame async_messages (enc b)"
proof -
  let ?poll = "join_poll (writer_task log) (reader_task register no_data drain)"
  let ?st = "\<lambda>ms n. \<lparr>fut_a = (ms, True), fut_b = Suc n, a_done = None, b_done = None\<rparr>"
  obtain m1 m2 m3 where msgs: "async_messages = [m1, m2, m3]" by (simp add: async_messages_def)
  let ?b0 = "register b"
  have b0: "valid ?b0" "queue ?b0 = []" "out0 ?b0 = out0 b" "enc ?b0 = enc b" using register_law [OF assms(1)] assms(2) by simp_all
  have s0: "?poll (Some (Inr b)) (join_new (async_messages, False) 3) = (Poll_Pending, Some (Inr ?b0), ?st [m1, m2, m3] 2)"
    using reader_waits [OF assms(1,2), of 2]
    by (simp add: join_poll_def join_new_def writer_task_def yield_once_def msgs numeral_3_eq_3 numeral_2_eq_2)
  obtain b1 where b1: "?poll (Some (Inr ?b0)) (?st [m1, m2, m3] 2) = (Poll_Pending, Some (Inr b1), ?st [m2, m3] 1)"
    "valid b1" "queue b1 = []" "out0 b1 = out0 ?b0 @ fst (frame m1 (enc ?b0))" "enc b1 = snd (frame m1 (enc ?b0))"
    using joined_round [OF b0(1,2), of m1 "[m2, m3]" 2] m by (auto simp: numeral_2_eq_2)
  obtain b2 where b2: "?poll (Some (Inr b1)) (?st [m2, m3] 1) = (Poll_Pending, Some (Inr b2), ?st [m3] 0)"
    "valid b2" "queue b2 = []" "out0 b2 = out0 b1 @ fst (frame m2 (enc b1))" "enc b2 = snd (frame m2 (enc b1))"
    using joined_round [OF b1(2,3), of m2 "[m3]" 1] m by auto
  obtain b3 j where b3: "?poll (Some (Inr b2)) (?st [m3] 0) = (Poll_Ready ((), ()), Some (Inr b3), j)"
    "valid b3" "queue b3 = []" "out0 b3 = out0 b2 @ fst (frame m3 (enc b2))" "enc b3 = snd (frame m3 (enc b2))"
    using joined_round [OF b2(2,3), of m3 "[]" 0] m by auto
  have "run_polls 4 ?poll (Some (Inr b)) (join_new (async_messages, False) 3) = Some (((), ()), Some (Inr b3))"
    using s0 b1(1) b2(1) b3(1) by (simp add: eval_nat_numeral)
  then have "block_on ?poll (Some (Inr b)) (join_new (async_messages, False) 3) = Some (((), ()), Some (Inr b3))"
    by (rule run_polls_block_on)
  then show ?thesis
    using b0 b1 b2 b3 by (simp add: async_main_def msgs)
qed

end

subsection \<open>On the board\<close>

text \<open>\<open>block_on\<close> polls with a waker that does nothing; \<open>w\<close> is its identity.\<close>

definition board_register :: "waker \<Rightarrow> ('e, 'r, 'h, 'w) board \<Rightarrow> ('e, 'r, 'h, 'w) board" where
  "board_register w b =
     with_logger b ((LOGGER_STATE (dev b))\<lparr>waker_slot := AtomicWaker_register w (waker_slot (LOGGER_STATE (dev b)))\<rparr>)"

definition async_test :: "waker \<Rightarrow> ('e, 'r, 'h, 'w) bench \<Rightarrow> ('e, 'r, 'h, 'w) board \<Rightarrow> ('e, 'r, 'h, 'w) board res option" where
  "async_test w su b =
     run_bind (board_init su b) (async_main (board_log su) (board_register w) board_empty (board_drain su))"

interpretation bench_async: async_device "ring_size su - 1" "\<lambda>b. content (the_ring b)"
  "\<lambda>b. sent UART0_BASE (uart b)" "\<lambda>b. sent UART1_BASE (uart b)" "board_image su"
  "\<lambda>b. encoder (LOGGER_STATE (dev b))" "board_ok su" "stmt_ok su" "stmt_frame su"
  "board_log su" "board_drain su" "board_dump su" board_empty "board_register w"
  for su :: "('e, 'r, 'h, 'w) bench" and w :: waker
  by unfold_locales (simp add: board_register_def board_ok_def hardware_ok_def logger_ok_def rtt_live_def)

subsection \<open>Properties\<close>

text \<open>
  C40: \<open>async_test\<close> returns: on a board without a log, if any frame is not empty and fits in the
  ring, the executor ends after finitely many polls, no round of the reader waits for ever,
  and UART0 has sent the frames of the three messages in order.
\<close>

theorem async_test_completes:
  fixes su :: "('e, 'r, 'h, 'w) bench" and b :: "('e, 'r, 'h, 'w) board"
  assumes "board_cold su b" and "log_in_ram su b = []" and "\<forall>m. stmt_ok su m"
    and "\<forall>m e. fst (stmt_frame su m e) \<noteq> [] \<and> length (fst (stmt_frame su m e)) \<le> ring_size su - 1"
  shows "\<exists>t. async_test w su b = Some (Inr t) \<and> content (the_ring t) = [] \<and>
     sent UART0_BASE (uart t) = sent UART0_BASE (uart b)
       @ frame_bytes (stmt_frame su) async_messages (encoder (LOGGER_STATE (dev b)))"
proof -
  obtain c where c: "board_init su b = Some (Inr c)" "board_ok su c" "content (the_ring c) = []" "uart c = uart b"
    "encoder (LOGGER_STATE (dev c)) = encoder (LOGGER_STATE (dev b))"
    using board_boots [OF assms(1)] assms(2) by metis
  show ?thesis
    using bench_async.async_run [OF c(2,3) assms(3,4), of w] c(1,4,5) by (auto simp: async_test_def)
qed

theorem async_test_completes_witness:
  "\<exists>t. async_test 1 (small_bench 0x20000030) (small_board (replicate 48 0)) = Some (Inr t) \<and>
     sent UART0_BASE (uart t) = [1, 0, 1, 0, 1, 0]"
  using async_test_completes [OF small_48(1) small_48(2) small_stmts, of 1]
  by (auto simp: small_frame small_48 async_messages_def)

end
