(* ===== verification/Runner.thy ===== *)
theory Runner
  imports Corrupt
begin

text \<open>
  The test runner: \<open>xtask/src/runner.rs\<close> and the \<open>test\<close> command of \<open>xtask/src/main.rs\<close>. The
  configuration in the first lines of an example, the one- and two-phase runs, the comparison
  with the file of expected output, and the summary. The project root, the build of an example
  and the listing of the examples directory (\<open>xtask/src/build.rs\<close>) are arguments.
\<close>

subsection \<open>Test configuration\<close>

datatype RunMode = Single | Persist

datatype ValidateMode = Expected | Corruption

record TestConfig =
  run_mode :: RunMode
  validate_mode :: ValidateMode

text \<open>\<open>str::lines\<close>: a line ends with a newline or a carriage return and a newline.\<close>

definition on_first_line :: "char \<Rightarrow> string list \<Rightarrow> string list" where
  "on_first_line c ls = (case ls of [] \<Rightarrow> [[c]] | l # ls' \<Rightarrow> (c # l) # ls')"

fun str_lines :: "string \<Rightarrow> string list" where
  "str_lines [] = []"
| "str_lines [c] = (if c = NL then [[]] else [[c]])"
| "str_lines (c # d # cs) =
     (if c = NL then [] # str_lines (d # cs)
      else if c = CR \<and> d = NL then [] # str_lines cs
      else on_first_line c (str_lines (d # cs)))"

fun strip_prefix :: "string \<Rightarrow> string \<Rightarrow> string option" where
  "strip_prefix [] x = Some x"
| "strip_prefix (p # ps) [] = None"
| "strip_prefix (p # ps) (c # cs) = (if p = c then strip_prefix ps cs else None)"

text \<open>\<open>str::trim\<close>; of the white space of Unicode, the characters in ASCII.\<close>

definition is_space :: "char \<Rightarrow> bool" where
  "is_space c \<longleftrightarrow> c \<in> {CHR '' '', CHR 0x09, CHR 0x0A, CHR 0x0B, CHR 0x0C, CHR 0x0D}"

definition trim :: "string \<Rightarrow> string" where
  "trim x = rev (dropWhile is_space (rev (dropWhile is_space x)))"

definition config_line :: "string \<Rightarrow> TestConfig \<Rightarrow> TestConfig" where
  "config_line line config =
     (let c1 = (case strip_prefix ''//! @test-run:'' line of
                  Some mode \<Rightarrow>
                    config\<lparr>run_mode := (if trim mode = ''single'' then Single
                                        else if trim mode = ''persist'' then Persist else Single)\<rparr>
                | None \<Rightarrow> config)
      in case strip_prefix ''//! @test-validate:'' line of
           Some mode \<Rightarrow>
             c1\<lparr>validate_mode := (if trim mode = ''expected'' then Expected
                                  else if trim mode = ''corrupt'' then Corruption else Expected)\<rparr>
         | None \<Rightarrow> c1)"

definition default_config :: TestConfig where
  "default_config = \<lparr>run_mode = Single, validate_mode = Expected\<rparr>"

definition config_of :: "string \<Rightarrow> TestConfig" where
  "config_of txt = fold config_line (take 15 (str_lines txt)) default_config"

text \<open>A file that cannot be read has the default configuration.\<close>

definition parse_test_config :: "('t, 'd) tools \<Rightarrow> path \<Rightarrow> TestConfig io" where
  "parse_test_config ts example_path s =
     (case fs_read_to_string ts example_path s of
        Some (Inr txt, s') \<Rightarrow> Some (Inr (config_of txt), s')
      | _ \<Rightarrow> Some (Inr default_config, s))"

subsection \<open>Running and comparing\<close>

record RunOptions =
  verbose :: bool
  bless :: bool
  release :: bool

definition expected_path :: "path \<Rightarrow> string \<Rightarrow> path" where
  "expected_path root example =
     path_join (path_join (path_join root ''testsuite'') ''expected'') (example @ ''.expected'')"

definition path_exists :: "path \<Rightarrow> bool io" where
  "path_exists p s = return (files s p \<noteq> None) s"

definition compare_expected ::
    "('t, 'd) tools \<Rightarrow> path \<Rightarrow> string \<Rightarrow> string \<Rightarrow> RunOptions \<Rightarrow> bool io" where
  "compare_expected ts root example output opts =
     (let p = expected_path root example in
      io_bind (path_exists p) (\<lambda>exists.
      if bless opts then
        io_bind
          (if exists then
             io_bind (fs_read_to_string ts p) (\<lambda>existing.
               if existing = output then return () else fs_write ts p (to_bytes output))
           else
             io_bind (fs_create_dir_all ts (parent_path p)) (\<lambda>_.
               fs_write ts p (to_bytes output)))
          (\<lambda>_. return True)
      else if exists then
        io_bind (fs_read_to_string ts p) (\<lambda>expected. return (output = expected))
      else return False))"

definition run_single :: "('t, 'd) tools \<Rightarrow> path \<Rightarrow> string \<Rightarrow> path \<Rightarrow> RunOptions \<Rightarrow> bool io" where
  "run_single ts root example elf_path opts =
     io_bind (run_qemu ts elf_path None) (\<lambda>output.
     io_bind (decode_output ts elf_path (semihosting output)) (\<lambda>sh.
     io_bind (decode_output ts elf_path (uart0 output)) (\<lambda>u0.
       if verbose opts then return True
       else if sh \<noteq> u0 then return False
       else compare_expected ts root example sh opts)))"

definition combine_runs :: "string \<Rightarrow> string \<Rightarrow> string" where
  "combine_runs phase1_uart0 phase2_uart0 =
     ''=== Run 1 ==='' @ [NL] @ phase1_uart0 @ [NL] @ ''=== Run 2 ==='' @ [NL] @ phase2_uart0"

definition decode_if :: "bool \<Rightarrow> ('t, 'd) tools \<Rightarrow> path \<Rightarrow> u8 list \<Rightarrow> unit io" where
  "decode_if b ts elf_path raw = (if b then io_bind (decode_output ts elf_path raw) (\<lambda>_. return ()) else return ())"

definition run_persist :: "('t, 'd) tools \<Rightarrow> path \<Rightarrow> string \<Rightarrow> path \<Rightarrow> RunOptions \<Rightarrow> bool io" where
  "run_persist ts root example elf_path opts =
     io_bind (run_qemu ts elf_path None) (\<lambda>phase1.
     io_bind (decode_output ts elf_path (uart0 phase1)) (\<lambda>phase1_uart0.
     io_bind (decode_if (verbose opts) ts elf_path (semihosting phase1)) (\<lambda>_.
       if uart1 phase1 = [] then return False
       else
         io_bind (new_temp_file ts) (\<lambda>snapshot_file.
         io_bind (fs_write ts snapshot_file (uart1 phase1)) (\<lambda>_.
         io_bind (run_qemu ts elf_path (Some \<lparr>load_file = snapshot_file, load_addr = PERSIST_ADDR\<rparr>)) (\<lambda>phase2.
         io_bind (decode_output ts elf_path (uart0 phase2)) (\<lambda>phase2_uart0.
         io_bind (decode_if (verbose opts) ts elf_path (semihosting phase2)) (\<lambda>_.
           compare_expected ts root example (combine_runs phase1_uart0 phase2_uart0) opts))))))))"

definition run_example ::
    "features \<Rightarrow> abi \<Rightarrow> ('t, 'd) tools \<Rightarrow> path \<Rightarrow> (string \<Rightarrow> bool \<Rightarrow> path io) \<Rightarrow> RunOptions \<Rightarrow> string \<Rightarrow> bool io" where
  "run_example ft a ts root build_example opts example =
     io_bind (parse_test_config ts (path_join (path_join (path_join root ''testsuite'') ''examples'') (example @ ''.rs''))) (\<lambda>config.
     io_bind (build_example example (release opts)) (\<lambda>elf_path.
       if validate_mode config = Corruption then run_corrupt ft a ts elf_path (verbose opts)
       else
         (case run_mode config of
            Single \<Rightarrow> run_single ts root example elf_path opts
          | Persist \<Rightarrow> run_persist ts root example elf_path opts)))"

subsection \<open>The test command\<close>

definition contains :: "string \<Rightarrow> string \<Rightarrow> bool" where
  "contains x f \<longleftrightarrow> (\<exists>i\<le>length x. take (length f) (drop i x) = f)"

text \<open>The loop over the examples: an error counts as a failure, a panic ends the process.\<close>

fun run_tests :: "(string \<Rightarrow> bool io) \<Rightarrow> string list \<Rightarrow> nat \<times> nat \<Rightarrow> (nat \<times> nat) io" where
  "run_tests run [] counts = return counts"
| "run_tests run (e # es) (passed, failed) =
     (\<lambda>s. case run e s of
            None \<Rightarrow> None
          | Some (Inr True, s') \<Rightarrow> run_tests run es (passed + 1, failed) s'
          | Some (Inr False, s') \<Rightarrow> run_tests run es (passed, failed + 1) s'
          | Some (Inl (Failed msg), s') \<Rightarrow> run_tests run es (passed, failed + 1) s'
          | Some (Inl (Panicked f), s') \<Rightarrow> Some (Inl (Panicked f), s'))"

definition test_command :: "(string \<Rightarrow> bool io) \<Rightarrow> string list io \<Rightarrow> string option \<Rightarrow> unit io" where
  "test_command run discover_examples selection =
     io_bind discover_examples (\<lambda>examples.
       let examples = (case selection of Some f \<Rightarrow> filter (\<lambda>e. contains e f) examples | None \<Rightarrow> examples) in
       if examples = [] then bail ''No tests found''
       else
         io_bind (run_tests run examples (0, 0)) (\<lambda>(passed, failed).
           if failed > 0 then bail ''test(s) failed'' else return ()))"

subsection \<open>Reading a configuration back\<close>

text \<open>The markers that select a configuration, as the two first lines of an example.\<close>

definition run_marker :: "RunMode \<Rightarrow> string" where
  "run_marker m = ''//! @test-run: '' @ (case m of Single \<Rightarrow> ''single'' | Persist \<Rightarrow> ''persist'')"

definition validate_marker :: "ValidateMode \<Rightarrow> string" where
  "validate_marker v = ''//! @test-validate: '' @ (case v of Expected \<Rightarrow> ''expected'' | Corruption \<Rightarrow> ''corrupt'')"

definition unmarked :: "string \<Rightarrow> bool" where
  "unmarked line \<longleftrightarrow> strip_prefix ''//! @test-run:'' line = None \<and> strip_prefix ''//! @test-validate:'' line = None"

lemma str_lines_line: "NL \<notin> set l \<Longrightarrow> CR \<notin> set l \<Longrightarrow> str_lines (l @ NL # rest) = l # str_lines rest"
proof (induction l)
  case Nil
  show ?case by (cases rest) (simp_all add: NL_def CR_def)
next
  case (Cons c l)
  then have IH: "str_lines (l @ NL # rest) = l # str_lines rest" and c: "c \<noteq> NL" "c \<noteq> CR" by auto
  show ?case
  proof (cases "l @ NL # rest")
    case (Cons d cs)
    then have "str_lines ((c # l) @ NL # rest) = on_first_line c (str_lines (l @ NL # rest))"
      using c by simp
    then show ?thesis using IH by (simp add: on_first_line_def)
  qed simp
qed

lemma config_unmarked: "\<forall>l\<in>set ls. unmarked l \<Longrightarrow> fold config_line ls c = c"
  by (induction ls arbitrary: c) (simp_all add: unmarked_def config_line_def Let_def)

lemma config_run_marker: "config_line (run_marker m) c = c\<lparr>run_mode := m\<rparr>"
  by (cases m) (simp_all add: run_marker_def config_line_def trim_def is_space_def Let_def)

lemma config_validate_marker: "config_line (validate_marker v) c = c\<lparr>validate_mode := v\<rparr>"
  by (cases v) (simp_all add: validate_marker_def config_line_def trim_def is_space_def Let_def)

lemma marker_chars:
  "NL \<notin> set (run_marker m)" "CR \<notin> set (run_marker m)" "NL \<notin> set (validate_marker v)" "CR \<notin> set (validate_marker v)"
  by (cases m; cases v; simp add: run_marker_def validate_marker_def NL_def CR_def)+

subsection \<open>The summary\<close>

text \<open>The examples run one after the other, and each passes.\<close>

fun all_pass :: "(string \<Rightarrow> bool io) \<Rightarrow> string list \<Rightarrow> host_state \<Rightarrow> host_state \<Rightarrow> bool" where
  "all_pass run [] s s' \<longleftrightarrow> s' = s"
| "all_pass run (e # es) s s' \<longleftrightarrow> (\<exists>s1. run e s = Some (Inr True, s1) \<and> all_pass run es s1 s')"

lemma run_tests_counts:
  "run_tests run es (p, f) s = Some (Inr (p', f'), s') \<Longrightarrow> f \<le> f' \<and> p' + f' = p + f + length es"
proof (induction es arbitrary: p f s)
  case Nil
  then show ?case by (simp add: return_def)
next
  case (Cons e es)
  then show ?case
    by (auto split: option.splits sum.splits prod.splits bool.splits failure.splits dest!: Cons.IH)
qed

lemma run_tests_all_pass:
  "run_tests run es (p, f) s = Some (Inr (p', f), s') \<longleftrightarrow> all_pass run es s s' \<and> p' = p + length es"
proof (induction es arbitrary: p s)
  case Nil
  then show ?case by (auto simp: return_def)
next
  case (Cons e es)
  have late: "run_tests run es (q, Suc f) t \<noteq> Some (Inr (p', f), s')" for q t
    using run_tests_counts [of run es q "Suc f" t p' f s'] by auto
  show ?case
    using Cons.IH late by (auto split: option.splits sum.splits prod.splits bool.splits failure.splits)
qed

subsection \<open>Properties\<close>

text \<open>
  An example whose first lines hold the two markers, in either order of the modes, and no
  further marker within the first 15 lines, is run and validated in the modes they name.
\<close>

lemma config_markers_read_back:
  assumes "\<forall>l\<in>set (take 13 (str_lines rest)). unmarked l"
  shows "config_of (run_marker m @ [NL] @ validate_marker v @ [NL] @ rest) = \<lparr>run_mode = m, validate_mode = v\<rparr>"
proof -
  have "str_lines (run_marker m @ NL # validate_marker v @ NL # rest)
      = run_marker m # validate_marker v # str_lines rest"
    using str_lines_line marker_chars by simp
  then show ?thesis
    using config_unmarked [OF assms]
    by (simp add: config_of_def config_run_marker config_validate_marker default_config_def numeral_eq_Suc)
qed

text \<open>
  \<open>--bless\<close> writes the output to the file of expected output, and a later comparison passes
  for exactly this output, without writing anything.
\<close>

lemma bless_then_compare:
  assumes "can_write ts (expected_path root example)" and "can_create_dir ts (parent_path (expected_path root example))"
    and "\<forall>b. valid_utf8 ts b"
  shows "\<exists>s1. compare_expected ts root example output (opts\<lparr>bless := True\<rparr>) s = Some (Inr True, s1) \<and>
     files s1 = (files s)(expected_path root example := Some (to_bytes output)) \<and>
     (\<forall>out'. compare_expected ts root example out' (opts\<lparr>bless := False\<rparr>) s1 = Some (Inr (out' = output), s1))"
proof -
  let ?p = "expected_path root example"
  have cmp: "compare_expected ts root example out' (opts\<lparr>bless := False\<rparr>) s1 = Some (Inr (out' = output), s1)"
    if "files s1 ?p = Some (to_bytes output)" for s1 out'
    using that assms(3)
    by (simp add: compare_expected_def Let_def io_bind_def path_exists_def return_def fs_read_to_string_def fs_read_def)
  show ?thesis
  proof (cases "files s ?p = Some (to_bytes output)")
    case True
    then have "files s = (files s)(?p := Some (to_bytes output))" by auto
    moreover have "compare_expected ts root example output (opts\<lparr>bless := True\<rparr>) s = Some (Inr True, s)"
      using True assms(3)
      by (simp add: compare_expected_def Let_def io_bind_def path_exists_def return_def fs_read_to_string_def fs_read_def)
    ultimately show ?thesis using cmp [OF True] by blast
  next
    case False
    let ?s1 = "s\<lparr>files := (files s)(?p := Some (to_bytes output))\<rparr>"
    have "b = to_bytes output" if "of_bytes b = output" for b using that to_of_bytes [of b] by simp
    then have "compare_expected ts root example output (opts\<lparr>bless := True\<rparr>) s = Some (Inr True, ?s1)"
      using False assms
      by (cases "files s ?p")
        (auto simp: compare_expected_def Let_def io_bind_def path_exists_def return_def fs_read_to_string_def
          fs_read_def fs_write_def fs_create_dir_all_def)
    moreover have "files ?s1 ?p = Some (to_bytes output)" by simp
    ultimately show ?thesis using cmp by (intro exI [of _ ?s1]) auto
  qed
qed

text \<open>
  The test command succeeds if and only if the listing of the examples succeeds, at least
  one example is selected, and every selected example runs to its end and passes; failures,
  errors and panics all make it fail.
\<close>

lemma test_command_succeeds:
  "test_command run discover selection s = Some (Inr (), s') \<longleftrightarrow>
     (\<exists>es s1. discover s = Some (Inr es, s1) \<and>
        (let sel = (case selection of Some f \<Rightarrow> filter (\<lambda>e. contains e f) es | None \<Rightarrow> es)
         in sel \<noteq> [] \<and> all_pass run sel s1 s'))"
proof -
  have all: "all_pass run es s1 s' \<longleftrightarrow> (\<exists>p. run_tests run es (0, 0) s1 = Some (Inr (p, 0), s'))" for es s1
    by (simp add: run_tests_all_pass)
  have tests: "io_bind (run_tests run es (0, 0)) (\<lambda>(passed, failed). if failed > 0 then bail ''test(s) failed'' else return ()) s1
      = Some (Inr (), s') \<longleftrightarrow> all_pass run es s1 s'" for es s1
    unfolding all by (auto simp: io_bind_def return_def bail_def split: option.splits sum.splits prod.splits if_splits)
  show ?thesis
    by (auto simp: test_command_def io_bind_def [of discover] Let_def tests bail_def
        split: option.splits sum.splits prod.splits if_splits)
qed

end
