(* ===== verification/Xtask.thy ===== *)
theory Xtask
  imports Runner "HOL-Library.List_Lexorder" "HOL-Library.Char_ord" "HOL-Library.Multiset"
begin

text \<open>
  The build utilities \<open>xtask/src/build.rs\<close> and the commands of \<open>xtask/src/main.rs\<close>. The
  environment variable, the current directory, the listing of a directory and the lossy
  conversion of names that are not UTF-8 are in the record \<open>environment\<close>, with \<open>cargo\<close> as a
  function from the command that is run. Parsing of the command line is left to \<open>clap\<close>.
\<close>

subsection \<open>The environment\<close>

text \<open>What \<open>std::process::Command\<close> is given.\<close>

record process_command =
  program :: string
  working_dir :: path
  variables :: "(string \<times> string) list"
  arguments :: "string list"

record environment =
  manifest_dir_var :: "VarError + path"
  current_dir :: "path option"
  read_dir :: "path \<Rightarrow> host_state \<Rightarrow> (string + string) list option"
                         \<comment> \<open>for each entry an error or a file name; \<open>None\<close>: cannot be listed\<close>
  to_string_lossy :: "string \<Rightarrow> string"
  run_status :: "process_command \<Rightarrow> host_state \<Rightarrow> (bool \<times> host_state) option"

definition project_root :: "environment \<Rightarrow> path res" where
  "project_root env =
     res_bind
       (case manifest_dir_var env of
          Inr p \<Rightarrow> Inr p
        | Inl e \<Rightarrow> (case current_dir env of Some p \<Rightarrow> Inr p | None \<Rightarrow> Inl Unwrap))
       (\<lambda>manifest_dir. if file_name manifest_dir = ''xtask'' then Inr (parent_path manifest_dir) else Inr manifest_dir)"

definition cargo_build :: "path \<Rightarrow> string \<Rightarrow> bool \<Rightarrow> process_command" where
  "cargo_build root example rel =
     \<lparr>program = ''cargo'', working_dir = path_join root ''testsuite'', variables = [(''DEFMT_LOG'', ''trace'')],
      arguments = [''build'', ''--example'', example, ''--target'', ''thumbv7m-none-eabi'']
        @ (if rel then [''--release''] else [])\<rparr>"

definition elf_path_of :: "path \<Rightarrow> string \<Rightarrow> bool \<Rightarrow> path" where
  "elf_path_of root example rel =
     fold (\<lambda>q p. path_join p q)
       [''target'', ''thumbv7m-none-eabi'', if rel then ''release'' else ''debug'', ''examples'', example] root"

definition build_example :: "environment \<Rightarrow> string \<Rightarrow> bool \<Rightarrow> path io" where
  "build_example env example rel =
     io_bind (or_panic (project_root env)) (\<lambda>root s.
       case run_status env (cargo_build root example rel) s of
         None \<Rightarrow> bail ''Failed to run cargo build'' s
       | Some (ok, s1) \<Rightarrow>
           if \<not> ok then bail ''cargo build failed'' s1 else return (elf_path_of root example rel) s1)"

subsection \<open>The examples\<close>

text \<open>\<open>Path::extension\<close> and \<open>Path::file_stem\<close> of a file name, which split it at its last dot.\<close>

definition rsplit_dot :: "string \<Rightarrow> (string \<times> string) option" where
  "rsplit_dot f =
     (if CHR ''.'' \<in> set f
      then Some (rev (tl (dropWhile (\<lambda>c. c \<noteq> CHR ''.'') (rev f))), rev (takeWhile (\<lambda>c. c \<noteq> CHR ''.'') (rev f)))
      else None)"

definition extension :: "string \<Rightarrow> string option" where
  "extension f =
     (if f = ''..'' then None
      else case rsplit_dot f of None \<Rightarrow> None | Some (before, after) \<Rightarrow> if before = [] then None else Some after)"

definition file_stem :: "string \<Rightarrow> string" where
  "file_stem f =
     (if f = ''..'' then f
      else case rsplit_dot f of None \<Rightarrow> f | Some (before, after) \<Rightarrow> if before = [] then f else before)"

fun collect_examples :: "(string \<Rightarrow> string) \<Rightarrow> (string + string) list \<Rightarrow> string list \<Rightarrow> string + string list" where
  "collect_examples lossy [] examples = Inr examples"
| "collect_examples lossy (Inl e # entries) examples = Inl e"
| "collect_examples lossy (Inr f # entries) examples =
     collect_examples lossy entries
       (if extension f = Some ''rs'' then examples @ [lossy (file_stem f)] else examples)"

definition discover_examples :: "environment \<Rightarrow> string list io" where
  "discover_examples env =
     io_bind (or_panic (project_root env)) (\<lambda>root s.
       case read_dir env (path_join (path_join root ''testsuite'') ''examples'') s of
         None \<Rightarrow> bail ''Failed to read examples directory'' s
       | Some entries \<Rightarrow>
           (case collect_examples (to_string_lossy env) entries [] of
              Inl e \<Rightarrow> bail e s
            | Inr examples \<Rightarrow> return (sort examples) s))"

subsection \<open>The commands\<close>

datatype Commands = Qemu string bool | Test "string option" bool bool

definition run_example_in ::
    "features \<Rightarrow> abi \<Rightarrow> ('t, 'd) tools \<Rightarrow> environment \<Rightarrow> RunOptions \<Rightarrow> string \<Rightarrow> bool io" where
  "run_example_in ft a ts env opts example =
     io_bind (or_panic (project_root env)) (\<lambda>root. run_example ft a ts root (build_example env) opts example)"

definition xtask_main :: "features \<Rightarrow> abi \<Rightarrow> ('t, 'd) tools \<Rightarrow> environment \<Rightarrow> Commands \<Rightarrow> unit io" where
  "xtask_main ft a ts env command =
     (case command of
        Qemu example rel \<Rightarrow>
          io_bind (run_example_in ft a ts env \<lparr>verbose = True, bless = False, release = rel\<rparr> example) (\<lambda>_. return ())
      | Test selection bl rel \<Rightarrow>
          test_command (run_example_in ft a ts env \<lparr>verbose = False, bless = bl, release = rel\<rparr>)
            (discover_examples env) selection)"

subsection \<open>Listing the examples\<close>

lemma rsplit_dot_eq: "rsplit_dot f = Some (b, a) \<longleftrightarrow> f = b @ CHR ''.'' # a \<and> CHR ''.'' \<notin> set a"
proof
  assume h: "rsplit_dot f = Some (b, a)"
  let ?P = "\<lambda>c. c \<noteq> CHR ''.''"
  have m: "CHR ''.'' \<in> set (rev f)" using h by (auto simp: rsplit_dot_def split: if_splits)
  have ba: "b = rev (tl (dropWhile ?P (rev f)))" "a = rev (takeWhile ?P (rev f))"
    using h by (auto simp: rsplit_dot_def split: if_splits)
  have ne: "dropWhile ?P (rev f) \<noteq> []" using m by (auto simp: dropWhile_eq_Nil_conv)
  then have "hd (dropWhile ?P (rev f)) = CHR ''.''" using hd_dropWhile [OF ne] by simp
  then have "rev f = takeWhile ?P (rev f) @ CHR ''.'' # tl (dropWhile ?P (rev f))"
    using takeWhile_dropWhile_id [of ?P "rev f"] list.collapse [OF ne] by metis
  then have "f = b @ CHR ''.'' # a" unfolding ba by (metis append_assoc append_Cons append_Nil rev.simps(2) rev_append rev_rev_ident)
  moreover have "CHR ''.'' \<notin> set a" unfolding ba using set_takeWhileD by fastforce
  ultimately show "f = b @ CHR ''.'' # a \<and> CHR ''.'' \<notin> set a" by simp
next
  assume h: "f = b @ CHR ''.'' # a \<and> CHR ''.'' \<notin> set a"
  have "takeWhile (\<lambda>c. c \<noteq> CHR ''.'') (rev a @ CHR ''.'' # rev b) = rev a"
    "dropWhile (\<lambda>c. c \<noteq> CHR ''.'') (rev a @ CHR ''.'' # rev b) = CHR ''.'' # rev b"
    using h by (subst takeWhile_append2 dropWhile_append2; auto)+
  then show "rsplit_dot f = Some (b, a)" using h by (simp add: rsplit_dot_def)
qed

text \<open>A name is listed for a file exactly if the file is this name followed by \<open>.rs\<close>.\<close>

lemma rust_file:
  "extension f = Some ''rs'' \<and> file_stem f = n \<longleftrightarrow> n \<noteq> [] \<and> f = n @ ''.rs''"
proof
  assume "extension f = Some ''rs'' \<and> file_stem f = n"
  then have "rsplit_dot f = Some (n, ''rs'') \<and> n \<noteq> []"
    by (auto simp: extension_def file_stem_def split: option.splits if_splits prod.splits)
  then show "n \<noteq> [] \<and> f = n @ ''.rs''" unfolding rsplit_dot_eq by simp
next
  assume h: "n \<noteq> [] \<and> f = n @ ''.rs''"
  then have "rsplit_dot f = Some (n, ''rs'')" unfolding rsplit_dot_eq by simp
  moreover have "f \<noteq> ''..''" using h by (auto simp: append_eq_Cons_conv)
  ultimately show "extension f = Some ''rs'' \<and> file_stem f = n"
    using h by (simp add: extension_def file_stem_def)
qed

lemma collect_examples_files:
  "collect_examples lossy (map Inr fs) acc =
     Inr (acc @ map (\<lambda>f. lossy (file_stem f)) (filter (\<lambda>f. extension f = Some ''rs'') fs))"
  by (induction fs arbitrary: acc) simp_all

definition example_names :: "string list \<Rightarrow> string list" where
  "example_names fs = sort (map file_stem (filter (\<lambda>f. extension f = Some ''rs'') fs))"

lemma sorted_example_names: "sorted (example_names fs)"
  by (simp add: example_names_def)

lemma set_example_names: "set (example_names fs) = {n. n \<noteq> [] \<and> n @ ''.rs'' \<in> set fs}"
proof -
  have "n \<in> set (example_names fs) \<longleftrightarrow> (\<exists>f\<in>set fs. extension f = Some ''rs'' \<and> file_stem f = n)" for n
    by (auto simp: example_names_def)
  then show ?thesis unfolding rust_file by auto
qed

lemma distinct_example_names: "distinct fs \<Longrightarrow> distinct (example_names fs)"
proof -
  assume d: "distinct fs"
  have "inj_on file_stem (set (filter (\<lambda>f. extension f = Some ''rs'') fs))"
  proof (rule inj_onI)
    fix f g assume f: "f \<in> set (filter (\<lambda>f. extension f = Some ''rs'') fs)"
      and g: "g \<in> set (filter (\<lambda>f. extension f = Some ''rs'') fs)" and e: "file_stem f = file_stem g"
    have "f = file_stem f @ ''.rs''" using rust_file [of f "file_stem f"] f by simp
    moreover have "g = file_stem g @ ''.rs''" using rust_file [of g "file_stem g"] g by simp
    ultimately show "f = g" using e by simp
  qed
  then show ?thesis using d by (simp add: example_names_def distinct_map)
qed

lemma example_names_order: "mset fs = mset gs \<Longrightarrow> example_names fs = example_names gs"
proof -
  assume "mset fs = mset gs"
  then have "mset (map file_stem (filter (\<lambda>f. extension f = Some ''rs'') fs))
      = mset (map file_stem (filter (\<lambda>f. extension f = Some ''rs'') gs))"
    by (simp add: mset_map mset_filter)
  then show ?thesis
    unfolding example_names_def
    by (intro properties_for_sort) (simp_all add: mset_map mset_filter)
qed

lemma discover_examples_run:
  assumes "project_root env = Inr root" and "\<forall>x. to_string_lossy env x = x"
    and "read_dir env (path_join (path_join root ''testsuite'') ''examples'') s = Some (map Inr fs)"
  shows "discover_examples env s = Some (Inr (example_names fs), s)"
  using assms by (simp add: discover_examples_def collect_examples_files example_names_def return_def)

subsection \<open>A small project\<close>

definition small_env :: environment where
  "small_env =
     \<lparr>manifest_dir_var = Inr ''/w/xtask'', current_dir = None,
      read_dir = (\<lambda>p s. Some (map Inr [''basic.rs'', ''README'', ''async.rs''])), to_string_lossy = (\<lambda>x. x),
      run_status = (\<lambda>c s. Some (True, s\<lparr>files := (files s)(''/w/target/thumbv7m-none-eabi/debug/examples/basic'' := Some [])\<rparr>))\<rparr>"

lemma small_env_root: "project_root small_env = Inr ''/w''"
  by (simp add: project_root_def small_env_def file_name_def parent_path_def)

definition small_elf :: path where
  "small_elf = ''/w/target/thumbv7m-none-eabi/debug/examples/basic''"

definition built_host :: host_state where
  "built_host = \<lparr>files = [small_elf \<mapsto> []], temps = 0\<rparr>"

lemma small_names:
  "example_names [''async.rs'', ''README'', ''basic.rs''] = [''async'', ''basic'']"
  "example_names [''basic.rs'', ''README'', ''async.rs''] = [''async'', ''basic'']"
proof -
  show a: "example_names [''async.rs'', ''README'', ''basic.rs''] = [''async'', ''basic'']"
    by (simp add: example_names_def extension_def file_stem_def rsplit_dot_def)
  have "mset [''basic.rs'', ''README'', ''async.rs''] = mset [''async.rs'', ''README'', ''basic.rs'']" by simp
  then show "example_names [''basic.rs'', ''README'', ''async.rs''] = [''async'', ''basic'']"
    using example_names_order a by metis
qed

lemma contains_simps:
  "contains [] f \<longleftrightarrow> f = []" "contains (c # x) f \<longleftrightarrow> take (length f) (c # x) = f \<or> contains x f"
proof -
  show "contains [] f \<longleftrightarrow> f = []" by (auto simp: contains_def)
  have "(\<exists>i\<le>Suc n. P i) \<longleftrightarrow> P 0 \<or> (\<exists>i\<le>n. P (Suc i))" for P n
    by (metis Suc_le_mono not0_implies_Suc zero_le)
  then show "contains (c # x) f \<longleftrightarrow> take (length f) (c # x) = f \<or> contains x f"
    by (simp add: contains_def)
qed

lemma small_filter: "contains ''basic'' ''bas''" "\<not> contains ''async'' ''bas''"
  by (simp_all add: contains_simps)

lemma small_config:
  "parse_test_config dull_tools (path_join (path_join (path_join ''/w'' ''testsuite'') ''examples'') ''basic.rs'') empty_host
     = Some (Inr default_config, empty_host)"
  by (simp add: parse_test_config_def fs_read_to_string_def io_bind_def fs_read_def empty_host_def bail_def)

lemma small_build: "build_example small_env ''basic'' False empty_host = Some (Inr small_elf, built_host)"
  by (simp add: build_example_def small_env_root)
    (simp add: small_env_def elf_path_of_def path_join_def return_def built_host_def small_elf_def empty_host_def)

lemma small_run:
  "\<exists>s'. run_single dull_tools ''/w'' ''basic'' small_elf \<lparr>verbose = False, bless = True, release = False\<rparr> built_host
     = Some (Inr True, s')"
proof -
  define t where "t = built_host\<lparr>temps := 2, files := (files built_host)([] := Some [1], ''t'' := Some (replicate 24 0))\<rparr>"
  have q: "run_qemu dull_tools small_elf None built_host = Some (Inr (dull_output None), t)"
    using dull_qemu [of small_elf None built_host None] by (simp add: t_def built_host_def numeral_2_eq_2)
  have "files t small_elf = Some []" by (simp add: t_def built_host_def small_elf_def)
  then have d: "decode_output dull_tools small_elf b t = Some (Inr (''[PRINT] x'' @ [NL]), t)" for b
    by (rule dull_decode)
  have "files t (expected_path ''/w'' ''basic'') = None"
    by (simp add: t_def built_host_def small_elf_def expected_path_def path_join_def)
  then have "\<exists>s'. compare_expected dull_tools ''/w'' ''basic'' x \<lparr>verbose = False, bless = True, release = False\<rparr> t
      = Some (Inr True, s')" for x
    by (simp add: compare_expected_def Let_def path_exists_def io_bind_def return_def fs_create_dir_all_def fs_write_def
        del: fun_upd_apply) (simp add: dull_tools_def return_def)
  then show ?thesis
    unfolding run_single_def by (simp add: io_bind_def q d)
qed

subsection \<open>Properties\<close>

text \<open>
  The listing of the examples is sorted, without duplicates, the same in whatever order the
  directory is read, and holds exactly the names whose file with the extension \<open>rs\<close> is there.
\<close>

lemma discover_examples_exact:
  assumes "project_root env = Inr root" and "\<forall>x. to_string_lossy env x = x" and "distinct fs"
    and "read_dir env (path_join (path_join root ''testsuite'') ''examples'') s = Some (map Inr gs)" and "mset gs = mset fs"
  shows "discover_examples env s = Some (Inr (example_names fs), s) \<and>
     sorted (example_names fs) \<and> distinct (example_names fs) \<and> set (example_names fs) = {n. n \<noteq> [] \<and> n @ ''.rs'' \<in> set fs}"
  using discover_examples_run [OF assms(1,2,4)] example_names_order [OF assms(5)] set_example_names [of fs]
    distinct_example_names [OF assms(3)] sorted_example_names [of fs]
  by simp

text \<open>
  C33: from the command line to the verdict: the command \<open>test\<close> succeeds if and only if some
  example file matches the filter and all matching examples, run one after the other in the order of their names,
  end and pass; a failure, an error or a panic of any of them makes it fail.
\<close>

theorem xtask_test_succeeds:
  assumes "project_root env = Inr root" and "\<forall>x. to_string_lossy env x = x"
    and "read_dir env (path_join (path_join root ''testsuite'') ''examples'') s = Some (map Inr fs)"
  shows "xtask_main ft a ts env (Test selection bl rel) s = Some (Inr (), s') \<longleftrightarrow>
     (let sel = filter (\<lambda>n. case selection of Some f \<Rightarrow> contains n f | None \<Rightarrow> True) (example_names fs)
      in sel \<noteq> [] \<and>
         all_pass (run_example ft a ts root (build_example env) \<lparr>verbose = False, bless = bl, release = rel\<rparr>) sel s s')"
proof -
  have r: "run_example_in ft a ts env opts = run_example ft a ts root (build_example env) opts" for opts
    using assms(1) by (simp add: run_example_in_def fun_eq_iff)
  show ?thesis
    unfolding xtask_main_def Commands.case r test_command_succeeds discover_examples_run [OF assms]
    by (cases selection) (simp_all add: Let_def)
qed

theorem xtask_test_succeeds_witness:
  "\<exists>s'. xtask_main default_features host_abi dull_tools small_env (Test (Some ''bas'') True False) empty_host
     = Some (Inr (), s')"
proof -
  let ?opts = "\<lparr>verbose = False, bless = True, release = False\<rparr>"
  let ?run = "run_example default_features host_abi dull_tools ''/w'' (build_example small_env) ?opts"
  have l: "\<forall>x. to_string_lossy small_env x = x"
    "read_dir small_env (path_join (path_join ''/w'' ''testsuite'') ''examples'') empty_host
       = Some (map Inr [''basic.rs'', ''README'', ''async.rs''])" by (simp_all add: small_env_def)
  have n: "filter (\<lambda>n. contains n ''bas'') (example_names [''basic.rs'', ''README'', ''async.rs'']) = [''basic'']"
    using small_names(2) small_filter by simp
  have "\<exists>s'. ?run ''basic'' empty_host = Some (Inr True, s')"
    unfolding run_example_def by (simp add: io_bind_def small_config small_build default_config_def small_run)
  then obtain s' where "?run ''basic'' empty_host = Some (Inr True, s')" by blast
  then show ?thesis
    using xtask_test_succeeds [OF small_env_root l, of default_features host_abi dull_tools "Some ''bas''" True False s']
    by (auto simp: n)
qed

end
