(* ===== verification/BuildScript.thy ===== *)
theory BuildScript
  imports HostIO Rtt
begin

text \<open>
  The build script \<open>build.rs\<close> of the crate, which runs on the host: it reads the size of the RTT
  buffer from an environment variable, checks it and writes the source file \<open>consts.rs\<close> that
  \<open>logger/rtt.rs\<close> includes. The host has a 64-bit \<open>usize\<close>.
\<close>

subsection \<open>Decimal numbers\<close>

definition host_usize_limit :: nat where
  "host_usize_limit = 2 ^ 64"

definition to_digit :: "char \<Rightarrow> nat option" where
  "to_digit c = (let n = of_char c :: nat in if 48 \<le> n \<and> n \<le> 57 then Some (n - 48) else None)"

text \<open>The loop of \<open>usize::from_str\<close>: every step checks for overflow.\<close>

fun parse_digits :: "nat \<Rightarrow> string \<Rightarrow> nat option" where
  "parse_digits acc [] = Some acc"
| "parse_digits acc (c # cs) =
     (case to_digit c of
        None \<Rightarrow> None
      | Some d \<Rightarrow> if acc * 10 + d < host_usize_limit then parse_digits (acc * 10 + d) cs else None)"

definition parse_usize :: "string \<Rightarrow> nat option" where
  "parse_usize s =
     (let digits = (case s of [] \<Rightarrow> [] | c # cs \<Rightarrow> if c = CHR ''+'' then cs else s)
      in if digits = [] then None else parse_digits 0 digits)"

fun show_usize :: "nat \<Rightarrow> string" where
  "show_usize n = (if n < 10 then [char_of (48 + n)] else show_usize (n div 10) @ [char_of (48 + n mod 10)])"

declare show_usize.simps [simp del]

subsection \<open>The build script\<close>

datatype build_panic =
    CouldNotParse      \<comment> \<open>\<open>expect\<close> on the parse\<close>
  | TooSmall           \<comment> \<open>the assertion\<close>
  | NoOutDir           \<comment> \<open>\<open>unwrap\<close> on the variable \<open>OUT_DIR\<close>\<close>
  | CouldNotWrite      \<comment> \<open>\<open>unwrap\<close> on the write\<close>

definition indent :: string where
  "indent = NL # replicate 12 (CHR '' '')"

definition consts_text :: string where
  "consts_text =
     ''/// RTT buffer size (default: 1024).'' @ indent @ ''///'' @ indent
     @ ''/// Can be customized by setting the `DEFMT_RTT_BUFFER_SIZE` environment variable.'' @ indent
     @ ''/// Use a power of 2 for best performance.'' @ indent
     @ ''pub(crate) const BUF_SIZE: usize = ''"

definition consts_rs :: "nat \<Rightarrow> string" where
  "consts_rs buf_size = consts_text @ show_usize buf_size @ '';''"

text \<open>
  \<open>env::var(..).map(|s| s.parse().expect(..)).unwrap_or(1024)\<close>: the variable is parsed only when
  it is present and valid Unicode, and every error of the lookup gives the default.
\<close>

definition configured_size :: "VarError + string \<Rightarrow> build_panic + nat" where
  "configured_size var =
     (case var of
        Inl e \<Rightarrow> Inr 1024
      | Inr s \<Rightarrow> (case parse_usize s of None \<Rightarrow> Inl CouldNotParse | Some n \<Rightarrow> Inr n))"

definition build_main ::
    "('t, 'd) tools \<Rightarrow> VarError + string \<Rightarrow> path option \<Rightarrow> host_state \<Rightarrow> (build_panic + unit) \<times> host_state" where
  "build_main ts var out_dir s =
     (case configured_size var of
        Inl e \<Rightarrow> (Inl e, s)
      | Inr buf_size \<Rightarrow>
          if buf_size < 32 then (Inl TooSmall, s)
          else
            (case out_dir of
               None \<Rightarrow> (Inl NoOutDir, s)
             | Some dir \<Rightarrow>
                 (case fs_write ts (path_join dir ''consts.rs'') (to_bytes (consts_rs buf_size)) s of
                    Some (Inr _, s') \<Rightarrow> (Inr (), s')
                  | _ \<Rightarrow> (Inl CouldNotWrite, s))))"

subsection \<open>Printing and parsing\<close>

lemma to_digit_char_of [simp]: "d < 10 \<Longrightarrow> to_digit (char_of (48 + d)) = Some d"
  by (simp add: to_digit_def of_char_of)

lemma parse_digits_append:
  "parse_digits acc (xs @ ys) = Option.bind (parse_digits acc xs) (\<lambda>a. parse_digits a ys)"
  by (induction acc xs rule: parse_digits.induct) (auto split: option.split)

lemma parse_show_digits:
  "parse_digits 0 (show_usize n) = (if n < host_usize_limit then Some n else None)"
proof (induction n rule: show_usize.induct)
  case (1 n)
  show ?case
  proof (cases "n < 10")
    case True
    then show ?thesis by (simp add: show_usize.simps [of n] host_usize_limit_def)
  next
    case False
    have "n div 10 < host_usize_limit" if "n < host_usize_limit" using that by simp
    then show ?thesis
      using 1 False by (simp add: show_usize.simps [of n] parse_digits_append)
  qed
qed

lemma show_usize_nonempty: "\<exists>c cs. show_usize n = c # cs \<and> c \<noteq> CHR ''+''"
proof (induction n rule: show_usize.induct)
  case (1 n)
  have "to_digit (CHR ''+'') = None" by (simp add: to_digit_def Let_def)
  then have "char_of (48 + d) \<noteq> CHR ''+''" if "d < 10" for d :: nat
    using to_digit_char_of [OF that] by (metis option.distinct(1))
  then show ?case
    using 1 by (cases "n < 10") (auto simp: show_usize.simps [of n])
qed

lemma parse_show: "parse_usize (show_usize n) = (if n < host_usize_limit then Some n else None)"
  using show_usize_nonempty [of n] parse_show_digits [of n] by (auto simp: parse_usize_def)

lemma consts_rs_inject:
  assumes "consts_rs m = consts_rs n" and "m < host_usize_limit" and "n < host_usize_limit"
  shows "m = n"
proof -
  have "show_usize m = show_usize n" using assms(1) by (simp add: consts_rs_def)
  then have "parse_digits 0 (show_usize m) = parse_digits 0 (show_usize n)" by (rule arg_cong)
  then show ?thesis unfolding parse_show_digits using assms(2,3) by simp
qed

subsection \<open>Properties\<close>

text \<open>
  C35: a size given in decimal is accepted exactly when it is at least 32 and fits in the host's
  \<open>usize\<close>; then the generated source declares this size and no other, and the RTT channel over a buffer of
  that size starts in a valid state, empty and with room for all but one byte, if the size is
  below a quarter of the target's address space. Other numbers stop the build and write nothing.
\<close>

theorem build_sets_buffer_size:
  assumes "can_write ts (path_join dir ''consts.rs'')"
  shows "build_main ts (Inr (show_usize n)) (Some dir) s =
      (if host_usize_limit \<le> n then (Inl CouldNotParse, s)
       else if n < 32 then (Inl TooSmall, s)
       else (Inr (), s\<lparr>files := (files s)(path_join dir ''consts.rs'' := Some (to_bytes (consts_rs n)))\<rparr>)) \<and>
    (\<forall>m < host_usize_limit. n < host_usize_limit \<longrightarrow> to_bytes (consts_rs m) = to_bytes (consts_rs n) \<longrightarrow> m = n) \<and>
    (32 \<le> n \<longrightarrow> 2 * n < usize_limit \<longrightarrow>
       channel_ok (rtt_start (replicate n 0)) \<and> channel_room (rtt_start (replicate n 0)) = n - 1)"
proof (intro conjI allI impI)
  show "build_main ts (Inr (show_usize n)) (Some dir) s =
      (if host_usize_limit \<le> n then (Inl CouldNotParse, s)
       else if n < 32 then (Inl TooSmall, s)
       else (Inr (), s\<lparr>files := (files s)(path_join dir ''consts.rs'' := Some (to_bytes (consts_rs n)))\<rparr>))"
    using assms by (simp add: build_main_def configured_size_def parse_show fs_write_def return_def)
  show "m = n" if "m < host_usize_limit" "n < host_usize_limit" "to_bytes (consts_rs m) = to_bytes (consts_rs n)" for m
  proof -
    have "of_bytes (to_bytes (consts_rs m)) = of_bytes (to_bytes (consts_rs n))" using that(3) by (rule arg_cong)
    then have "consts_rs m = consts_rs n" unfolding of_to_bytes .
    then show ?thesis using that(1,2) by (rule consts_rs_inject)
  qed
next
  assume n: "32 \<le> n" "2 * n < usize_limit"
  show "channel_ok (rtt_start (replicate n 0))" using n by (intro rtt_start_ok(1)) simp_all
  show "channel_room (rtt_start (replicate n 0)) = n - 1" by (simp add: rtt_start_ok(3))
qed

theorem build_sets_buffer_size_witness:
  "build_main dull_tools (Inr (show_usize 64)) (Some ''out'') (empty_host) =
     (Inr (), empty_host\<lparr>files := (files empty_host)(path_join ''out'' ''consts.rs'' := Some (to_bytes (consts_rs 64)))\<rparr>) \<and>
   fst (build_main dull_tools (Inr (show_usize 16)) (Some ''out'') empty_host) = Inl TooSmall"
proof -
  have w: "can_write dull_tools (path_join ''out'' ''consts.rs'')" by (simp add: dull_tools_def)
  show ?thesis
    using build_sets_buffer_size [OF w, of 64 empty_host] build_sets_buffer_size [OF w, of 16 empty_host]
    by (simp add: host_usize_limit_def)
qed

end
