(* ===== verification/Unit_Tests.thy ===== *)
theory Unit_Tests
  imports RingBuffer
begin

text \<open>
  The unit tests at the end of \<open>src/ring_buffer.rs\<close>, as programs over the model. A test passes
  if no operation faults and every \<open>assert_eq!\<close> holds. The buffer of a test is uninitialised
  memory, so its bytes are arbitrary.
\<close>

subsection \<open>Test programs\<close>

datatype unit_step =
    P_write "u8 list"                  \<comment> \<open>\<open>p.write(..)\<close>\<close>
  | C_read                             \<comment> \<open>\<open>let r = c.read()\<close>\<close>
  | Assert_bufs "u8 list" "u8 list"    \<comment> \<open>\<open>assert_eq!(r.bufs(), ..)\<close>\<close>
  | Release usize                      \<comment> \<open>\<open>r.release(..)\<close>, which moves \<open>r\<close>\<close>

text \<open>A use of \<open>r\<close> without a grant cannot be written in Rust; it counts as a failed test.\<close>

fun run_unit :: "features \<Rightarrow> unit_step list \<Rightarrow> GrantR option \<Rightarrow> ring \<Rightarrow> bool res" where
  "run_unit ft [] r v = Inr True"
| "run_unit ft (P_write data # steps) r v = res_bind (Producer_write ft data v) (run_unit ft steps r)"
| "run_unit ft (C_read # steps) r v = res_bind (Consumer_read v) (\<lambda>g. run_unit ft steps (Some g) v)"
| "run_unit ft (Assert_bufs a b # steps) (Some g) v =
     (if GrantR_bufs g = (a, b) then run_unit ft steps (Some g) v else Inr False)"
| "run_unit ft (Release n # steps) (Some g) v = res_bind (GrantR_release ft g n v) (run_unit ft steps None)"
| "run_unit ft (_ # steps) None v = Inr False"

subsection \<open>The tests\<close>

definition touching_no_boundaries :: "features \<Rightarrow> u8 list \<Rightarrow> bool res" where
  "touching_no_boundaries ft mem = run_unit ft
     [P_write [1, 2], C_read, Assert_bufs [1, 2] [], Release 2, C_read, Assert_bufs [] []]
     None (RingBuffer_new ft 1 1 mem)"

definition fill_simple :: "features \<Rightarrow> u8 list \<Rightarrow> bool res" where
  "fill_simple ft mem = run_unit ft
     [P_write [1, 2, 3], C_read, Assert_bufs [1, 2, 3] [], Release 3, C_read, Assert_bufs [] []]
     None (RingBuffer_new ft 0 0 mem)"

definition fill_crossing_end :: "features \<Rightarrow> u8 list \<Rightarrow> bool res" where
  "fill_crossing_end ft mem = run_unit ft
     [P_write [1, 2, 3], C_read, Assert_bufs [1, 2] [3], Release 2, C_read, Assert_bufs [3] [],
      Release 1, C_read, Assert_bufs [] []]
     None (RingBuffer_new ft 2 2 mem)"

definition release_crossing_end :: "features \<Rightarrow> u8 list \<Rightarrow> bool res" where
  "release_crossing_end ft mem = run_unit ft
     [P_write [1, 2, 3], C_read, Assert_bufs [1, 2] [3], Release 3, C_read, Assert_bufs [] []]
     None (RingBuffer_new ft 2 2 mem)"

definition underfill_crossing_end :: "features \<Rightarrow> u8 list \<Rightarrow> bool res" where
  "underfill_crossing_end ft mem = run_unit ft
     [P_write [1, 2], C_read, Assert_bufs [1] [2], Release 1, C_read, Assert_bufs [2] [],
      Release 1, C_read, Assert_bufs [] []]
     None (RingBuffer_new ft 3 3 mem)"

definition overfill :: "features \<Rightarrow> u8 list \<Rightarrow> bool res" where
  "overfill ft mem = run_unit ft
     [P_write [1, 2, 3, 4, 5, 6, 7], C_read, Assert_bufs [1, 2, 3] [], Release 3, C_read,
      Assert_bufs [] []]
     None (RingBuffer_new ft 0 0 mem)"

definition stop_at_end :: "features \<Rightarrow> u8 list \<Rightarrow> bool res" where
  "stop_at_end ft mem = run_unit ft
     [P_write [1, 2], C_read, Assert_bufs [1, 2] [], Release 2, C_read, Assert_bufs [] []]
     None (RingBuffer_new ft 2 2 mem)"

definition stop_before_end :: "features \<Rightarrow> u8 list \<Rightarrow> bool res" where
  "stop_before_end ft mem = run_unit ft
     [P_write [1], C_read, Assert_bufs [1] [], Release 1, C_read, Assert_bufs [] []]
     None (RingBuffer_new ft 2 2 mem)"

definition zero_release :: "features \<Rightarrow> u8 list \<Rightarrow> bool res" where
  "zero_release ft mem = run_unit ft
     [P_write [1, 2], C_read, Assert_bufs [1, 2] [], Release 0, C_read, Assert_bufs [1, 2] []]
     None (RingBuffer_new ft 2 2 mem)"

definition partial_release :: "features \<Rightarrow> u8 list \<Rightarrow> bool res" where
  "partial_release ft mem = run_unit ft
     [P_write [1, 2], C_read, Assert_bufs [1, 2] [], Release 1, C_read, Assert_bufs [2] []]
     None (RingBuffer_new ft 2 2 mem)"

lemmas unit_test_defs =
  touching_no_boundaries_def fill_simple_def fill_crossing_end_def release_crossing_end_def underfill_crossing_end_def overfill_def stop_at_end_def stop_before_end_def zero_release_def partial_release_def

subsection \<open>Evaluation\<close>

lemma ring_of_4:
  "length mem = 4 \<Longrightarrow> \<exists>a b c d. mem = [a, b, c, d]"
  by (auto simp: numeral_eq_Suc length_Suc_conv)

lemmas unit_eval = run_unit.simps RingBuffer_new_def Producer_write_def Producer_available_def Producer_copy_def
  Consumer_read_def GrantR_release_def GrantR_bufs_def flush_ecc_def Let_def uadd_def usub_def urem_def
  uwrapping_add_def usize_limit_def copy_nonoverlapping_def slice_from_raw_parts_def as_u32_def

subsection \<open>Properties\<close>

text \<open>
  Every unit test of the ring buffer passes on the model, with and without the feature
  \<open>ecc\<close>, whatever the uninitialised buffer holds.
\<close>

lemma unit_tests_pass:
  assumes "length mem = 4"
  shows "list_all (\<lambda>test. test ft mem = Inr True)
     [touching_no_boundaries, fill_simple, fill_crossing_end, release_crossing_end, underfill_crossing_end, overfill, stop_at_end, stop_before_end, zero_release, partial_release]"
proof -
  obtain a b c d where mem: "mem = [a, b, c, d]" using ring_of_4 [OF assms] by blast
  show ?thesis
    unfolding list.pred_inject mem
    by (intro conjI; cases "feat_ecc ft"; simp add: unit_test_defs unit_eval)
qed

end
