(* ===== verification/Spec2Isabelle.thy ===== *)
theory Spec2Isabelle
  imports Spsc Scenarios Async_Example Xtask BuildScript Unit_Tests
begin

text \<open>
  A verification of \<open>defmt-persist\<close>: a logger for microcontrollers that keeps its log in a region
  of RAM that a reset does not clear, so that the log of the previous run can be read out
  after the reset.

  \<^bold>\<open>The program.\<close> \<open>init\<close> (\<open>src/lib.rs\<close>) finds the region between two linker symbols and
  interprets it as a header and a byte ring (\<open>src/ring_buffer.rs\<close>). If the header carries the
  magic number and both indices are in range, the queued bytes are kept, else the ring is
  reset. The producer half of the ring goes to the global \<open>defmt\<close> logger (\<open>src/logger.rs\<close>), which
  pushes every chunk of an encoded frame to the ring, to RTT (\<open>src/logger/rtt.rs\<close>) and, for tests,
  to semihosting (\<open>src/logger/semihosting.rs\<close>). The consumer half goes to the application, which
  reads grants from the ring, releases them, and can await data (\<open>src/atomic_waker.rs\<close>).

  \<^bold>\<open>The theories\<close>, in dependency order:

  \<^item> \<open>Prelude\<close>: machine integers (\<open>usize\<close> as \<open>nat\<close> below \<open>2^32\<close> with checked and wrapping
    operations), faults (panics and undefined behaviour as \<open>Inl\<close>), raw copies and slices.
  \<^item> \<open>Circular\<close>: positions, content and free space of a ring with one empty slot, without any
    program in it; what a put, a take and a foreign byte do to the content.
  \<^item> \<open>QueueSpec\<close>: the interfaces. \<open>byte_sink\<close> is what the logger needs from the ring (a push keeps
    the prefix that fits and never faults), \<open>byte_queue\<close> adds the consumer's side. The clients'
    lemmas about chunked pushes and about runs against a bounded FIFO are proved from their
    laws.
  \<^item> \<open>RingBuffer\<close>: \<open>RingBuffer\<close>, \<open>Producer\<close>, \<open>Consumer\<close> and \<open>GrantR\<close>, each method as a function on
    the shared memory \<open>ring\<close>, with the arithmetic of the code; closed forms on valid rings; the
    interpretation of \<open>byte_queue\<close> on the methods; recovery.
  \<^item> \<open>Region\<close>: the \<open>repr(C)\<close> layout for the supported alignments, the field offsets exported to
    the tests, little-endian loads and stores, and \<open>recover_or_reinitialize\<close> on raw bytes.
  \<^item> \<open>Crash\<close>: every operation as the sequence of its stores in program order, a reset after any
    of them, on memory with and without an ECC write cache; recovery interrupted again and again; runs of a device that writes,
    releases, resets in the middle, and recovers, refine a queue.
  \<^item> \<open>Spsc\<close>: producer and consumer at the same time, as two state machines whose single loads and
    stores interleave; FIFO order, stability of grants, wait-freedom of the producer, and no store of both sides to the same
    place but the flush.
  \<^item> \<open>Waker\<close>: the waker slot and \<open>wait_for_data\<close>, interleaved with a logger; no lost wake-up.
  \<^item> \<open>Rtt\<close>: the RTT channel against a debugger that moves the read index between any two loads.
    \<open>write_all\<close> and \<open>flush\<close> can spin for ever, so they return an option. Without a debugger the
    channel is a \<open>byte_sink\<close> too.
  \<^item> \<open>Logger\<close>: \<open>acquire\<close>, \<open>write\<close>, \<open>flush\<close>, \<open>release\<close> with the depth counter, the critical section and
    all outputs; frames reach the outputs, inside the critical section and in order (a trace records what is done to
    the outside); reentrant calls are dropped, except in the last part of \<open>release\<close>, where a handler that logs breaks the frame.
  \<^item> \<open>Init\<close>: \<open>init\<close> with its checks, the hand-over to the logger and the measured length.

  \<^item> \<open>Testsuite\<close>: the device code of the tests under \<open>testsuite/src\<close>: the UART driver,
    \<open>drain_to_uart\<close>, the dump of the region, and the executor \<open>block_on\<close> with \<open>join\<close>, which is shown to
    be a round-robin schedule of two tasks that share a state.
  \<^item> \<open>HostIO\<close>: the host side, as computations on the host's files that may fail, panic or not
    return; QEMU (\<open>xtask/src/qemu.rs\<close>) and the decoder (\<open>xtask/src/defmt.rs\<close>).
  \<^item> \<open>HostSpec\<close>: what is assumed of QEMU (how it reads its command line), of the decoder (finitely many frames and then an
    error) and of temporary files; from this, what \<open>run_qemu\<close> and \<open>decode_output\<close> return.
  \<^item> \<open>Corrupt\<close>: the corruption test \<open>xtask/src/corrupt.rs\<close>; each corruption of a snapshot is
    detected by recovery on the target, and the verdict over all scenarios.
  \<^item> \<open>BoardSpec\<close>: two more interfaces. \<open>log_device\<close> is what a program that logs relies on (a message
    is appended as far as it fits, a drain sends the queue, a dump sends the memory);
    \<open>restartable_device\<close> adds that a device that starts with a dump in its memory has the queue of the dump.
  \<^item> \<open>Examples\<close>: the example programs under \<open>testsuite/examples\<close> over these interfaces, the board
    (device, memory of the region, UARTs) that implements them, and the runs from the reset on.
  \<^item> \<open>Scenarios\<close>: \<open>corrupt_test\<close> under the eight corruptions of the runner, with its UARTs and semihosting, and the
    corruption test of the host on a QEMU that emulates this board.
  \<^item> \<open>Async_Example\<close>: \<open>async_test\<close>, two tasks on one device run by \<open>block_on\<close>.
  \<^item> \<open>Runner\<close>: the configuration of an example, its one- and two-phase runs and the comparison with the
    expected output (\<open>xtask/src/runner.rs\<close>).
  \<^item> \<open>Xtask\<close>: the listing and the build of the examples (\<open>xtask/src/build.rs\<close>) and the commands
    (\<open>xtask/src/main.rs\<close>).
  \<^item> \<open>BuildScript\<close>: \<open>build.rs\<close>, which sets the size of the RTT buffer.
  \<^item> \<open>Unit_Tests\<close>: the unit tests of the ring buffer, run on the model.

  This theory holds the properties that span components.

  \<^bold>\<open>Correspondence.\<close> Definitions have the name of the function they model, with the type in
  front for methods (\<open>Producer_write\<close> is \<open>Producer::write\<close>). \<open>features\<close> holds the Cargo features, and
  each \<open>cfg\<close> is a conditional on it. A handle (\<open>Producer\<close>, \<open>Consumer\<close>) has no state beyond the
  memory it refers to, so the functions take and return that memory. Shared statics are
  fields of the records \<open>logger\<close> and \<open>device\<close>.

  \<^bold>\<open>Bounds.\<close> No fuel is used. \<open>max_buf_len\<close> is the bound \<open>i32::MAX / 4\<close> that \<open>init\<close> enforces; it is
  part of \<open>ring_ok\<close> and is what rules out overflow. \<open>usize\<close> has 32 bits, as on the Cortex-M
  targets.

  \<^bold>\<open>Parameters.\<close> Code that is not in the repository is an argument: the \<open>defmt\<close> encoder,
  \<open>critical_section\<close>, semihosting and the debugger (record \<open>platform\<close>), the alignments of the
  target (record \<open>abi\<close>). Assumed of the debugger, where a theorem says so: it moves the RTT read
  index only over pending bytes (\<open>host_conforms\<close>) and, in blocking mode, eventually takes all
  of them (\<open>host_drains\<close>).

  On the host side the parameters are QEMU, \<open>cargo\<close>, the \<open>defmt\<close> decoder and the failures of
  the file system (records \<open>tools\<close> and \<open>environment\<close>); what is assumed of them is said in \<open>HostSpec\<close>. On the device side of the tests they are the
  status registers of the UARTs and semihosting, of which \<open>semihosting_works\<close> assumes that it can be opened and appends what is written.

  \<^bold>\<open>Not code.\<close> \<open>region_store\<close> is the memory image of a ring: the code holds a reference into the region, so its stores are
  the image, and the model holds a record. It is the only image with the fields that the pointer cast sees and the old bytes in the
  padding (\<open>region_image_unique\<close>).

  \<^bold>\<open>Not modelled.\<close> The weak memory model (loads see the last store; the orderings of the code
  are what justifies it), provenance and lifetimes; the panic handlers that only end a program;
  \<open>testsuite/build.rs\<close>, which copies a file; parsing of the command line (\<open>clap\<close>), messages on
  the console, and the functions that end the program. Trimming and upper case on the host are
  those of ASCII.
\<close>

subsection \<open>From a log call to the next run\<close>

text \<open>
  C1: end to end: frames logged in one run are what the consumer finds in the next. After any
  number of complete log calls, a reset that keeps the memory of the region, and \<open>init\<close> in the
  new run, the recovered bytes are the bytes queued before followed by the frames, in order,
  cut off only where the ring was full; \<open>recovered_logs_len\<close> is their number.
\<close>

theorem frames_survive_reset:
  fixes s :: "('e, 'r, 'h, 'w) logger" and d :: "('e, 'r, 'h, 'w) device"
  assumes "list_all2 body css wss" and "\<forall>cs\<in>set css. length cs + 2 < usize_limit"
    and "depth s = 0" and "logger_ok s" and "rtt_live ft pf s" and "initialized s"
    and "rb_header (persist s) = MAGIC ft" and "feat_ecc ft \<or> rb_ecc_flush (persist s) = 0"
    and "region_ok ft a start end bytes"
    and "length (buf (persist s)) = end - start - size_of_RingBuffer ft a"
    and "init_error ft a start end (INITIALIZED d) = None"
  shows "\<exists>t c d'. log_run ft pf (log_calls css) s = Some (Inr t) \<and>
     init ft a start end (region_store ft a (persist t) bytes) d = Some (Inr (Inr c, d')) \<and>
     content (consumer_ring c) = content (persist s)
       @ take (space (persist s)) (concat (encode_frames pf wss (encoder s))) \<and>
     recovered_logs_len c = length (content (consumer_ring c))"
proof -
  obtain t where t: "log_run ft pf (log_calls css) s = Some (Inr t)" "logger_ok t"
    "same_region ft (persist s) (persist t)"
    "content (persist t) = content (persist s) @ take (space (persist s)) (concat (encode_frames pf wss (encoder s)))"
    using log_calls_run [OF assms(1-6)] by blast
  have v: "ring_ok (persist t)" "rb_header (persist t) = MAGIC ft" "feat_ecc ft \<or> rb_ecc_flush (persist t) = 0"
    "length (buf (persist t)) = end - start - size_of_RingBuffer ft a"
    using t(2,3) assms(7,8,10) by (auto simp: logger_ok_def same_region_def)
  note st = recover_stored [OF v(1-3) assms(9) v(4)]
  have "recover ft (init_view ft a start end (region_store ft a (persist t) bytes)) = flush_ecc ft (persist t)"
    using st init_recovers(1) [OF st(1)] by simp
  then have "init ft a start end (region_store ft a (persist t) bytes) d = Some (Inr (Inr (measured (flush_ecc ft (persist t))),
     d\<lparr>INITIALIZED := True, LOGGER_STATE := LoggerState_initialize ((LOGGER_STATE d)\<lparr>persist := flush_ecc ft (persist t)\<rparr>)\<rparr>))"
    using init_run [OF assms(11) st(1)] by simp
  then show ?thesis using t(1,4) by (auto simp: measured_def)
qed

theorem frames_survive_reset_witness:
  "\<exists>t c d'. log_run default_features bare_platform (log_calls [[Write [1]], [Write [2, 3]]]) booted = Some (Inr t) \<and>
     init default_features thumb_abi 0x20000000 0x20000025
       (region_store default_features thumb_abi (persist t) (replicate 37 0)) cold_device = Some (Inr (Inr c, d')) \<and>
     content (consumer_ring c) = [1, 0, 2, 3] \<and> recovered_logs_len c = 4"
proof -
  have b: "list_all2 body [[Write [1]], [Write [2, 3]]] [[[1]], [[2, 3]]]"
    by (simp, intro conjI body.intros)
  have l: "\<forall>cs\<in>set [[Write [1]], [Write [2, 3]]]. length cs + 2 < usize_limit" by (simp add: usize_limit_def)
  have f: "encode_frames bare_platform [[[1]], [[2, 3]]] () = [[1, 0], [2, 3, 0]]"
    by (simp add: encode_frame_def bare_platform_def)
  have p: "rb_header (persist booted) = MAGIC default_features"
    "feat_ecc default_features \<or> rb_ecc_flush (persist booted) = 0" "length (buf (persist booted)) = 5"
    by (simp_all add: booted_def RingBuffer_new_def)
  have e: "init_error default_features thumb_abi 0x20000000 0x20000025 (INITIALIZED cold_device) = None"
    by (simp add: init_error_def cold_device_def layout_defs default_features_def thumb_abi_def max_buf_len_def)
  have a: "abi_ok thumb_abi" "(0x20000025::nat) < usize_limit" "length (replicate 37 (0::u8)) = 0x20000025 - 0x20000000"
    by (simp_all add: abi_ok_def thumb_abi_def usize_limit_def)
  have sz: "length (buf (persist booted)) = 0x20000025 - 0x20000000 - size_of_RingBuffer default_features thumb_abi"
    unfolding p by (simp add: layout_defs default_features_def thumb_abi_def)
  show ?thesis
    using frames_survive_reset [OF b l booted_ok(3,1,2,4) p(1,2) init_region [OF e a] sz e]
    unfolding booted_ok f by fastforce
qed

end
